(* ===== verification/Prelude.thy ===== *)
theory Prelude
  imports Main "HOL-Library.Word" "HOL-Library.AList" "HOL-Library.Sublist"
begin

text \<open>
  The shared vocabulary of the development: byte strings (\<open>std::string\<close> is a
  \<^typ>\<open>string\<close>, one \<^typ>\<open>char\<close> per byte), machine integers, the members of
  \<open>std::string\<close> and \<open>std::unordered_map\<close> the sources call, decimal printing and
  reading (\<open>std::to_string\<close>, \<open>std::stoull\<close>), the answers of the kernel to the
  blocking \<open>write\<close> loops, and the lemmas on them every component uses.
\<close>

unbundle bit_operations_syntax

named_theorems kv_defs \<open>definitions a component proof unfolds together\<close>
named_theorems kv_inv \<open>preservation lemmas for component invariants\<close>

type_synonym u8 = "8 word"
type_synonym u16 = "16 word"
type_synonym u32 = "32 word"
type_synonym u64 = "64 word"


subsection \<open>Bytes\<close>

text \<open>
  \<open>static_cast<char>(w & 0xFF)\<close> and \<open>static_cast<uintN_t>(static_cast<unsigned char>(c))\<close>.
\<close>

definition char_of_word :: "'a::len word \<Rightarrow> char" where
  "char_of_word w = char_of (unat w)"

definition word_of_char :: "char \<Rightarrow> 'a::len word" where
  "word_of_char c = of_nat (of_char c)"

lemma of_char_less_256: "(of_char c :: nat) < 256"
  by (metis of_char_mod_256 mod_less_divisor zero_less_numeral)

lemma word_of_char_of_word:
  fixes w :: "'a::len word"
  assumes "8 \<le> LENGTH('a)"
  shows "word_of_char (char_of_word (w AND 255) :: char) = w AND 255"
proof -
  have "w AND 255 \<le> 255" by (rule word_and_le1)
  moreover have "unat (255 :: 'a word) \<le> 255"
    by (metis of_nat_numeral unat_of_nat mod_less_eq_dividend)
  ultimately have "unat (w AND 255) \<le> 255"
    by (meson order.trans word_le_nat_alt)
  then show ?thesis
    by (simp add: word_of_char_def char_of_word_def)
qed

lemma char_of_word_of_char:
  assumes "8 \<le> LENGTH('a::len)"
  shows "char_of_word (word_of_char c :: 'a word) = c"
proof -
  have "(256 :: nat) \<le> 2 ^ LENGTH('a)"
    using power_increasing[OF assms, of "2 :: nat"] by simp
  with of_char_less_256[of c] have "(of_char c :: nat) < 2 ^ LENGTH('a)"
    by (rule less_le_trans)
  then show ?thesis
    by (simp add: char_of_word_def word_of_char_def unat_of_nat)
qed

lemma bit_word_of_char_ge_8:
  "8 \<le> n \<Longrightarrow> \<not> bit (word_of_char c :: 'a::len word) n"
proof -
  assume n: "8 \<le> n"
  have "\<not> bit (of_char c :: nat) n"
  proof -
    have "(of_char c :: nat) < 2 ^ 8" using of_char_less_256[of c] by simp
    also have "\<dots> \<le> (2 :: nat) ^ n" using n by (rule power_increasing) simp
    finally show ?thesis by (simp add: bit_iff_odd)
  qed
  then show ?thesis
    by (simp add: word_of_char_def bit_simps)
qed


lemma word_xor_right_cancel: "(a :: 'a::len word) XOR c = b XOR c \<longleftrightarrow> a = b"
  by (metis xor.assoc xor.right_neutral xor_self_eq)

lemma and_255: "(w :: 'a::len word) AND 255 = take_bit 8 w"
  by (simp add: take_bit_eq_mask mask_eq_exp_minus_1)

lemma bit_word_of_char_less_8: "bit (word_of_char c :: 'a::len word) n \<Longrightarrow> n < 8"
  by (meson bit_word_of_char_ge_8 not_less)

lemma take_bit_8_word_of_char:
  "take_bit 8 (word_of_char c :: 'a::len word) = word_of_char c"
  by (rule bit_word_eqI) (auto simp: bit_simps dest: bit_word_of_char_less_8)

text \<open>Cutting a word into bytes, lowest first, and putting the bytes together again.\<close>

lemma le_bytes_join:
  fixes w :: "'a::len word"
  shows "foldl (\<lambda>v i. v OR push_bit (8 * i) (take_bit 8 (drop_bit (8 * i) w))) 0 [0..<k]
    = take_bit (8 * k) w"
proof (induction k)
  case (Suc k)
  have "take_bit (8 * k) w OR push_bit (8 * k) (take_bit 8 (drop_bit (8 * k) w))
      = take_bit (8 * Suc k) w"
    by (rule bit_word_eqI) (auto simp: bit_simps)
  with Suc show ?case by simp
qed simp

lemma le32_join:
  "(w :: u32) AND 255 OR push_bit 8 (drop_bit 8 w AND 255) OR push_bit 16 (drop_bit 16 w AND 255)
     OR push_bit 24 (drop_bit 24 w AND 255) = w"
proof -
  have "[0..<4] = [0, 1, 2, 3 :: nat]" by (simp add: upt_rec)
  with le_bytes_join[of w 4] show ?thesis
    by (simp add: and_255 or.assoc take_bit_word_eq_self)
qed

lemma bit_le_bytes:
  fixes f :: "nat \<Rightarrow> char"
  shows "n < LENGTH('a::len) \<Longrightarrow>
   bit (foldl (\<lambda>v i. v OR push_bit (8 * i) (word_of_char (f i))) (0 :: 'a word) [0..<k]) n
     \<longleftrightarrow> n < 8 * k \<and> bit (word_of_char (f (n div 8)) :: 'a word) (n mod 8)"
proof (induction k)
  case (Suc k)
  show ?case
  proof (cases "n < 8 * k")
    case True
    with Suc show ?thesis by (simp add: bit_or_iff bit_push_bit_iff)
  next
    case ge: False
    show ?thesis
    proof (cases "n < 8 * Suc k")
      case True
      with ge have k: "n div 8 = k" by auto
      then have "n mod 8 = n - 8 * k" by (metis minus_mult_div_eq_mod)
      note k this
      with True ge Suc show ?thesis by (simp add: bit_or_iff bit_push_bit_iff)
    next
      case False
      then have "8 \<le> n - 8 * k" by simp
      with False ge Suc show ?thesis
        by (auto simp: bit_or_iff bit_push_bit_iff bit_word_of_char_ge_8)
    qed
  qed
qed simp

lemma le_bytes_cut:
  fixes f :: "nat \<Rightarrow> char"
  assumes "j < k" and "8 * k \<le> LENGTH('a::len)"
  shows "take_bit 8 (drop_bit (8 * j)
      (foldl (\<lambda>v i. v OR push_bit (8 * i) (word_of_char (f i))) (0 :: 'a word) [0..<k]))
    = word_of_char (f j)"
proof (rule bit_word_eqI)
  fix n assume n: "n < LENGTH('a)"
  show "bit (take_bit 8 (drop_bit (8 * j)
      (foldl (\<lambda>v i. v OR push_bit (8 * i) (word_of_char (f i))) (0 :: 'a word) [0..<k]))) n
    \<longleftrightarrow> bit (word_of_char (f j) :: 'a word) n"
  proof (cases "n < 8")
    case True
    with assms have "8 * j + n < LENGTH('a)" "(8 * j + n) div 8 = j" "8 * j + n < 8 * k"
      by auto
    with True show ?thesis by (simp add: bit_take_bit_iff bit_drop_bit_eq bit_le_bytes)
  next
    case False
    then show ?thesis by (simp add: bit_take_bit_iff bit_word_of_char_ge_8)
  qed
qed

lemma le32_cut:
  fixes c0 c1 c2 c3 :: char
  defines "v \<equiv> word_of_char c0 OR push_bit 8 (word_of_char c1) OR push_bit 16 (word_of_char c2)
     OR push_bit 24 (word_of_char c3) :: u32"
  shows "char_of_word (v AND 255) = c0" "char_of_word (drop_bit 8 v AND 255) = c1"
    "char_of_word (drop_bit 16 v AND 255) = c2" "char_of_word (drop_bit 24 v AND 255) = c3"
proof -
  have "[0..<4] = [0, 1, 2, 3 :: nat]" by (simp add: upt_rec)
  then have v: "v = foldl (\<lambda>v i. v OR push_bit (8 * i) (word_of_char ([c0, c1, c2, c3] ! i))) 0 [0..<4]"
    by (simp add: v_def or.assoc)
  have cut: "j < 4 \<Longrightarrow> char_of_word (take_bit 8 (drop_bit (8 * j) v)) = [c0, c1, c2, c3] ! j" for j
    unfolding v by (subst le_bytes_cut) (simp_all add: char_of_word_of_char)
  show "char_of_word (v AND 255) = c0" "char_of_word (drop_bit 8 v AND 255) = c1"
    "char_of_word (drop_bit 16 v AND 255) = c2" "char_of_word (drop_bit 24 v AND 255) = c3"
    using cut[of 0] cut[of 1] cut[of 2] cut[of 3] by (simp_all add: and_255)
qed

lemma bit_word_of_char_8:
  "n < LENGTH('a) \<Longrightarrow> bit (word_of_char c :: 'a::len word) n \<longleftrightarrow> bit (of_char c :: nat) n"
  by (simp add: word_of_char_def bit_simps)

lemma word_of_char_inj:
  assumes "8 \<le> LENGTH('a::len)" and "(word_of_char c :: 'a word) = word_of_char d"
  shows "c = d"
  using assms char_of_word_of_char by metis


subsection \<open>Members of \<open>std::string\<close>\<close>

text \<open>
  \<open>s.find(c, from)\<close>, with \<^const>\<open>None\<close> for \<open>npos\<close>.
\<close>

fun index_of :: "char \<Rightarrow> string \<Rightarrow> nat option" where
  "index_of c [] = None"
| "index_of c (x # xs) = (if x = c then Some 0 else map_option Suc (index_of c xs))"

definition find_from :: "string \<Rightarrow> char \<Rightarrow> nat \<Rightarrow> nat option" where
  "find_from s c from = map_option (\<lambda>i. from + i) (index_of c (drop from s))"

text \<open>\<open>s.substr(from, to - from)\<close>, where \<open>to\<close> may be \<open>npos\<close>.\<close>

definition substr_to :: "string \<Rightarrow> nat \<Rightarrow> nat option \<Rightarrow> string" where
  "substr_to s from to = (case to of None \<Rightarrow> drop from s | Some e \<Rightarrow> take (e - from) (drop from s))"

text \<open>The line readers drop one trailing carriage return.\<close>

definition strip_cr :: "string \<Rightarrow> string" where
  "strip_cr line = (if line \<noteq> [] \<and> last line = CHR 0x0D then butlast line else line)"

lemma index_of_None: "index_of c s = None \<longleftrightarrow> c \<notin> set s"
  by (induction s) auto

lemma index_of_Some:
  "index_of c s = Some i \<Longrightarrow> i < length s \<and> s ! i = c \<and> c \<notin> set (take i s)"
  by (induction s arbitrary: i) (auto split: if_splits)

lemma index_of_append:
  "c \<notin> set xs \<Longrightarrow> index_of c (xs @ c # ys) = Some (length xs)"
  by (induction xs) auto

lemma index_of_notin_append:
  "c \<notin> set xs \<Longrightarrow> index_of c (xs @ ys) = map_option (\<lambda>i. length xs + i) (index_of c ys)"
  by (cases "index_of c ys"; induction xs) auto

lemma index_of_split:
  "index_of c s = Some i \<Longrightarrow> s = take i s @ c # drop (Suc i) s"
  using index_of_Some[of c s i] by (metis id_take_nth_drop)


subsection \<open>\<open>std::unordered_map\<close>\<close>

text \<open>
  A hash map is an association list with distinct keys: \<^const>\<open>map_of\<close> is \<open>find\<close>,
  \<^const>\<open>AList.update\<close> is \<open>m[k] = v\<close>, \<^const>\<open>AList.delete\<close> is \<open>erase(k)\<close> and the list
  order stands for the unspecified iteration order.  Nothing proved about iteration
  depends on that order beyond the fact that every entry is visited once.
\<close>

type_synonym ('k, 'v) umap = "('k \<times> 'v) list"

abbreviation um_wf :: "('k, 'v) umap \<Rightarrow> bool" where
  "um_wf m \<equiv> distinct (map fst m)"

lemma um_wf_update [simp, kv_inv]: "um_wf m \<Longrightarrow> um_wf (AList.update k v m)"
  by (rule distinct_update)

lemma um_wf_delete [simp, kv_inv]: "um_wf m \<Longrightarrow> um_wf (AList.delete k m)"
  by (rule distinct_delete)

lemma map_of_um_update [simp]: "map_of (AList.update k v m) = (map_of m)(k \<mapsto> v)"
  by (rule update_conv')

lemma map_of_um_delete [simp]: "map_of (AList.delete k m) = (map_of m)(k := None)"
  by (rule delete_conv')

lemma um_keys_update: "fst ` set (AList.update k v m) = insert k (fst ` set m)"
  by (metis dom_map_of_conv_image_fst dom_fun_upd map_of_um_update option.distinct(1))

lemma um_keys_delete: "fst ` set (AList.delete k m) = fst ` set m - {k}"
  by (metis dom_map_of_conv_image_fst dom_fun_upd map_of_um_delete)

lemma um_length_update:
  "length (AList.update k v m) = (if map_of m k = None then Suc (length m) else length m)"
  by (induction m) auto

lemma um_erase_absent: "map_of m k = None \<Longrightarrow> AList.delete k m = m"
  by (induction m) (auto split: if_splits)

lemma map_fst_delete: "map fst (AList.delete k m) = filter (\<lambda>x. x \<noteq> k) (map fst m)"
  by (induction m) auto

text \<open>Sums over the values of a hash map, in any commutative monoid.\<close>

lemma um_sum_update_new:
  "map_of m k = None \<Longrightarrow> sum_list (map snd (AList.update k v m)) = sum_list (map snd m) + v"
  by (induction m) (auto simp: ac_simps split: if_splits)

lemma um_sum_delete:
  fixes v :: "'v::ab_group_add"
  assumes "um_wf m" and "map_of m k = Some v"
  shows "sum_list (map snd (AList.delete k m)) = sum_list (map snd m) - v"
  using assms
proof (induction m)
  case (Cons x m)
  show ?case
  proof (cases "fst x = k")
    case True
    with Cons.prems have "map_of m k = None" by (auto simp: map_of_eq_None_iff)
    with True Cons.prems show ?thesis by (cases x) (simp add: um_erase_absent)
  next
    case False
    with Cons show ?thesis by (cases x) (auto simp: algebra_simps)
  qed
qed simp

lemma um_sum_update_old:
  fixes v w :: "'v::ab_group_add"
  assumes "map_of m k = Some w"
  shows "sum_list (map snd (AList.update k v m)) = sum_list (map snd m) - w + v"
  using assms by (induction m) (auto simp: algebra_simps split: if_splits)


subsection \<open>Decimal numbers: \<open>std::to_string\<close> and \<open>std::stoull\<close>\<close>

definition digit_char :: "nat \<Rightarrow> char" where
  "digit_char d = char_of (48 + d)"

fun to_string :: "nat \<Rightarrow> string" where
  "to_string n = (if n < 10 then [digit_char n]
                  else to_string (n div 10) @ [digit_char (n mod 10)])"

declare to_string.simps [simp del]

definition is_digit :: "char \<Rightarrow> bool" where
  "is_digit c = (48 \<le> (of_char c :: nat) \<and> (of_char c :: nat) \<le> 57)"

definition is_space :: "char \<Rightarrow> bool" where
  "is_space c = ((of_char c :: nat) = 32 \<or> 9 \<le> (of_char c :: nat) \<and> (of_char c :: nat) \<le> 13)"

definition digits_val :: "string \<Rightarrow> nat" where
  "digits_val ds = fold (\<lambda>c v. 10 * v + (of_char c - 48)) ds 0"

text \<open>
  \<open>std::stoull(text)\<close>: leading white space, an optional sign (a minus negates in the
  unsigned type), the longest run of digits; \<^const>\<open>None\<close> is either exception,
  \<open>invalid_argument\<close> (no digits) or \<open>out_of_range\<close>.
\<close>

definition stoull :: "string \<Rightarrow> u64 option" where
  "stoull text =
     (let body = dropWhile is_space text;
          neg = (body \<noteq> [] \<and> hd body = CHR ''-'');
          digits = takeWhile is_digit
            (if body \<noteq> [] \<and> (hd body = CHR ''-'' \<or> hd body = CHR ''+'') then tl body else body);
          v = digits_val digits
      in if digits = [] \<or> 2 ^ 64 \<le> v then None
         else Some (if neg then - of_nat v else of_nat v))"

lemma to_string_nonempty [simp]: "to_string n \<noteq> []"
  by (subst to_string.simps) simp

lemma of_char_digit: "d < 10 \<Longrightarrow> (of_char (digit_char d) :: nat) = 48 + d"
  by (simp add: digit_char_def)

lemma to_string_digits: "\<forall>c \<in> set (to_string n). is_digit c"
proof (induction n rule: to_string.induct)
  case (1 n)
  show ?case
  proof (cases "n < 10")
    case True
    then show ?thesis
      by (subst to_string.simps) (simp add: is_digit_def of_char_digit)
  next
    case False
    with "1.IH" show ?thesis
      by (subst to_string.simps) (auto simp: is_digit_def of_char_digit)
  qed
qed

lemma digits_val_snoc: "digits_val (ds @ [c]) = 10 * digits_val ds + (of_char c - 48)"
  by (simp add: digits_val_def)

lemma digits_val_to_string: "digits_val (to_string n) = n"
proof (induction n rule: to_string.induct)
  case (1 n)
  show ?case
  proof (cases "n < 10")
    case True
    then show ?thesis
      by (subst to_string.simps) (simp add: digits_val_def of_char_digit)
  next
    case False
    with "1.IH" show ?thesis
      by (subst to_string.simps) (simp add: digits_val_snoc of_char_digit)
  qed
qed

lemma is_digit_not_space: "is_digit c \<Longrightarrow> \<not> is_space c"
  by (auto simp: is_digit_def is_space_def)

lemma is_digit_not_sign: "is_digit c \<Longrightarrow> c \<noteq> CHR ''-'' \<and> c \<noteq> CHR ''+'' \<and> c \<noteq> CHR '' '' \<and> c \<noteq> CHR 0x0A \<and> c \<noteq> CHR 0x0D"
  by (auto simp: is_digit_def)

lemma stoull_to_string:
  assumes "n < 2 ^ 64" and "rest = [] \<or> \<not> is_digit (hd rest)"
  shows "stoull (to_string n @ rest) = Some (of_nat n)"
proof -
  obtain d ds where s: "to_string n = d # ds"
    by (meson neq_Nil_conv to_string_nonempty)
  with to_string_digits[of n] have d: "is_digit d" by simp
  have "takeWhile is_digit (to_string n @ rest) = to_string n @ takeWhile is_digit rest"
    using to_string_digits[of n] by (simp add: takeWhile_append2)
  also have "takeWhile is_digit rest = []"
    using assms(2) by (cases rest) auto
  finally have "takeWhile is_digit (to_string n @ rest) = to_string n" by simp
  moreover have "dropWhile is_space (to_string n @ rest) = to_string n @ rest"
    using s d by (simp add: is_digit_not_space)
  moreover have "hd (to_string n @ rest) \<noteq> CHR ''-''" "hd (to_string n @ rest) \<noteq> CHR ''+''"
    using s is_digit_not_sign[OF d] by simp_all
  ultimately show ?thesis
    using assms(1) by (simp add: stoull_def Let_def digits_val_to_string)
qed


subsection \<open>Answers of the kernel\<close>

text \<open>
  The result of one \<open>write(fd, p, n)\<close>: some bytes were taken, the call was interrupted
  (\<open>EINTR\<close>), or it failed.  A blocking write loop meets a list of such answers; once
  the list is used up the kernel takes whatever is left in one call.  Every run of a
  loop that ends is described by such a list.  The result is the bytes that reached the
  descriptor and whether the loop succeeded.
\<close>

datatype write_ans = WOk nat | WEintr | WErr

fun write_loop :: "write_ans list \<Rightarrow> string \<Rightarrow> string \<times> bool" where
  "write_loop [] data = (data, True)"
| "write_loop (a # as) data =
     (if data = [] then ([], True)
      else case a of
        WEintr \<Rightarrow> write_loop as data
      | WErr \<Rightarrow> ([], False)
      | WOk n \<Rightarrow> (let (sent, ok) = write_loop as (drop n data) in (take n data @ sent, ok)))"

lemma write_loop_prefix: "prefix (fst (write_loop as data)) data"
proof (induction as data rule: write_loop.induct)
  case (2 a as data)
  show ?case
  proof (cases a)
    case (WOk n)
    with 2 show ?thesis
      by (cases "data = []") (auto simp: split_beta Let_def prefix_def, metis append_assoc append_take_drop_id)
  qed (use 2 in auto)
qed simp

lemma write_loop_ok: "snd (write_loop as data) \<Longrightarrow> fst (write_loop as data) = data"
proof (induction as data rule: write_loop.induct)
  case (2 a as data)
  then show ?case by (cases a) (auto simp: split_beta Let_def split: if_splits)
qed simp

lemma write_loop_no_error: "WErr \<notin> set as \<Longrightarrow> write_loop as data = (data, True)"
  by (induction as data rule: write_loop.induct) (auto split: write_ans.split)

text \<open>A failed system call is thrown as \<open>std::runtime_error(what + " failed: " + strerror)\<close>.\<close>

datatype syscall_error = SyscallError string

end
