(* ===== verification/LogRecord.thy ===== *)
theory LogRecord
  imports Prelude
begin

text \<open>
  The record format of the log, \<open>src/src/wal/record.cpp\<close>: a CRC-32 computed from a
  table, little-endian 32-bit fields, \<open>frame\<close> and \<open>parseRecord\<close>.  Shown here: the table
  driven checksum equals bit-by-bit polynomial division, it changes under every
  non-trivial damage confined to four consecutive bytes, and \<open>parseRecord\<close> inverts
  \<open>frame\<close> and rejects damage and torn records.
\<close>

subsection \<open>Definitions\<close>

text \<open>One step of the inner loop of \<open>buildCrcTable\<close>.\<close>

definition crcStep :: "u32 \<Rightarrow> u32" where
  "crcStep crc = (if crc AND 1 \<noteq> 0 then drop_bit 1 crc XOR 0xEDB88320 else drop_bit 1 crc)"

definition buildCrcTable :: "u32 list" where
  "buildCrcTable = map (\<lambda>i. (crcStep ^^ 8) (of_nat i)) [0..<256]"

definition crcTable :: "u32 list" where
  "crcTable = buildCrcTable"

definition crcByte :: "u32 \<Rightarrow> char \<Rightarrow> u32" where
  "crcByte crc b = (crcTable ! unat ((crc XOR word_of_char b) AND 0xFF)) XOR drop_bit 8 crc"

definition crc32 :: "string \<Rightarrow> u32" where
  "crc32 data = foldl crcByte 0xFFFFFFFF data XOR 0xFFFFFFFF"

definition appendLittleEndian32 :: "string \<Rightarrow> u32 \<Rightarrow> string" where
  "appendLittleEndian32 out v =
     out @ [char_of_word (v AND 0xFF), char_of_word (drop_bit 8 v AND 0xFF),
            char_of_word (drop_bit 16 v AND 0xFF), char_of_word (drop_bit 24 v AND 0xFF)]"

definition readLittleEndian32 :: "string \<Rightarrow> nat \<Rightarrow> u32" where
  "readLittleEndian32 buffer offset =
     word_of_char (buffer ! offset) OR
     push_bit 8 (word_of_char (buffer ! (offset + 1))) OR
     push_bit 16 (word_of_char (buffer ! (offset + 2))) OR
     push_bit 24 (word_of_char (buffer ! (offset + 3)))"

definition kHeaderBytes :: nat where
  "kHeaderBytes = 8"

definition kMaxPayloadBytes :: u32 where
  "kMaxPayloadBytes = 64 * 1024 * 1024"

definition frame :: "string \<Rightarrow> string" where
  "frame payload =
     appendLittleEndian32 (appendLittleEndian32 [] (of_nat (length payload))) (crc32 payload)
     @ payload"

text \<open>
  \<open>ParseResult\<close> with the two output parameters of \<open>parseRecord\<close> carried by \<open>Ok\<close>, the
  only case in which the code assigns them.
\<close>

datatype parse_result = Ok string nat | Incomplete | Corrupt

definition parseRecord :: "string \<Rightarrow> nat \<Rightarrow> parse_result" where
  "parseRecord buffer offset =
     (if offset + kHeaderBytes > length buffer then Incomplete
      else let len = readLittleEndian32 buffer offset;
               expectedCrc = readLittleEndian32 buffer (offset + 4)
        in if len > kMaxPayloadBytes then Corrupt
           else let bodyStart = offset + kHeaderBytes
             in if bodyStart + unat len > length buffer then Incomplete
                else let body = take (unat len) (drop bodyStart buffer)
                  in if crc32 body \<noteq> expectedCrc then Corrupt
                     else Ok body (bodyStart + unat len))"


subsection \<open>The checksum\<close>

text \<open>The reference: feed one byte into the register and divide bit by bit.\<close>

definition crcByteRef :: "u32 \<Rightarrow> char \<Rightarrow> u32" where
  "crcByteRef crc b = (crcStep ^^ 8) (crc XOR word_of_char b)"

lemma and_1_bit: "(x :: u32) AND 1 \<noteq> 0 \<longleftrightarrow> bit x 0"
  by (simp add: and_one_eq bit_0 odd_iff_mod_2_eq_one)

lemma crcStep_alt:
  "crcStep x = (if bit x 0 then drop_bit 1 x XOR 0xEDB88320 else drop_bit 1 x)"
  by (simp only: crcStep_def and_1_bit)

lemma crcStep_xor: "crcStep (x XOR y) = crcStep x XOR crcStep y"
  by (auto simp: crcStep_alt bit_xor_iff drop_bit_xor ac_simps)

lemma crcStep_even: "\<not> bit x 0 \<Longrightarrow> crcStep x = drop_bit 1 x"
  by (simp add: crcStep_alt)

lemma crcStep_pow_xor: "(crcStep ^^ n) (x XOR y) = (crcStep ^^ n) x XOR (crcStep ^^ n) y"
  by (induction n) (simp_all add: crcStep_xor)

lemma crcStep_pow_shift:
  "(\<And>i. i < n \<Longrightarrow> \<not> bit x i) \<Longrightarrow> (crcStep ^^ n) x = drop_bit n x"
proof (induction n)
  case (Suc n)
  then have "(crcStep ^^ n) x = drop_bit n x" by simp
  moreover have "\<not> bit (drop_bit n x) 0"
    using Suc.prems by (simp add: bit_drop_bit_eq)
  ultimately show ?case
    by (simp add: crcStep_even drop_bit_drop_bit)
qed simp

lemma crcStep_inj: "crcStep x = crcStep y \<Longrightarrow> x = y"
proof -
  assume eq: "crcStep x = crcStep y"
  have top: "bit (crcStep z) 31 \<longleftrightarrow> bit z 0" for z :: u32
    by (auto simp: crcStep_alt bit_simps dest: bit_imp_le_length)
  have "bit x 0 \<longleftrightarrow> bit y 0" using eq top by metis
  moreover from this eq have "drop_bit 1 x = drop_bit 1 y"
    by (auto simp: crcStep_alt word_xor_right_cancel split: if_splits)
  ultimately show "x = y"
  proof -
    assume low: "bit x 0 \<longleftrightarrow> bit y 0" and high: "drop_bit 1 x = drop_bit 1 y"
    have "bit x n \<longleftrightarrow> bit y n" for n
    proof (cases n)
      case (Suc m)
      have "bit (drop_bit 1 x) m \<longleftrightarrow> bit (drop_bit 1 y) m" using high by simp
      with Suc show ?thesis by (simp add: bit_drop_bit_eq)
    qed (simp add: low)
    then show "x = y" by (simp add: bit_eq_iff)
  qed
qed

lemma crcStep_pow_inj: "(crcStep ^^ n) x = (crcStep ^^ n) y \<Longrightarrow> x = y"
  by (induction n) (auto dest: crcStep_inj)


lemma length_crcTable [simp]: "length crcTable = 256"
  by (simp add: crcTable_def buildCrcTable_def)

lemma crcTable_nth: "i < 256 \<Longrightarrow> crcTable ! i = (crcStep ^^ 8) (of_nat i)"
  by (simp add: crcTable_def buildCrcTable_def)

lemma unat_and_255: "unat ((x :: u32) AND 255) < 256"
proof -
  have "x AND 255 \<le> 255" by (rule word_and_le1)
  then show ?thesis by (simp add: word_le_nat_alt)
qed

lemma bit_255: "bit (255 :: u32) n \<longleftrightarrow> n < 8"
proof -
  have "(255 :: u32) = mask 8" by (simp add: mask_eq_exp_minus_1)
  then have "bit (255 :: u32) n \<longleftrightarrow> n < 32 \<and> n < 8"
    by (simp only: bit_mask_iff) simp
  then show ?thesis by auto
qed

lemma crcByte_eq_ref: "crcByte crc b = crcByteRef crc b"
proof -
  let ?x = "crc XOR word_of_char b"
  have split: "?x = (?x AND 255) XOR (?x AND NOT 255)"
    by (rule bit_word_eqI) (auto simp: bit_simps)
  have "(crcStep ^^ 8) (?x AND NOT 255) = drop_bit 8 (?x AND NOT 255)"
    by (rule crcStep_pow_shift) (simp only: bit_and_iff bit_not_iff bit_255, simp)
  also have "\<dots> = drop_bit 8 crc"
    by (rule bit_word_eqI)
       (simp only: bit_drop_bit_eq bit_and_iff bit_not_iff bit_xor_iff bit_255 o_apply,
         auto simp: bit_word_of_char_ge_8 dest: bit_imp_possible_bit)
  finally have high: "(crcStep ^^ 8) (?x AND NOT 255) = drop_bit 8 crc" .
  have "(crcStep ^^ 8) ?x = (crcStep ^^ 8) (?x AND 255) XOR drop_bit 8 crc"
    by (subst split) (simp only: crcStep_pow_xor high)
  moreover have "crcTable ! unat (?x AND 255) = (crcStep ^^ 8) (?x AND 255)"
    by (simp add: crcTable_nth unat_and_255 del: funpow.simps)
  ultimately show ?thesis
    by (simp add: crcByte_def crcByteRef_def del: funpow.simps)
qed

lemma crcByteRef_inj: "crcByteRef c b = crcByteRef c' b \<Longrightarrow> c = c'"
  unfolding crcByteRef_def by (metis crcStep_pow_inj word_xor_right_cancel)

lemma foldl_crcByteRef_inj: "foldl crcByteRef c bs = foldl crcByteRef c' bs \<Longrightarrow> c = c'"
  by (induction bs arbitrary: c c') (auto dest: crcByteRef_inj)

text \<open>A window of bytes as the little-endian word it enters the register as.\<close>

fun le_word :: "string \<Rightarrow> u32" where
  "le_word [] = 0"
| "le_word (b # bs) = word_of_char b XOR push_bit 8 (le_word bs)"

lemma bit_le_word: "bit (le_word bs) n \<Longrightarrow> n < 8 * length bs"
proof (induction bs arbitrary: n)
  case (Cons b bs)
  show ?case
  proof (cases "n < 8")
    case False
    with Cons show ?thesis
      by (auto simp: bit_simps bit_word_of_char_ge_8 dest!: Cons.IH)
  qed simp
qed simp

lemma foldl_crcByteRef_window:
  "length bs \<le> 4 \<Longrightarrow>
   foldl crcByteRef crc bs = (crcStep ^^ (8 * length bs)) (crc XOR le_word bs)"
proof (induction bs arbitrary: crc)
  case (Cons b bs)
  have "drop_bit 8 (push_bit 8 (le_word bs)) = le_word bs"
  proof (rule bit_word_eqI)
    fix n assume "n < LENGTH(32)"
    show "bit (drop_bit 8 (push_bit 8 (le_word bs))) n \<longleftrightarrow> bit (le_word bs) n"
      using Cons.prems bit_le_word[of bs n] by (auto simp: bit_simps)
  qed
  moreover have "(crcStep ^^ 8) (push_bit 8 (le_word bs)) = drop_bit 8 (push_bit 8 (le_word bs))"
    by (rule crcStep_pow_shift) (simp add: bit_simps)
  ultimately have shift: "(crcStep ^^ 8) (push_bit 8 (le_word bs)) = le_word bs" by simp
  have "foldl crcByteRef crc (b # bs)
      = (crcStep ^^ (8 * length bs)) (crcByteRef crc b XOR le_word bs)"
    using Cons by simp
  also have "crcByteRef crc b XOR le_word bs
      = (crcStep ^^ 8) ((crc XOR word_of_char b) XOR push_bit 8 (le_word bs))"
    unfolding crcByteRef_def by (simp only: crcStep_pow_xor shift)
  finally have "foldl crcByteRef crc (b # bs)
      = (crcStep ^^ (8 * length bs)) ((crcStep ^^ 8) (crc XOR le_word (b # bs)))"
    by (simp only: le_word.simps xor.assoc)
  moreover have "8 * length (b # bs) = 8 * length bs + 8" by simp
  ultimately show ?case
    by (simp only: funpow_add o_apply)
qed simp

lemma le_word_inj:
  "length bs \<le> 4 \<Longrightarrow> length cs = length bs \<Longrightarrow> le_word bs = le_word cs \<Longrightarrow> bs = cs"
proof (induction bs arbitrary: cs)
  case (Cons b bs)
  then obtain c cs' where cs: "cs = c # cs'" by (cases cs) auto
  have bits: "bit (word_of_char b XOR push_bit 8 (le_word bs) :: u32) n
      \<longleftrightarrow> bit (word_of_char c XOR push_bit 8 (le_word cs') :: u32) n" for n
    using Cons.prems(3) cs by simp
  have "(word_of_char b :: u32) = word_of_char c"
  proof (rule bit_word_eqI)
    fix n assume "n < LENGTH(32)"
    then show "bit (word_of_char b :: u32) n \<longleftrightarrow> bit (word_of_char c :: u32) n"
      using bits[of n] by (cases "n < 8") (auto simp: bit_simps bit_word_of_char_ge_8)
  qed
  then have "b = c" by (rule word_of_char_inj[rotated]) simp
  moreover have "le_word bs = le_word cs'"
  proof (rule bit_word_eqI)
    fix n assume "n < LENGTH(32)"
    show "bit (le_word bs) n \<longleftrightarrow> bit (le_word cs') n"
    proof (cases "n + 8 < 32")
      case True
      then show ?thesis
        using bits[of "n + 8"] by (auto simp: bit_simps bit_word_of_char_ge_8)
    next
      case False
      then show ?thesis
        using Cons.prems bit_le_word[of bs n] bit_le_word[of cs' n] cs by auto
    qed
  qed
  ultimately show ?case using Cons cs by simp
qed simp


lemma crc32_ref: "crc32 data = foldl crcByteRef 0xFFFFFFFF data XOR 0xFFFFFFFF"
proof -
  have "crcByte = crcByteRef" by (intro ext) (rule crcByte_eq_ref)
  then show ?thesis by (simp add: crc32_def)
qed

lemma crc32_window:
  assumes "length w = length w'" and "length w \<le> 4"
    and "crc32 (pre @ w @ post) = crc32 (pre @ w' @ post)"
  shows "w = w'"
proof -
  have "foldl crcByteRef (foldl crcByteRef 0xFFFFFFFF pre) w
      = foldl crcByteRef (foldl crcByteRef 0xFFFFFFFF pre) w'"
    using assms(3) by (auto simp: crc32_ref word_xor_right_cancel dest: foldl_crcByteRef_inj)
  then have "le_word w = le_word w'"
    using assms(1,2)
    by (simp add: foldl_crcByteRef_window)
       (metis crcStep_pow_inj word_xor_right_cancel xor.commute)
  then show ?thesis using assms(1,2) le_word_inj by metis
qed


subsection \<open>Framing\<close>

lemma readLittleEndian32_append:
  "length pre = offset \<Longrightarrow>
   readLittleEndian32 (appendLittleEndian32 pre v @ post) offset = v"
proof -
  assume off: "length pre = offset"
  have "readLittleEndian32 (appendLittleEndian32 pre v @ post) offset =
    (v AND 255) OR push_bit 8 (drop_bit 8 v AND 255) OR push_bit 16 (drop_bit 16 v AND 255)
      OR push_bit 24 (drop_bit 24 v AND 255)"
    using off by (simp add: readLittleEndian32_def appendLittleEndian32_def nth_append
        word_of_char_of_word)
  also have "\<dots> = v" by (rule le32_join)
  finally show ?thesis .
qed

lemma length_frame [simp]: "length (frame p) = 8 + length p"
  by (simp add: frame_def appendLittleEndian32_def)

lemma frame_nonempty [simp]: "frame p \<noteq> []"
  using length_frame[of p] by (metis add_is_0 list.size(3) zero_neq_numeral)

text \<open>The payloads \<open>parseRecord\<close> accepts: the length field must not exceed the limit.\<close>

definition payload_ok :: "string \<Rightarrow> bool" where
  "payload_ok p = (length p \<le> unat kMaxPayloadBytes)"

lemma unat_kMaxPayloadBytes: "unat kMaxPayloadBytes = 67108864"
  by (simp add: kMaxPayloadBytes_def)

lemma unat_of_nat_payload: "payload_ok p \<Longrightarrow> unat (of_nat (length p) :: u32) = length p"
  by (simp add: payload_ok_def unat_kMaxPayloadBytes unat_of_nat)

lemma frame_fields:
  assumes "length pre = offset"
  shows "readLittleEndian32 (pre @ frame p @ post) offset = of_nat (length p)"
    and "readLittleEndian32 (pre @ frame p @ post) (offset + 4) = crc32 p"
proof -
  have "pre @ frame p @ post
      = appendLittleEndian32 pre (of_nat (length p)) @
        (appendLittleEndian32 [] (crc32 p) @ p @ post)"
    by (simp add: frame_def appendLittleEndian32_def)
  with assms show "readLittleEndian32 (pre @ frame p @ post) offset = of_nat (length p)"
    by (simp only: readLittleEndian32_append)
  have "pre @ frame p @ post
      = appendLittleEndian32 (appendLittleEndian32 pre (of_nat (length p))) (crc32 p) @ (p @ post)"
    by (simp add: frame_def appendLittleEndian32_def)
  moreover have "length (appendLittleEndian32 pre (of_nat (length p))) = offset + 4"
    using assms by (simp add: appendLittleEndian32_def)
  ultimately show "readLittleEndian32 (pre @ frame p @ post) (offset + 4) = crc32 p"
    by (simp only: readLittleEndian32_append)
qed

lemma drop_8_frame [simp]: "drop 8 (frame p) = p"
  by (simp add: frame_def appendLittleEndian32_def)

lemma parseRecord_frame:
  assumes "payload_ok p"
  shows "parseRecord (pre @ frame p @ post) (length pre) = Ok p (length pre + length (frame p))"
proof -
  have "\<not> (of_nat (length p) :: u32) > kMaxPayloadBytes"
    using assms unat_of_nat_payload[OF assms] by (simp add: payload_ok_def word_less_nat_alt)
  then show ?thesis
    using assms
    by (simp add: parseRecord_def kHeaderBytes_def frame_fields unat_of_nat_payload
        Let_def)
qed


lemma parseRecord_torn:
  assumes "payload_ok p" and "prefix t (frame p)" and "t \<noteq> frame p"
  shows "parseRecord (pre @ t) (length pre) = Incomplete"
proof (cases "length t < 8")
  case False
  obtain r where r: "frame p = t @ r" using assms(2) by (auto simp: prefix_def)
  with assms(3) have len: "length t < 8 + length p"
    by (metis append_Nil2 length_append length_frame length_greater_0_conv less_add_same_cancel1)
  have "readLittleEndian32 (pre @ t) (length pre)
      = readLittleEndian32 (pre @ frame p @ []) (length pre)"
    using False r by (auto simp: readLittleEndian32_def nth_append)
  then have "readLittleEndian32 (pre @ t) (length pre) = of_nat (length p)"
    by (simp only: frame_fields)
  moreover have "\<not> (of_nat (length p) :: u32) > kMaxPayloadBytes"
    using assms(1) unat_of_nat_payload[OF assms(1)]
    by (simp add: payload_ok_def word_less_nat_alt)
  ultimately show ?thesis
    using False len assms(1)
    by (simp add: parseRecord_def kHeaderBytes_def unat_of_nat_payload Let_def)
qed (simp add: parseRecord_def kHeaderBytes_def)

text \<open>The eight header bytes \<open>frame\<close> puts before a payload.\<close>

definition record_header :: "string \<Rightarrow> string" where
  "record_header p =
     appendLittleEndian32 (appendLittleEndian32 [] (of_nat (length p))) (crc32 p)"

lemma frame_header: "frame p = record_header p @ p"
  by (simp add: frame_def record_header_def)

lemma parseRecord_damaged:
  assumes "payload_ok p" and "length p' = length p" and "crc32 p' \<noteq> crc32 p"
  shows "parseRecord (pre @ record_header p @ p' @ post) (length pre) = Corrupt"
proof -
  have rd: "readLittleEndian32 (pre @ record_header p @ p' @ post) (length pre + i)
      = readLittleEndian32 (pre @ frame p @ post) (length pre + i)" if "i = 0 \<or> i = 4" for i
    using that by (auto simp: frame_header readLittleEndian32_def nth_append record_header_def
        appendLittleEndian32_def)
  have "readLittleEndian32 (pre @ record_header p @ p' @ post) (length pre) = of_nat (length p)"
    using rd[of 0] frame_fields(1)[OF refl, of pre p post] by simp
  moreover have "readLittleEndian32 (pre @ record_header p @ p' @ post) (length pre + 4) = crc32 p"
    using rd[of 4] frame_fields(2)[OF refl, of pre p post] by simp
  moreover have "\<not> (of_nat (length p) :: u32) > kMaxPayloadBytes"
    using assms(1) unat_of_nat_payload[OF assms(1)]
    by (simp add: payload_ok_def word_less_nat_alt)
  moreover have "drop (length pre + 8) (pre @ record_header p @ p' @ post) = p' @ post"
    by (simp add: record_header_def appendLittleEndian32_def)
  moreover have "length (record_header p) = 8"
    by (simp add: record_header_def appendLittleEndian32_def)
  ultimately show ?thesis
    using assms by (simp add: parseRecord_def kHeaderBytes_def unat_of_nat_payload Let_def)
qed

lemma parseRecord_Ok:
  assumes "parseRecord buffer offset = Ok p next"
  shows "next = offset + 8 + length p" and "next \<le> length buffer"
    and "p = take (length p) (drop (offset + 8) buffer)"
    and "payload_ok p"
  using assms
  by (auto simp: parseRecord_def kHeaderBytes_def payload_ok_def word_le_nat_alt Let_def
      not_less split: if_splits)

lemma parseRecord_length_progress:
  "parseRecord buffer offset = Ok p next \<Longrightarrow> offset < next \<and> next \<le> length buffer"
  using parseRecord_Ok[of buffer offset p "next"] by simp

lemma parseRecord_end: "parseRecord buffer (length buffer) = Incomplete"
  by (simp add: parseRecord_def kHeaderBytes_def)


lemma take_4_drop:
  "n + 4 \<le> length xs \<Longrightarrow> take 4 (drop n xs) = [xs ! n, xs ! (n + 1), xs ! (n + 2), xs ! (n + 3)]"
  by (simp add: numeral_eq_Suc take_Suc_conv_app_nth)

lemma readLittleEndian32_bytes:
  "offset + 4 \<le> length buffer \<Longrightarrow>
   appendLittleEndian32 [] (readLittleEndian32 buffer offset) = take 4 (drop offset buffer)"
  by (simp only: appendLittleEndian32_def readLittleEndian32_def le32_cut take_4_drop append_Nil)

lemma parseRecord_frame_back:
  assumes "parseRecord buffer offset = Ok p next"
  shows "take (8 + length p) (drop offset buffer) = frame p"
proof -
  note ok = parseRecord_Ok[OF assms]
  have hdr: "offset + 8 \<le> length buffer" using ok by simp
  have len: "readLittleEndian32 buffer offset = of_nat (length p)"
    and crc: "readLittleEndian32 buffer (offset + 4) = crc32 p"
    using assms by (auto simp: parseRecord_def kHeaderBytes_def Let_def split: if_splits)
  have "appendLittleEndian32 [] (of_nat (length p)) = take 4 (drop offset buffer)"
    using readLittleEndian32_bytes[of offset buffer] hdr len by simp
  moreover have "appendLittleEndian32 [] (crc32 p) = take 4 (drop (offset + 4) buffer)"
    using readLittleEndian32_bytes[of "offset + 4" buffer] hdr crc by simp
  moreover have "take (8 + length p) (drop offset buffer)
      = take 4 (drop offset buffer) @ take 4 (drop (offset + 4) buffer) @ take (length p) (drop (offset + 8) buffer)"
    using take_add[of 4 "4 + length p" "drop offset buffer"]
      take_add[of 4 "length p" "drop (offset + 4) buffer"] by (simp add: add.commute)
  ultimately show ?thesis
    using ok(3) by (simp add: frame_def appendLittleEndian32_def)
qed


subsection \<open>Properties\<close>

text \<open>C20. The table-driven \<open>crc32\<close> is the bit-by-bit division by the reflected polynomial.\<close>

theorem crc32_bitwise: "crc32 data = foldl crcByteRef 0xFFFFFFFF data XOR 0xFFFFFFFF"
  by (rule crc32_ref)

text \<open>
  C18. \<open>parseRecord\<close> accepts exactly the framed payloads: it returns a payload and the next
  offset if and only if the payload respects the limit and its frame stands at the offset.
\<close>

theorem parseRecord_exact:
  "parseRecord buffer offset = Ok p next \<longleftrightarrow>
     payload_ok p \<and> next = offset + length (frame p) \<and> offset \<le> length buffer \<and>
     prefix (frame p) (drop offset buffer)"
proof
  assume ok: "parseRecord buffer offset = Ok p next"
  from parseRecord_frame_back[OF ok] have "prefix (frame p) (drop offset buffer)"
    by (metis take_is_prefix)
  with parseRecord_Ok[OF ok] show "payload_ok p \<and> next = offset + length (frame p) \<and>
      offset \<le> length buffer \<and> prefix (frame p) (drop offset buffer)" by simp
next
  assume r: "payload_ok p \<and> next = offset + length (frame p) \<and>
      offset \<le> length buffer \<and> prefix (frame p) (drop offset buffer)"
  then obtain post where "drop offset buffer = frame p @ post" by (auto simp: prefix_def)
  then have "buffer = take offset buffer @ frame p @ post" by (metis append_take_drop_id)
  moreover have "length (take offset buffer) = offset" using r by simp
  ultimately show "parseRecord buffer offset = Ok p next"
    using parseRecord_frame[of p "take offset buffer" post] r by simp
qed

text \<open>
  C19. Damage to the payload of a record that is confined to four consecutive bytes is always
  detected: \<open>parseRecord\<close> answers \<open>Corrupt\<close>.
\<close>

theorem burst_damage_detected:
  assumes "payload_ok (a @ w @ b)" and "length w' = length w" and "length w \<le> 4" and "w' \<noteq> w"
  shows "parseRecord (pre @ record_header (a @ w @ b) @ (a @ w' @ b) @ post) (length pre) = Corrupt"
proof (rule parseRecord_damaged[OF assms(1)])
  show "crc32 (a @ w' @ b) \<noteq> crc32 (a @ w @ b)" using crc32_window[of w' w a b] assms(2-4) by auto
qed (simp add: assms(2))

theorem burst_damage_detected_witness:
  "parseRecord (''xx'' @ record_header (''key='' @ ''abcd'' @ '';'') @ (''key='' @ ''abXd'' @ '';'') @ ''tail'') 2 = Corrupt"
  using burst_damage_detected[of "''key=''" "''abcd''" "'';''" "''abXd''" "''xx''" "''tail''"]
  by (simp add: payload_ok_def unat_kMaxPayloadBytes numeral_2_eq_2)

text \<open>
  A record cut anywhere by a crash is reported as \<open>Incomplete\<close>, never as corrupt and never
  as a shorter record.
\<close>

theorem torn_record_incomplete:
  assumes "payload_ok p" and "strict_prefix t (frame p)"
  shows "parseRecord (pre @ t) (length pre) = Incomplete"
  using parseRecord_torn[OF assms(1)] assms(2) by (simp add: strict_prefix_def)

theorem torn_record_incomplete_witness:
  "parseRecord (''xx'' @ take 6 (frame ''hello'')) 2 = Incomplete"
proof -
  have "length (take 6 (frame ''hello'')) \<noteq> length (frame ''hello'')" by simp
  then have "take 6 (frame ''hello'') \<noteq> frame ''hello''" by auto
  then have "strict_prefix (take 6 (frame ''hello'')) (frame ''hello'')"
    by (simp add: strict_prefix_def take_is_prefix)
  from torn_record_incomplete[OF _ this, of "''xx''"] show ?thesis
    by (simp add: payload_ok_def unat_kMaxPayloadBytes numeral_2_eq_2)
qed

end
