(* ===== verification/Commands.thy ===== *)
theory Commands
  imports Prelude
begin

text \<open>
  The payloads of log records, \<open>src/src/protocol/command.cpp\<close> and \<open>commands.cpp\<close>: the
  serialised \<open>SET\<close> and \<open>DEL\<close> commands and the \<open>BEGIN\<close>/\<open>COMMIT\<close> markers of a transaction.
  Shown here: decoding inverts encoding in both directions, markers carry their 64-bit id
  exactly, and the four kinds of payload never overlap.
\<close>

subsection \<open>Definitions\<close>

record mutation =
  erase :: bool
  key :: string
  val :: string

text \<open>The two implementations of the abstract class \<open>Command\<close>.\<close>

datatype command = SetCommand string string | DelCommand string

definition kSetTag :: char where "kSetTag = CHR ''s''"
definition kDelTag :: char where "kDelTag = CHR ''d''"
definition kBeginTag :: char where "kBeginTag = CHR ''b''"
definition kCommitTag :: char where "kCommitTag = CHR ''c''"

definition appendU32 :: "string \<Rightarrow> u32 \<Rightarrow> string" where
  "appendU32 out v =
     out @ [char_of_word (v AND 0xFF), char_of_word (drop_bit 8 v AND 0xFF),
            char_of_word (drop_bit 16 v AND 0xFF), char_of_word (drop_bit 24 v AND 0xFF)]"

definition appendBlob :: "string \<Rightarrow> string \<Rightarrow> string" where
  "appendBlob out blob = appendU32 out (of_nat (length blob)) @ blob"

text \<open>The loop \<open>for (shift = 0; shift < 64; shift += 8)\<close>.\<close>

definition appendU64 :: "string \<Rightarrow> u64 \<Rightarrow> string" where
  "appendU64 out v = foldl (\<lambda>s i. s @ [char_of_word (drop_bit (8 * i) v AND 0xFF)]) out [0..<8]"

definition parseMarker :: "string \<Rightarrow> char \<Rightarrow> u64 option" where
  "parseMarker payload expectedTag =
     (if length payload \<noteq> 9 \<or> payload ! 0 \<noteq> expectedTag then None
      else Some (foldl (\<lambda>v i. v OR push_bit (i * 8) (word_of_char (payload ! (1 + i)))) 0 [0..<8]))"

definition serializeBeginMarker :: "u64 \<Rightarrow> string" where
  "serializeBeginMarker txnId = appendU64 [kBeginTag] txnId"

definition serializeCommitMarker :: "u64 \<Rightarrow> string" where
  "serializeCommitMarker txnId = appendU64 [kCommitTag] txnId"

definition parseBeginMarker :: "string \<Rightarrow> u64 option" where
  "parseBeginMarker payload = parseMarker payload kBeginTag"

definition parseCommitMarker :: "string \<Rightarrow> u64 option" where
  "parseCommitMarker payload = parseMarker payload kCommitTag"

fun command_tag :: "command \<Rightarrow> char" where
  "command_tag (SetCommand k v) = kSetTag"
| "command_tag (DelCommand k) = kDelTag"

fun serialize :: "command \<Rightarrow> string" where
  "serialize (SetCommand k v) = appendBlob (appendBlob [kSetTag] k) v"
| "serialize (DelCommand k) = appendBlob [kDelTag] k"

fun toMutation :: "command \<Rightarrow> mutation" where
  "toMutation (SetCommand k v) = \<lparr>erase = False, key = k, val = v\<rparr>"
| "toMutation (DelCommand k) = \<lparr>erase = True, key = k, val = []\<rparr>"

text \<open>\<open>readU32\<close> and \<open>readBlob\<close> return the value and the advanced offset, or fail.\<close>

definition readU32 :: "string \<Rightarrow> nat \<Rightarrow> (u32 \<times> nat) option" where
  "readU32 data offset =
     (if offset + 4 > length data then None
      else Some (word_of_char (data ! offset) OR
                 push_bit 8 (word_of_char (data ! (offset + 1))) OR
                 push_bit 16 (word_of_char (data ! (offset + 2))) OR
                 push_bit 24 (word_of_char (data ! (offset + 3))), offset + 4))"

definition readBlob :: "string \<Rightarrow> nat \<Rightarrow> (string \<times> nat) option" where
  "readBlob data offset =
     (case readU32 data offset of
        None \<Rightarrow> None
      | Some (len, offset') \<Rightarrow>
          if offset' + unat len > length data then None
          else Some (take (unat len) (drop offset' data), offset' + unat len))"

definition deserializeCommand :: "string \<Rightarrow> command option" where
  "deserializeCommand payload =
     (if payload = [] then None
      else if payload ! 0 = kSetTag then
        (case readBlob payload 1 of
           None \<Rightarrow> None
         | Some (k, offset) \<Rightarrow>
             (case readBlob payload offset of
                None \<Rightarrow> None
              | Some (v, offset') \<Rightarrow>
                  if offset' \<noteq> length payload then None else Some (SetCommand k v)))
      else if payload ! 0 = kDelTag then
        (case readBlob payload 1 of
           None \<Rightarrow> None
         | Some (k, offset) \<Rightarrow>
             if offset \<noteq> length payload then None else Some (DelCommand k))
      else None)"


subsection \<open>Fields\<close>

lemmas tag_defs = kSetTag_def kDelTag_def kBeginTag_def kCommitTag_def

lemma length_appendU32 [simp]: "length (appendU32 out v) = length out + 4"
  by (simp add: appendU32_def)

lemma length_appendBlob [simp]: "length (appendBlob out b) = length out + 4 + length b"
  by (simp add: appendBlob_def)

lemma readU32_append:
  "length pre = offset \<Longrightarrow> readU32 (appendU32 pre v @ post) offset = Some (v, offset + 4)"
  using le32_join[of v]
  by (simp add: readU32_def appendU32_def nth_append word_of_char_of_word)

lemma readBlob_append:
  assumes "length pre = offset" and "length b < 2 ^ 32"
  shows "readBlob (appendBlob pre b @ post) offset = Some (b, offset + 4 + length b)"
proof -
  have "readU32 (appendBlob pre b @ post) offset = Some (of_nat (length b), offset + 4)"
    using readU32_append[OF assms(1), of "of_nat (length b)" "b @ post"]
    by (simp add: appendBlob_def)
  moreover have "unat (of_nat (length b) :: u32) = length b"
    using assms(2) by (simp add: unat_of_nat)
  moreover have "drop (offset + 4) (appendBlob pre b @ post) = b @ post"
    using assms(1) by (simp add: appendBlob_def appendU32_def)
  ultimately show ?thesis
    using assms(1) by (simp add: readBlob_def)
qed

lemma take_plus_4:
  "n + 4 \<le> length xs \<Longrightarrow>
   take (n + 4) xs = take n xs @ [xs ! n, xs ! (n + 1), xs ! (n + 2), xs ! (n + 3)]"
  by (simp add: take_add numeral_eq_Suc take_Suc_conv_app_nth)

lemma readU32_Some:
  assumes "readU32 data offset = Some (v, offset')"
  shows "offset' = offset + 4" "offset' \<le> length data"
    "take offset' data = appendU32 (take offset data) v"
proof -
  from assms show o: "offset' = offset + 4" and l: "offset' \<le> length data"
    by (auto simp: readU32_def split: if_splits)
  show "take offset' data = appendU32 (take offset data) v"
  proof -
    have "v = word_of_char (data ! offset) OR push_bit 8 (word_of_char (data ! (offset + 1))) OR
        push_bit 16 (word_of_char (data ! (offset + 2))) OR
        push_bit 24 (word_of_char (data ! (offset + 3)))"
      using assms by (simp add: readU32_def split: if_splits)
    then have "appendU32 (take offset data) v
        = take offset data @ [data ! offset, data ! (offset + 1), data ! (offset + 2), data ! (offset + 3)]"
      by (simp only: appendU32_def le32_cut)
    with o l take_plus_4[of offset data] show ?thesis by simp
  qed
qed

lemma readBlob_Some:
  assumes "readBlob data offset = Some (b, offset')"
  shows "offset' = offset + 4 + length b" "offset' \<le> length data"
    "take offset' data = appendBlob (take offset data) b" "length b < 2 ^ 32"
proof -
  from assms obtain len mid where rd: "readU32 data offset = Some (len, mid)"
    and b: "b = take (unat len) (drop mid data)" and o: "offset' = mid + unat len"
    and l: "mid + unat len \<le> length data"
    by (auto simp: readBlob_def split: option.splits prod.splits if_splits)
  have lb: "length b = unat len" using b l by simp
  show "offset' = offset + 4 + length b" using readU32_Some(1)[OF rd] o lb by simp
  show "offset' \<le> length data" using o l by simp
  show "length b < 2 ^ 32" using lb unsigned_less[of len] by simp
  have "take offset' data = take mid data @ b" using o b by (simp add: take_add)
  also have "\<dots> = appendBlob (take offset data) b"
    using readU32_Some(3)[OF rd] lb by (simp add: appendBlob_def)
  finally show "take offset' data = appendBlob (take offset data) b" .
qed


subsection \<open>Commands\<close>

text \<open>The commands whose two length fields do not wrap.\<close>

fun command_ok :: "command \<Rightarrow> bool" where
  "command_ok (SetCommand k v) = (length k < 2 ^ 32 \<and> length v < 2 ^ 32)"
| "command_ok (DelCommand k) = (length k < 2 ^ 32)"

lemma serialize_tag: "serialize c \<noteq> [] \<and> serialize c ! 0 = command_tag c"
  by (cases c) (simp_all add: appendBlob_def appendU32_def nth_append)

lemma length_serialize:
  "length (serialize (SetCommand k v)) = 9 + length k + length v"
  "length (serialize (DelCommand k)) = 5 + length k"
  by simp_all

lemma deserialize_serialize: "command_ok c \<Longrightarrow> deserializeCommand (serialize c) = Some c"
proof (cases c)
  case (SetCommand k v)
  assume "command_ok c"
  then have kv: "length k < 2 ^ 32" "length v < 2 ^ 32" using SetCommand by auto
  have "readBlob (serialize c) 1 = Some (k, 5 + length k)"
    using readBlob_append[of "[kSetTag]" 1 k "appendU32 [] (of_nat (length v)) @ v"] kv SetCommand
    by (simp add: appendBlob_def appendU32_def)
  moreover have "readBlob (serialize c) (5 + length k) = Some (v, 9 + length k + length v)"
    using readBlob_append[of "appendBlob [kSetTag] k" "5 + length k" v "[]"] kv SetCommand
    by simp
  ultimately show ?thesis
    using serialize_tag[of c] SetCommand
    by (simp add: deserializeCommand_def del: serialize.simps) (simp add: length_serialize)
next
  case (DelCommand k)
  assume "command_ok c"
  then have "readBlob (serialize c) 1 = Some (k, 5 + length k)"
    using readBlob_append[of "[kDelTag]" 1 k "[]"] DelCommand by simp
  then show ?thesis
    using serialize_tag[of c] DelCommand
    by (simp add: deserializeCommand_def tag_defs del: serialize.simps) (simp add: length_serialize)
qed

lemma take_Suc_0_nth: "xs \<noteq> [] \<Longrightarrow> take (Suc 0) xs = [xs ! 0]"
  by (cases xs) auto

lemma serialize_deserialize:
  assumes "deserializeCommand payload = Some c"
  shows "serialize c = payload" and "command_ok c"
proof -
  have ne: "payload \<noteq> []" using assms by (auto simp: deserializeCommand_def)
  have "serialize c = payload \<and> command_ok c"
  proof (cases "payload ! 0 = kSetTag")
    case True
    with assms ne obtain k o1 v where r1: "readBlob payload 1 = Some (k, o1)"
      and r2: "readBlob payload o1 = Some (v, length payload)" and c: "c = SetCommand k v"
      by (auto simp: deserializeCommand_def split: option.splits prod.splits if_splits)
    have "take o1 payload = appendBlob [kSetTag] k"
      using readBlob_Some(3)[OF r1] True ne by (simp add: take_Suc_0_nth)
    then show ?thesis
      using readBlob_Some(3,4)[OF r2] readBlob_Some(4)[OF r1] c by simp
  next
    case False
    with assms ne obtain k where r1: "readBlob payload 1 = Some (k, length payload)"
      and t: "payload ! 0 = kDelTag" and c: "c = DelCommand k"
      by (auto simp: deserializeCommand_def split: option.splits prod.splits if_splits)
    then show ?thesis
      using readBlob_Some(3,4)[OF r1] t ne by (simp add: take_Suc_0_nth)
  qed
  then show "serialize c = payload" and "command_ok c" by auto
qed


subsection \<open>Markers\<close>

lemma foldl_snoc_map: "foldl (\<lambda>s i. s @ [f i]) out xs = out @ map f xs"
  by (induction xs arbitrary: out) auto

lemma appendU64_map:
  "appendU64 out v = out @ map (\<lambda>i. char_of_word (drop_bit (8 * i) v AND 0xFF)) [0..<8]"
  by (simp only: appendU64_def foldl_snoc_map)

lemma parseMarker_append: "parseMarker (appendU64 [t] v) t = Some v"
proof -
  have "foldl (\<lambda>w i. w OR push_bit (i * 8) (word_of_char (appendU64 [t] v ! (1 + i)))) 0 [0..<8]
      = foldl (\<lambda>w i. w OR push_bit (8 * i) (take_bit 8 (drop_bit (8 * i) v))) 0 [0..<8]"
    by (rule foldl_cong)
       (simp_all add: appendU64_map word_of_char_of_word and_255[symmetric] mult.commute)
  also have "\<dots> = v"
    by (subst le_bytes_join) (simp add: take_bit_word_eq_self)
  finally show ?thesis
    by (simp add: parseMarker_def appendU64_map)
qed

lemma parseMarker_wrong_tag: "t \<noteq> t' \<Longrightarrow> parseMarker (appendU64 [t] v) t' = None"
  by (simp add: parseMarker_def appendU64_map)

lemma parse_markers [simp]:
  "parseBeginMarker (serializeBeginMarker i) = Some i"
  "parseCommitMarker (serializeCommitMarker i) = Some i"
  "parseBeginMarker (serializeCommitMarker i) = None"
  "parseCommitMarker (serializeBeginMarker i) = None"
  by (simp_all add: parseBeginMarker_def parseCommitMarker_def serializeBeginMarker_def
      serializeCommitMarker_def parseMarker_append parseMarker_wrong_tag tag_defs)

lemma parse_marker_command [simp]:
  "parseBeginMarker (serialize c) = None" "parseCommitMarker (serialize c) = None"
  using serialize_tag[of c]
  by (cases c; auto simp: parseBeginMarker_def parseCommitMarker_def parseMarker_def tag_defs)+

lemma length_markers [simp]:
  "length (serializeBeginMarker i) = 9" "length (serializeCommitMarker i) = 9"
  by (simp_all add: serializeBeginMarker_def serializeCommitMarker_def appendU64_map)


lemma parseMarker_Some:
  assumes "parseMarker payload t = Some v"
  shows "payload = appendU64 [t] v"
proof -
  have len: "length payload = 9" and t: "payload ! 0 = t"
    and v: "v = foldl (\<lambda>v i. v OR push_bit (8 * i) (word_of_char (payload ! (1 + i)))) 0 [0..<8]"
    using assms by (auto simp: parseMarker_def mult.commute split: if_splits)
  have "char_of_word (drop_bit (8 * i) v AND 0xFF) = payload ! (1 + i)" if "i < 8" for i
    unfolding v and_255 by (subst le_bytes_cut) (use that in \<open>simp_all add: char_of_word_of_char\<close>)
  then have "map (\<lambda>i. char_of_word (drop_bit (8 * i) v AND 0xFF)) [0..<8] = map (\<lambda>i. payload ! (1 + i)) [0..<8]"
    by (intro map_cong) simp_all
  also have "\<dots> = tl payload"
    by (rule nth_equalityI) (simp_all add: len nth_tl)
  finally show ?thesis
    using len t by (cases payload) (simp_all add: appendU64_map)
qed


subsection \<open>Properties\<close>

text \<open>
  C21. Decoding is exactly the inverse of encoding: a payload decodes to a command if and only
  if it is that command's encoding and the command's lengths fit their 32-bit fields.  In
  particular trailing bytes, short fields and unknown tags are rejected.
\<close>

theorem command_codec_exact:
  "deserializeCommand payload = Some c \<longleftrightarrow> payload = serialize c \<and> command_ok c"
  using deserialize_serialize[of c] serialize_deserialize[of payload c] by blast

text \<open>
  The transaction markers carry every 64-bit id exactly, and the three decoders a log
  reader tries accept disjoint sets of payloads.
\<close>

theorem marker_codec_exact:
  "(parseBeginMarker payload = Some i \<longleftrightarrow> payload = serializeBeginMarker i) \<and>
   (parseCommitMarker payload = Some i \<longleftrightarrow> payload = serializeCommitMarker i) \<and>
   (parseBeginMarker payload = None \<or> parseCommitMarker payload = None) \<and>
   (deserializeCommand payload = None \<or>
    parseBeginMarker payload = None \<and> parseCommitMarker payload = None)"
proof -
  have b: "parseBeginMarker payload = Some i \<Longrightarrow> payload = serializeBeginMarker i" for i
    unfolding parseBeginMarker_def serializeBeginMarker_def by (rule parseMarker_Some)
  have c: "parseCommitMarker payload = Some i \<Longrightarrow> payload = serializeCommitMarker i" for i
    unfolding parseCommitMarker_def serializeCommitMarker_def by (rule parseMarker_Some)
  have "deserializeCommand payload = None \<or>
      parseBeginMarker payload = None \<and> parseCommitMarker payload = None"
    using serialize_deserialize(1)[of payload] parse_marker_command
    by (cases "deserializeCommand payload") (fastforce simp del: serialize.simps)+
  moreover have "parseBeginMarker payload = None \<or> parseCommitMarker payload = None"
    using b by (cases "parseBeginMarker payload") simp_all
  moreover have "parseBeginMarker payload = Some i \<longleftrightarrow> payload = serializeBeginMarker i"
    using b by (rule iffI) simp_all
  moreover have "parseCommitMarker payload = Some i \<longleftrightarrow> payload = serializeCommitMarker i"
    using c by (rule iffI) simp_all
  ultimately show ?thesis by blast
qed

end
