(* ===== verification/Wal.thy ===== *)
theory Wal
  imports LogRecord Commands
begin

text \<open>
  The write-ahead log, \<open>src/src/wal/wal.cpp\<close>: appending framed records, syncing,
  truncating, reopening, and the replay loop that reads the log back.  The kernel's
  answers to \<open>open\<close>, \<open>write\<close>, \<open>read\<close>, \<open>lseek\<close>, \<open>ftruncate\<close> and \<open>fdatasync\<close> are arguments.
  A file is its current bytes and the bytes known to be on the disk since the last
  successful sync.  Shown here: what each append leaves in the file on success and on
  every failure, that an acknowledged append in mode \<open>Always\<close> is on the disk, and that
  replaying any crash image of a log hands exactly the whole records to the callback.
\<close>

subsection \<open>Files\<close>

record logfile =
  lf_bytes :: string
  lf_durable :: string

text \<open>
  What a crash may leave of a file that is only appended to or truncated: something
  between the bytes on the disk and the bytes written.
\<close>

definition crash_image :: "logfile \<Rightarrow> string \<Rightarrow> bool" where
  "crash_image lf img \<longleftrightarrow>
     prefix (lf_durable lf) img \<and> prefix img (lf_bytes lf) \<or>
     prefix (lf_bytes lf) img \<and> prefix img (lf_durable lf)"

definition lf_append :: "string \<Rightarrow> logfile \<Rightarrow> logfile" where
  "lf_append s lf = lf\<lparr>lf_bytes := lf_bytes lf @ s\<rparr>"

definition lf_truncate :: "nat \<Rightarrow> logfile \<Rightarrow> logfile" where
  "lf_truncate n lf = lf\<lparr>lf_bytes := take n (lf_bytes lf)\<rparr>"

definition lf_sync :: "logfile \<Rightarrow> logfile" where
  "lf_sync lf = lf\<lparr>lf_durable := lf_bytes lf\<rparr>"


subsection \<open>The log\<close>

datatype FsyncMode = Always | Interval | Never

definition parseFsyncMode :: "string \<Rightarrow> FsyncMode option" where
  "parseFsyncMode text =
     (if text = ''always'' then Some Always
      else if text = ''interval'' then Some Interval
      else if text = ''never'' then Some Never
      else None)"

fun fsyncModeName :: "FsyncMode \<Rightarrow> string" where
  "fsyncModeName Always = ''always''"
| "fsyncModeName Interval = ''interval''"
| "fsyncModeName Never = ''never''"

text \<open>
  \<open>WriteAheadLog\<close>: \<open>wal_fd\<close> is \<open>fd_.valid()\<close>, \<open>wal_file\<close> the file the descriptor refers to
  (the one at \<open>path_\<close>).
\<close>

record wal =
  wal_mode :: FsyncMode
  intervalMs :: int
  wal_fd :: bool
  wal_file :: logfile
  wal_offset :: u64
  wal_appends :: u64
  wal_syncs :: u64
  wal_bytesWritten :: u64

text \<open>The constructor: \<open>open\<close> with \<open>O_CREAT\<close>, then \<open>lseek\<close> to the end.\<close>

definition newWal :: "bool \<Rightarrow> bool \<Rightarrow> FsyncMode \<Rightarrow> int \<Rightarrow> logfile option \<Rightarrow> syscall_error + wal" where
  "newWal openOk seekOk mode ms file =
     (if \<not> openOk then Inl (SyscallError ''open(log)'')
      else let lf = (case file of None \<Rightarrow> \<lparr>lf_bytes = [], lf_durable = []\<rparr> | Some lf \<Rightarrow> lf)
        in if \<not> seekOk then Inl (SyscallError ''lseek(log)'')
           else Inr \<lparr>wal_mode = mode,
                     intervalMs = (if mode = Interval \<and> ms \<le> 0 then 1000 else ms),
                     wal_fd = True, wal_file = lf, wal_offset = of_nat (length (lf_bytes lf)),
                     wal_appends = 0, wal_syncs = 0, wal_bytesWritten = 0\<rparr>)"

text \<open>\<open>writeAll\<close>: on a closed descriptor the first \<open>write\<close> fails.\<close>

definition writeAll :: "write_ans list \<Rightarrow> string \<Rightarrow> wal \<Rightarrow> bool \<times> wal" where
  "writeAll as data w =
     (if wal_fd w then
        (let (sent, ok) = write_loop as data in (ok, w\<lparr>wal_file := lf_append sent (wal_file w)\<rparr>))
      else (data = [], w))"

definition syncLocked :: "bool \<Rightarrow> wal \<Rightarrow> (syscall_error + unit) \<times> wal" where
  "syncLocked ok w =
     (if ok \<and> wal_fd w
      then (Inr (), w\<lparr>wal_file := lf_sync (wal_file w), wal_syncs := wal_syncs w + 1\<rparr>)
      else (Inl (SyscallError ''fsync(log)''), w))"

definition wal_sync :: "bool \<Rightarrow> wal \<Rightarrow> (syscall_error + unit) \<times> wal" where
  "wal_sync ok w = syncLocked ok w"

text \<open>The common tail of \<open>append\<close> and \<open>appendBatch\<close>: write, account, sync in mode \<open>Always\<close>.\<close>

definition appendBytes :: "write_ans list \<Rightarrow> bool \<Rightarrow> string \<Rightarrow> nat \<Rightarrow> wal \<Rightarrow> (syscall_error + u64) \<times> wal" where
  "appendBytes as syncOk blob records w =
     (case writeAll as blob w of
        (False, w') \<Rightarrow> (Inl (SyscallError ''write(log)''), w')
      | (True, w') \<Rightarrow>
          (let w'' = w'\<lparr>wal_offset := wal_offset w' + of_nat (length blob),
                        wal_appends := wal_appends w' + of_nat records,
                        wal_bytesWritten := wal_bytesWritten w' + of_nat (length blob)\<rparr>
           in if wal_mode w'' = Always then
                (case syncLocked syncOk w'' of
                   (Inl e, w3) \<Rightarrow> (Inl e, w3)
                 | (Inr u, w3) \<Rightarrow> (Inr (wal_offset w3), w3))
              else (Inr (wal_offset w''), w'')))"

definition wal_append :: "write_ans list \<Rightarrow> bool \<Rightarrow> string \<Rightarrow> wal \<Rightarrow> (syscall_error + u64) \<times> wal" where
  "wal_append as syncOk payload w = appendBytes as syncOk (frame payload) 1 w"

definition wal_appendBatch ::
  "write_ans list \<Rightarrow> bool \<Rightarrow> string list \<Rightarrow> wal \<Rightarrow> (syscall_error + u64) \<times> wal" where
  "wal_appendBatch as syncOk payloads w =
     (if payloads = [] then (Inr (wal_offset w), w)
      else appendBytes as syncOk (concat (map frame payloads)) (length payloads) w)"

definition truncateAll :: "bool \<Rightarrow> bool \<Rightarrow> wal \<Rightarrow> (syscall_error + unit) \<times> wal" where
  "truncateAll truncOk syncOk w =
     (if \<not> (truncOk \<and> wal_fd w) then (Inl (SyscallError ''ftruncate(log for resync)''), w)
      else let w' = w\<lparr>wal_file := lf_truncate 0 (wal_file w)\<rparr>
        in if \<not> syncOk then (Inl (SyscallError ''fsync after resync truncate''), w')
           else (Inr (), w'\<lparr>wal_file := lf_sync (wal_file w'), wal_offset := 0\<rparr>))"

text \<open>One turn of \<open>syncLoop\<close>: a failed sync is caught and forgotten.\<close>

definition syncTick :: "bool \<Rightarrow> wal \<Rightarrow> wal" where
  "syncTick ok w = (if wal_fd w then snd (syncLocked ok w) else w)"

text \<open>
  The destructor: a last sync whose failure is swallowed, then the descriptor is closed.  The
  sync thread has been joined before.
\<close>

definition closeWal :: "bool \<Rightarrow> wal \<Rightarrow> wal" where
  "closeWal ok w = (if wal_fd w then snd (syncLocked ok w) else w)\<lparr>wal_fd := False\<rparr>"

text \<open>\<open>file\<close> is the file now at the path; the old descriptor is closed first.\<close>

definition reopenAfterCompaction :: "bool \<Rightarrow> bool \<Rightarrow> logfile \<Rightarrow> wal \<Rightarrow> (syscall_error + unit) \<times> wal" where
  "reopenAfterCompaction openOk seekOk file w =
     (let w' = w\<lparr>wal_fd := False, wal_file := file\<rparr>
      in if \<not> openOk then (Inl (SyscallError ''reopen(log)''), w')
         else let w'' = w'\<lparr>wal_fd := True\<rparr>
           in if \<not> seekOk then (Inl (SyscallError ''lseek after compaction''), w'')
              else (Inr (), w''\<lparr>wal_offset := of_nat (length (lf_bytes file))\<rparr>))"


subsection \<open>Replay\<close>

record replay_result =
  rr_recordsApplied :: nat
  rr_bytesConsumed :: nat
  rr_fileBytes :: nat
  rr_truncated :: bool
  rr_sawCorruption :: bool
  rr_sawUnknownRecord :: bool

definition rr_init :: replay_result where
  "rr_init = \<lparr>rr_recordsApplied = 0, rr_bytesConsumed = 0, rr_fileBytes = 0, rr_truncated = False,
              rr_sawCorruption = False, rr_sawUnknownRecord = False\<rparr>"

text \<open>
  The reading loop.  An answer \<open>ROk n\<close> is a read of \<open>n\<close> bytes, at most what is left and at
  most the chunk; once the answers are used up the rest comes in whole chunks.
\<close>

datatype read_ans = ROk nat | REintr | RErr

definition kChunk :: nat where "kChunk = 64 * 1024"

fun readLoop :: "read_ans list \<Rightarrow> string \<Rightarrow> string \<Rightarrow> syscall_error + string" where
  "readLoop [] rest buffer = Inr (buffer @ rest)"
| "readLoop (a # as) rest buffer =
     (if rest = [] then (case a of REintr \<Rightarrow> readLoop as rest buffer
                                 | RErr \<Rightarrow> Inl (SyscallError ''read(log)'')
                                 | ROk n \<Rightarrow> Inr buffer)
      else case a of
        REintr \<Rightarrow> readLoop as rest buffer
      | RErr \<Rightarrow> Inl (SyscallError ''read(log)'')
      | ROk n \<Rightarrow> (let m = max 1 (min n kChunk) in readLoop as (drop m rest) (buffer @ take m rest)))"

text \<open>
  The parsing loop; the callback \<open>onRecord\<close> is a function on the state it captures.  The
  second component of the result is the offset where the loop stopped.
\<close>

function replayLoop ::
  "(string \<Rightarrow> 's \<Rightarrow> bool \<times> 's) \<Rightarrow> string \<Rightarrow> nat \<Rightarrow> replay_result \<Rightarrow> 's \<Rightarrow> replay_result \<times> nat \<times> 's"
where
  "replayLoop onRecord buffer offset r s =
     (if offset < length buffer then
        (case parseRecord buffer offset of
           Incomplete \<Rightarrow> (r\<lparr>rr_truncated := True\<rparr>, offset, s)
         | Corrupt \<Rightarrow> (r\<lparr>rr_truncated := True, rr_sawCorruption := True\<rparr>, offset, s)
         | Ok payload nextOffset \<Rightarrow>
             (case onRecord payload s of
                (False, s') \<Rightarrow> (r\<lparr>rr_sawUnknownRecord := True\<rparr>, offset, s')
              | (True, s') \<Rightarrow>
                  replayLoop onRecord buffer nextOffset
                    (r\<lparr>rr_recordsApplied := rr_recordsApplied r + 1\<rparr>) s'))
      else (r, offset, s))"
  by pat_completeness auto
termination
  by (relation "measure (\<lambda>(f, b, offset, r, s). length b - offset)")
     (auto dest!: parseRecord_length_progress)

declare replayLoop.simps [simp del]

text \<open>The answers a replay meets besides the reads.\<close>

record replay_io =
  io_open :: bool
  io_reads :: "read_ans list"
  io_wopen :: bool
  io_trunc :: bool
  io_sync :: bool

definition replay ::
  "replay_io \<Rightarrow> (string \<Rightarrow> 's \<Rightarrow> bool \<times> 's) \<Rightarrow> logfile option \<Rightarrow> 's \<Rightarrow>
   (syscall_error + replay_result) \<times> logfile option \<times> 's" where
  "replay io onRecord file s =
     (case file of
        None \<Rightarrow> (Inr rr_init, None, s)
      | Some lf \<Rightarrow>
          if \<not> io_open io then (Inl (SyscallError ''open(log for replay)''), Some lf, s)
          else case readLoop (io_reads io) (lf_bytes lf) [] of
            Inl e \<Rightarrow> (Inl e, Some lf, s)
          | Inr buffer \<Rightarrow>
              (let (r, offset, s') =
                     replayLoop onRecord buffer 0 (rr_init\<lparr>rr_fileBytes := length buffer\<rparr>) s;
                   r' = r\<lparr>rr_bytesConsumed := offset\<rparr>
               in if rr_truncated r' \<or> rr_sawUnknownRecord r' then
                    if \<not> io_wopen io then (Inl (SyscallError ''open(log for truncate)''), Some lf, s')
                    else if \<not> io_trunc io then (Inl (SyscallError ''ftruncate(log)''), Some lf, s')
                    else let lf' = lf_truncate offset lf
                      in if \<not> io_sync io then (Inl (SyscallError ''fsync after truncate''), Some lf', s')
                         else (Inr r', Some (lf_sync lf'), s')
                  else (Inr r', Some lf, s')))"



subsection \<open>The bytes of a log\<close>

definition log_of :: "string list \<Rightarrow> string" where
  "log_of ps = concat (map frame ps)"

text \<open>
  A tail the parser takes for an unfinished record, as a crash in the middle of a write leaves
  it.  Where it stands in the buffer makes no difference.
\<close>

definition torn :: "string \<Rightarrow> bool" where
  "torn t \<longleftrightarrow> (\<forall>pre. parseRecord (pre @ t) (length pre) = Incomplete)"

lemma torn_Nil [simp]: "torn []"
  using parseRecord_end by (simp add: torn_def)

lemma torn_prefix: "payload_ok p \<Longrightarrow> strict_prefix t (frame p) \<Longrightarrow> torn t"
  using parseRecord_torn by (simp add: torn_def strict_prefix_def)

text \<open>How many whole records of \<open>ps\<close> the first \<open>n\<close> bytes of their log hold.\<close>

fun whole :: "nat \<Rightarrow> string list \<Rightarrow> nat" where
  "whole n [] = 0"
| "whole n (p # ps) = (if length (frame p) \<le> n then Suc (whole (n - length (frame p)) ps) else 0)"

lemma log_of_simps [simp]:
  "log_of [] = []" "log_of (p # ps) = frame p @ log_of ps" "log_of (ps @ qs) = log_of ps @ log_of qs"
  by (simp_all add: log_of_def)

lemma log_of_inj_length: "length (log_of ps) = sum_list (map (\<lambda>p. 8 + length p) ps)"
  by (induction ps) simp_all

lemma whole_le: "whole n ps \<le> length ps"
  by (induction n ps rule: whole.induct) auto

lemma whole_all: "length (log_of ps) \<le> n \<Longrightarrow> whole n ps = length ps"
  by (induction ps arbitrary: n) auto

lemma whole_append: "whole (length (log_of ps) + n) (ps @ qs) = length ps + whole n qs"
  by (induction ps) auto

lemma log_prefix_split:
  assumes "prefix img (log_of ps)" and "\<forall>p \<in> set ps. payload_ok p"
  shows "\<exists>t. img = log_of (take (whole (length img) ps) ps) @ t \<and> torn t"
  using assms
proof (induction ps arbitrary: img)
  case Nil
  then show ?case by simp
next
  case (Cons p ps)
  show ?case
  proof (cases "length (frame p) \<le> length img")
    case True
    then have "prefix (frame p) img"
      using prefix_length_prefix[of "frame p" "log_of (p # ps)" img] Cons.prems(1) by simp
    then obtain img' where img: "img = frame p @ img'" by (auto simp: prefix_def)
    with Cons.prems(1) have "prefix img' (log_of ps)" by simp
    with Cons.IH[of img'] Cons.prems(2) img True show ?thesis by auto
  next
    case False
    then have "strict_prefix img (frame p)"
      using Cons.prems(1) by (auto simp: prefix_append strict_prefix_def dest: prefix_length_le)
    with False Cons.prems(2) show ?thesis by (auto simp: torn_prefix simp del: length_frame)
  qed
qed

lemma parseRecord_torn_tail: "torn t \<Longrightarrow> parseRecord (pre @ t) (length pre) = Incomplete"
  by (simp add: torn_def)


subsection \<open>Appending\<close>

definition wal_bytes :: "wal \<Rightarrow> string" where
  "wal_bytes w = lf_bytes (wal_file w)"

text \<open>The descriptor is open and the cached offset is the length of the file, modulo \<open>2 ^ 64\<close>.\<close>

definition wal_inv :: "wal \<Rightarrow> bool" where
  "wal_inv w \<longleftrightarrow> wal_fd w \<and> wal_offset w = of_nat (length (wal_bytes w))"

lemmas wal_defs = wal_bytes_def lf_append_def lf_sync_def lf_truncate_def

lemma appendBytes_cases:
  "appendBytes as ok blob n w =
     (if \<not> wal_fd w \<and> blob \<noteq> [] then (Inl (SyscallError ''write(log)''), w)
      else if wal_fd w \<and> \<not> snd (write_loop as blob)
      then (Inl (SyscallError ''write(log)''),
            w\<lparr>wal_file := lf_append (fst (write_loop as blob)) (wal_file w)\<rparr>)
      else let w' = w\<lparr>wal_file := lf_append blob (wal_file w),
                      wal_offset := wal_offset w + of_nat (length blob),
                      wal_appends := wal_appends w + of_nat n,
                      wal_bytesWritten := wal_bytesWritten w + of_nat (length blob)\<rparr>
        in if wal_mode w \<noteq> Always then (Inr (wal_offset w'), w')
           else if ok \<and> wal_fd w
             then (Inr (wal_offset w'),
                   w'\<lparr>wal_file := lf_sync (wal_file w'), wal_syncs := wal_syncs w + 1\<rparr>)
             else (Inl (SyscallError ''fsync(log)''), w'))"
proof (cases "wal_fd w")
  case True
  show ?thesis
  proof (cases "snd (write_loop as blob)")
    case ok: True
    then show ?thesis
      using True write_loop_ok[OF ok]
      by (cases "write_loop as blob") (simp add: appendBytes_def writeAll_def syncLocked_def Let_def)
  next
    case False
    then show ?thesis
      using True by (cases "write_loop as blob") (simp add: appendBytes_def writeAll_def)
  qed
next
  case False
  then show ?thesis
    by (cases "blob = []") (simp_all add: appendBytes_def writeAll_def syncLocked_def Let_def lf_append_def)
qed

lemma appendBytes_ok:
  assumes "appendBytes as ok blob n w = (Inr off, w')" and "blob \<noteq> []"
  shows "wal_bytes w' = wal_bytes w @ blob" and "off = wal_offset w'"
    and "wal_offset w' = wal_offset w + of_nat (length blob)" and "wal_fd w" and "wal_fd w'"
    and "wal_mode w' = wal_mode w" and "wal_appends w' = wal_appends w + of_nat n"
    and "wal_mode w = Always \<Longrightarrow> lf_durable (wal_file w') = wal_bytes w'"
    and "wal_mode w \<noteq> Always \<Longrightarrow> lf_durable (wal_file w') = lf_durable (wal_file w)"
  using assms by (auto simp: appendBytes_cases wal_defs Let_def split: if_splits)

lemma appendBytes_error:
  assumes "appendBytes as ok blob n w = (Inl e, w')"
  shows "\<exists>t. prefix t blob \<and> wal_bytes w' = wal_bytes w @ t \<and>
           (t \<noteq> blob \<longrightarrow> wal_offset w' = wal_offset w)"
    and "lf_durable (wal_file w') = lf_durable (wal_file w)" and "wal_mode w' = wal_mode w"
    and "wal_fd w' = wal_fd w"
proof -
  have "prefix (fst (write_loop as blob)) blob" by (rule write_loop_prefix)
  then show "\<exists>t. prefix t blob \<and> wal_bytes w' = wal_bytes w @ t \<and>
           (t \<noteq> blob \<longrightarrow> wal_offset w' = wal_offset w)"
    using assms by (auto simp: appendBytes_cases wal_defs Let_def split: if_splits)
  show "lf_durable (wal_file w') = lf_durable (wal_file w)" and "wal_mode w' = wal_mode w"
    and "wal_fd w' = wal_fd w"
    using assms by (auto simp: appendBytes_cases wal_defs Let_def split: if_splits)
qed

lemma appendBytes_succeeds:
  assumes "wal_fd w" and "WErr \<notin> set as" and "ok \<or> wal_mode w \<noteq> Always"
  shows "\<exists>off w'. appendBytes as ok blob n w = (Inr off, w')"
  using assms by (auto simp: appendBytes_cases write_loop_no_error Let_def)

lemma wal_inv_append:
  "wal_inv w \<Longrightarrow> appendBytes as ok blob n w = (Inr off, w') \<Longrightarrow> blob \<noteq> [] \<Longrightarrow> wal_inv w'"
  using appendBytes_ok[of as ok blob n w off w'] by (simp add: wal_inv_def)



subsection \<open>Replaying\<close>

lemma readLoop_Inr: "readLoop as rest buffer = Inr b \<Longrightarrow> b = buffer @ rest"
proof (induction as rest buffer rule: readLoop.induct)
  case (2 a as rest buffer)
  then show ?case by (cases a) (auto simp: Let_def split: if_splits)
qed simp

lemma readLoop_no_error: "RErr \<notin> set as \<Longrightarrow> readLoop as rest buffer = Inr (buffer @ rest)"
proof (induction as rest buffer rule: readLoop.induct)
  case (2 a as rest buffer)
  then show ?case by (cases a) (auto simp: Let_def)
qed simp

text \<open>Handing a list of payloads to the callback: how many it accepts, and the state it leaves.\<close>

fun feed :: "(string \<Rightarrow> 's \<Rightarrow> bool \<times> 's) \<Rightarrow> string list \<Rightarrow> 's \<Rightarrow> nat \<times> 's" where
  "feed f [] s = (0, s)"
| "feed f (p # ps) s =
     (case f p s of
        (False, s') \<Rightarrow> (0, s')
      | (True, s') \<Rightarrow> (let (n, s'') = feed f ps s' in (Suc n, s'')))"

lemma feed_le: "fst (feed f ps s) \<le> length ps"
  by (induction ps arbitrary: s) (auto simp: split_beta Let_def split: bool.split prod.split)

lemma feed_append:
  "fst (feed f ps s) = length ps \<Longrightarrow>
   feed f (ps @ qs) s = (length ps + fst (feed f qs (snd (feed f ps s))), snd (feed f qs (snd (feed f ps s))))"
proof (induction ps arbitrary: s)
  case (Cons p ps)
  obtain b s' where fp: "f p s = (b, s')" by fastforce
  with Cons show ?case by (cases b) (auto simp: split_beta Let_def)
qed simp

text \<open>
  The parsing loop over whole records followed by a tail it cannot parse (or nothing).
  \<open>c\<close> tells whether the tail is corrupt rather than cut off.
\<close>

lemma replayLoop_records:
  assumes "\<forall>p \<in> set ps. payload_ok p"
    and "parseRecord (pre @ log_of ps @ t) (length pre + length (log_of ps))
      = (if c then Corrupt else Incomplete)" and "c \<longrightarrow> t \<noteq> []"
  shows "replayLoop f (pre @ log_of ps @ t) (length pre) r s =
    (let (n, s') = feed f ps s
     in if n < length ps
        then (r\<lparr>rr_recordsApplied := rr_recordsApplied r + n, rr_sawUnknownRecord := True\<rparr>,
              length pre + length (log_of (take n ps)), s')
        else (r\<lparr>rr_recordsApplied := rr_recordsApplied r + n,
                rr_truncated := rr_truncated r \<or> t \<noteq> [],
                rr_sawCorruption := rr_sawCorruption r \<or> c\<rparr>,
              length pre + length (log_of ps), s'))"
  using assms
proof (induction ps arbitrary: pre r s)
  case Nil
  then show ?case
    by (subst replayLoop.simps) (cases "t = []"; cases c; simp)
next
  case (Cons p ps)
  let ?b = "pre @ log_of (p # ps) @ t"
  have parse: "parseRecord ?b (length pre) = Ok p (length pre + length (frame p))"
    using parseRecord_frame[of p pre "log_of ps @ t"] Cons.prems(1) by simp
  obtain b s' where fp: "f p s = (b, s')" by fastforce
  have ne: "length pre < length ?b" by simp
  show ?case
  proof (cases b)
    case False
    with fp parse ne show ?thesis by (subst replayLoop.simps) simp
  next
    case True
    let ?r = "r\<lparr>rr_recordsApplied := rr_recordsApplied r + 1\<rparr>"
    have "replayLoop f ?b (length pre) r s = replayLoop f ?b (length (pre @ frame p)) ?r s'"
      using True fp parse ne by (subst replayLoop.simps) simp
    also have "\<dots> = replayLoop f ((pre @ frame p) @ log_of ps @ t) (length (pre @ frame p)) ?r s'"
      by simp
    finally show ?thesis
      using Cons.IH[of "pre @ frame p" ?r s'] Cons.prems True fp
      by (simp add: split_beta Let_def add.assoc)
  qed
qed

lemma replayLoop_log:
  assumes "\<forall>p \<in> set ps. payload_ok p" and "torn t"
  shows "replayLoop f (log_of ps @ t) 0 r s =
    (let (n, s') = feed f ps s
     in if n < length ps
        then (r\<lparr>rr_recordsApplied := rr_recordsApplied r + n, rr_sawUnknownRecord := True\<rparr>,
              length (log_of (take n ps)), s')
        else (r\<lparr>rr_recordsApplied := rr_recordsApplied r + n, rr_truncated := rr_truncated r \<or> t \<noteq> []\<rparr>,
              length (log_of ps), s'))"
  using replayLoop_records[of ps "[]" t False f r s] parseRecord_torn_tail[OF assms(2), of "log_of ps"]
    assms(1)
  by (simp add: split_beta Let_def)


text \<open>A replay none of whose system calls fails.\<close>

definition io_fine :: "replay_io \<Rightarrow> bool" where
  "io_fine io \<longleftrightarrow> io_open io \<and> RErr \<notin> set (io_reads io) \<and> io_wopen io \<and> io_trunc io \<and> io_sync io"

lemma replay_log:
  assumes "io_fine io" and "lf_bytes lf = log_of ps @ t"
    and "\<forall>p \<in> set ps. payload_ok p" and "torn t"
  shows "\<exists>r lf'. replay io f (Some lf) s = (Inr r, Some lf', snd (feed f ps s)) \<and>
     rr_recordsApplied r = fst (feed f ps s) \<and>
     lf_bytes lf' = log_of (take (fst (feed f ps s)) ps) \<and>
     rr_bytesConsumed r = length (lf_bytes lf') \<and>
     rr_truncated r = (fst (feed f ps s) = length ps \<and> t \<noteq> []) \<and> \<not> rr_sawCorruption r \<and>
     (lf_durable lf' = lf_bytes lf' \<or> lf' = lf)"
proof -
  obtain n s' where f: "feed f ps s = (n, s')" by fastforce
  have n: "n \<le> length ps" using feed_le[of f ps s] f by simp
  have rd: "readLoop (io_reads io) (lf_bytes lf) [] = Inr (log_of ps @ t)"
    using assms(1,2) readLoop_no_error[of "io_reads io" "lf_bytes lf" "[]"] by (simp add: io_fine_def)
  have cut: "take (length (log_of (take n ps))) (log_of ps @ t) = log_of (take n ps)"
  proof -
    have "log_of ps = log_of (take n ps) @ log_of (drop n ps)"
      by (metis append_take_drop_id log_of_simps(3))
    then show ?thesis by simp
  qed
  show ?thesis
    using assms(1,2) rd f n cut
    by (auto simp: replay_def replayLoop_log[OF assms(3,4)] io_fine_def rr_init_def
        lf_truncate_def lf_sync_def Let_def)
qed

text \<open>A damaged record ends the replay where it starts, and the log is cut there.\<close>

lemma replay_corrupt:
  assumes "io_fine io" and "lf_bytes lf = log_of ps @ t" and "t \<noteq> []"
    and "\<forall>p \<in> set ps. payload_ok p" and "parseRecord (log_of ps @ t) (length (log_of ps)) = Corrupt"
    and "fst (feed f ps s) = length ps"
  shows "\<exists>r lf'. replay io f (Some lf) s = (Inr r, Some lf', snd (feed f ps s)) \<and>
     rr_recordsApplied r = length ps \<and> rr_sawCorruption r \<and> rr_truncated r \<and>
     lf_bytes lf' = log_of ps \<and> lf_durable lf' = log_of ps"
proof -
  have rd: "readLoop (io_reads io) (lf_bytes lf) [] = Inr (log_of ps @ t)"
    using assms(1,2) readLoop_no_error[of "io_reads io" "lf_bytes lf" "[]"] by (simp add: io_fine_def)
  have "replayLoop f (log_of ps @ t) 0 r s
      = (r\<lparr>rr_recordsApplied := rr_recordsApplied r + length ps, rr_truncated := True,
           rr_sawCorruption := True\<rparr>, length (log_of ps), snd (feed f ps s))" for r
    using replayLoop_records[of ps "[]" t True f r s] assms(3-6) by (simp add: split_beta Let_def)
  with rd assms(1,2) show ?thesis
    by (simp add: replay_def io_fine_def rr_init_def lf_truncate_def lf_sync_def Let_def)
qed



subsection \<open>Properties\<close>

text \<open>
  An append either succeeds and leaves exactly the framed record at the end of the file,
  returns the new length as the offset and, in mode \<open>Always\<close>, has it on the disk; or it fails
  and leaves at most a prefix of that record, and nothing new is on the disk.
\<close>

theorem append_outcome:
  assumes "wal_inv w"
  shows "case wal_append as ok p w of
      (Inr off, w') \<Rightarrow> wal_inv w' \<and> wal_bytes w' = wal_bytes w @ frame p \<and>
        off = of_nat (length (wal_bytes w')) \<and>
        (wal_mode w = Always \<longrightarrow> lf_durable (wal_file w') = wal_bytes w')
    | (Inl e, w') \<Rightarrow> (\<exists>t. prefix t (frame p) \<and> wal_bytes w' = wal_bytes w @ t) \<and>
        lf_durable (wal_file w') = lf_durable (wal_file w)"
proof (cases "wal_append as ok p w")
  case (Pair r w')
  show ?thesis
  proof (cases r)
    case (Inl e)
    with Pair appendBytes_error[of "as" ok "frame p" 1 w e w'] show ?thesis by (auto simp: wal_append_def)
  next
    case (Inr off)
    with Pair have "appendBytes as ok (frame p) 1 w = (Inr off, w')" by (simp add: wal_append_def)
    from appendBytes_ok[OF this frame_nonempty] wal_inv_append[OF assms this frame_nonempty] Pair Inr
    show ?thesis by (simp add: wal_inv_def)
  qed
qed

definition demo_wal :: "FsyncMode \<Rightarrow> wal" where
  "demo_wal mode = \<lparr>wal_mode = mode, intervalMs = 1000, wal_fd = True,
     wal_file = \<lparr>lf_bytes = [], lf_durable = []\<rparr>, wal_offset = 0, wal_appends = 0, wal_syncs = 0,
     wal_bytesWritten = 0\<rparr>"

theorem append_outcome_witness:
  "\<exists>off w'. wal_append [WOk 2, WEintr] True ''p'' (demo_wal Always) = (Inr off, w') \<and>
     lf_durable (wal_file w') = frame ''p''"
proof -
  have inv: "wal_inv (demo_wal Always)" by (simp add: wal_inv_def wal_bytes_def demo_wal_def)
  obtain off w' where "wal_append [WOk 2, WEintr] True ''p'' (demo_wal Always) = (Inr off, w')"
    using appendBytes_succeeds[of "demo_wal Always" "[WOk 2, WEintr]" True "frame ''p''" 1]
    by (auto simp: wal_append_def demo_wal_def)
  with append_outcome[OF inv, where as = "[WOk 2, WEintr]" and ok = True and p = "''p''"] show ?thesis
    by (auto simp: demo_wal_def wal_bytes_def)
qed

text \<open>
  C17. Replaying any prefix of a log, as a crash leaves it, hands exactly the whole records to
  the callback in order, never reports corruption, and cuts the file back to those records.
\<close>

theorem replay_recovers_whole_records:
  fixes ps :: "string list" and img :: string
  defines "qs \<equiv> take (whole (length img) ps) ps"
  assumes "io_fine io" and "\<forall>p \<in> set ps. payload_ok p" and "prefix img (log_of ps)"
    and "fst (feed f qs s) = length qs"
  shows "\<exists>r lf'. replay io f (Some \<lparr>lf_bytes = img, lf_durable = img\<rparr>) s = (Inr r, Some lf', snd (feed f qs s)) \<and>
     rr_recordsApplied r = length qs \<and> \<not> rr_sawCorruption r \<and> lf_bytes lf' = log_of qs \<and>
     lf_durable lf' = log_of qs"
proof -
  obtain t where t: "img = log_of qs @ t" "torn t"
    using log_prefix_split[OF assms(4,3)] unfolding qs_def by blast
  have ok: "\<forall>p \<in> set qs. payload_ok p"
    unfolding qs_def using assms(3) set_take_subset[of "whole (length img) ps" ps] by blast
  show ?thesis
    using replay_log[OF assms(2) _ ok t(2), of "\<lparr>lf_bytes = img, lf_durable = img\<rparr>" f s] assms(5) t(1)
    by auto
qed

definition demo_replay_io :: replay_io where
  "demo_replay_io = \<lparr>io_open = True, io_reads = [ROk 3, REintr], io_wopen = True, io_trunc = True, io_sync = True\<rparr>"

theorem replay_recovers_whole_records_witness:
  "\<exists>r lf'. replay demo_replay_io (\<lambda>p s. (True, s @ [p]))
      (Some \<lparr>lf_bytes = take 20 (log_of [''one'', ''two'']), lf_durable = take 20 (log_of [''one'', ''two''])\<rparr>) []
        = (Inr r, Some lf', [''one'']) \<and>
     rr_recordsApplied r = 1 \<and> lf_bytes lf' = frame ''one''"
proof -
  let ?ps = "[''one'', ''two'']" and ?f = "\<lambda>p s. (True, s @ [p])"
  let ?img = "take 20 (log_of ?ps)"
  have qs: "take (whole (length ?img) ?ps) ?ps = [''one'']" by simp
  have fine: "io_fine demo_replay_io" by (simp add: io_fine_def demo_replay_io_def)
  have ok: "\<forall>p \<in> set ?ps. payload_ok p" by (simp add: payload_ok_def unat_kMaxPayloadBytes)
  have feed: "feed ?f [''one''] [] = (1, [''one''])" by simp
  from replay_recovers_whole_records[OF fine ok take_is_prefix, of ?f 20 "[]", unfolded qs feed]
  show ?thesis by auto
qed

end
