(* ===== verification/Compactor.thy ===== *)
theory Compactor
  imports Wal
begin

text \<open>
  Log compaction, \<open>src/src/wal/compactor.cpp\<close>: the live entries are written to a temporary
  file, which is synced and renamed over the log.  Shown here: on success the log is
  exactly one \<open>SET\<close> record per entry, on every failure the log is untouched, and at every
  moment in between the log is either the old one or the complete new one on the disk.
\<close>

subsection \<open>Definitions\<close>

record compaction_result =
  cr_ok :: bool
  cr_recordsWritten :: nat
  cr_bytesBefore :: nat
  cr_bytesAfter :: nat
  cr_error :: string

text \<open>The log and the temporary file beside it.\<close>

record storage =
  st_log :: logfile
  st_temp :: "logfile option"

text \<open>
  The answers a compaction meets; \<open>co_strerror\<close> is the text of \<open>errno\<close> when a call fails, and
  the answer lists are those of the \<open>write\<close> loop of each entry.
\<close>

record compact_io =
  co_statBefore :: bool
  co_open :: bool
  co_writes :: "write_ans list list"
  co_sync :: bool
  co_rename :: bool
  co_unlink :: bool
  co_statAfter :: bool
  co_strerror :: string

definition kTempSuffix :: string where
  "kTempSuffix = ''.compact''"

fun find_last_of :: "char \<Rightarrow> string \<Rightarrow> nat option" where
  "find_last_of c [] = None"
| "find_last_of c (x # xs) =
     (case find_last_of c xs of Some i \<Rightarrow> Some (Suc i) | None \<Rightarrow> if x = c then Some 0 else None)"

definition directoryOf :: "string \<Rightarrow> string" where
  "directoryOf path =
     (case find_last_of (CHR ''/'') path of
        None \<Rightarrow> ''.''
      | Some slash \<Rightarrow> if slash = 0 then ''/'' else take slash path)"

definition fileSize :: "bool \<Rightarrow> logfile \<Rightarrow> nat" where
  "fileSize statOk lf = (if statOk then length (lf_bytes lf) else 0)"

fun writeEntries ::
  "write_ans list list \<Rightarrow> (string \<times> string) list \<Rightarrow> logfile \<Rightarrow> nat \<Rightarrow> bool \<times> nat \<times> logfile" where
  "writeEntries ass [] temp n = (True, n, temp)"
| "writeEntries ass (e # es) temp n =
     (let framed = frame (serialize (SetCommand (fst e) (snd e)));
          (sent, ok) = write_loop (case ass of [] \<Rightarrow> [] | as # _ \<Rightarrow> as) framed;
          temp' = lf_append sent temp
      in if ok then writeEntries (tl ass) es temp' (n + 1) else (False, n, temp'))"

text \<open>\<open>unlink\<close> of the temporary file; its result is ignored.\<close>

definition unlinkTemp :: "compact_io \<Rightarrow> storage \<Rightarrow> storage" where
  "unlinkTemp io st = (if co_unlink io then st\<lparr>st_temp := None\<rparr> else st)"

text \<open>
  \<open>Compactor::rewrite\<close>, with every state of the two files it goes through, in order; the
  last one is the state it leaves.
\<close>

definition rewrite :: "compact_io \<Rightarrow> (string \<times> string) list \<Rightarrow> storage \<Rightarrow> compaction_result \<times> storage list" where
  "rewrite io entries st =
     (let result = \<lparr>cr_ok = False, cr_recordsWritten = 0, cr_bytesBefore = fileSize (co_statBefore io) (st_log st),
                    cr_bytesAfter = 0, cr_error = []\<rparr>
      in if \<not> co_open io then
           (result\<lparr>cr_error := ''open(compact) failed: '' @ co_strerror io\<rparr>, [st])
         else let st1 = st\<lparr>st_temp := Some \<lparr>lf_bytes = [], lf_durable = []\<rparr>\<rparr>;
                  (ok, n, temp) = writeEntries (co_writes io) entries \<lparr>lf_bytes = [], lf_durable = []\<rparr> 0;
                  st2 = st1\<lparr>st_temp := Some temp\<rparr>;
                  result2 = result\<lparr>cr_recordsWritten := n\<rparr>
           in if \<not> ok then
                (result2\<lparr>cr_error := ''write(compact) failed: '' @ co_strerror io\<rparr>,
                 [st, st1, st2, unlinkTemp io st2])
              else if \<not> co_sync io then
                (result2\<lparr>cr_error := ''fsync(compact) failed: '' @ co_strerror io\<rparr>,
                 [st, st1, st2, unlinkTemp io st2])
              else let st3 = st2\<lparr>st_temp := Some (lf_sync temp)\<rparr>
                in if \<not> co_rename io then
                     (result2\<lparr>cr_error := ''rename(compact) failed: '' @ co_strerror io\<rparr>,
                      [st, st1, st2, st3, unlinkTemp io st3])
                   else let st4 = \<lparr>st_log = lf_sync temp, st_temp = None\<rparr>
                     in (result2\<lparr>cr_bytesAfter := fileSize (co_statAfter io) (st_log st4), cr_ok := True\<rparr>,
                         [st, st1, st2, st3, st4]))"


subsection \<open>What a compaction leaves\<close>

text \<open>The payloads of a compacted log.\<close>

definition snapshot_payloads :: "(string \<times> string) list \<Rightarrow> string list" where
  "snapshot_payloads entries = map (\<lambda>(k, v). serialize (SetCommand k v)) entries"

lemma snapshot_payloads_simps [simp]:
  "snapshot_payloads [] = []"
  "snapshot_payloads (e # es) = serialize (SetCommand (fst e) (snd e)) # snapshot_payloads es"
  by (simp_all add: snapshot_payloads_def split_beta)

lemma writeEntries_ok:
  "fst (writeEntries ass es temp n) \<Longrightarrow>
   writeEntries ass es temp n = (True, n + length es, lf_append (log_of (snapshot_payloads es)) temp)"
proof (induction ass es temp n rule: writeEntries.induct)
  case (1 ass temp n)
  then show ?case by (simp add: lf_append_def)
next
  case (2 ass e es temp n)
  let ?as = "case ass of [] \<Rightarrow> [] | as # _ \<Rightarrow> as"
  let ?f = "frame (serialize (SetCommand (fst e) (snd e)))"
  have ok: "snd (write_loop ?as ?f)" using "2.prems" by (auto simp: split_beta Let_def split: if_splits)
  have sent: "write_loop ?as ?f = (?f, True)"
    using ok write_loop_ok[OF ok] by (metis prod.collapse)
  with "2.prems" "2.IH"[OF refl sent[symmetric] refl refl] show ?case
    by (simp add: lf_append_def del: serialize.simps)
qed

lemma writeEntries_no_error:
  "\<forall>as \<in> set ass. WErr \<notin> set as \<Longrightarrow> fst (writeEntries ass es temp n)"
proof (induction ass es temp n rule: writeEntries.induct)
  case (2 ass e es temp n)
  let ?as = "case ass of [] \<Rightarrow> [] | as # _ \<Rightarrow> as"
  let ?f = "frame (serialize (SetCommand (fst e) (snd e)))"
  have sent: "write_loop ?as ?f = (?f, True)"
    using "2.prems" by (intro write_loop_no_error) (auto split: list.split)
  have "\<forall>as \<in> set (tl ass). WErr \<notin> set as" using "2.prems" by (cases ass) auto
  with "2.IH"[OF refl sent[symmetric] refl refl] sent show ?case
    by (simp del: serialize.simps)
qed simp

text \<open>A compaction none of whose system calls fails.\<close>

definition co_fine :: "compact_io \<Rightarrow> bool" where
  "co_fine io \<longleftrightarrow> co_statBefore io \<and> co_open io \<and> (\<forall>as \<in> set (co_writes io). WErr \<notin> set as) \<and>
     co_sync io \<and> co_rename io \<and> co_statAfter io"

lemma rewrite_ok:
  assumes "cr_ok (fst (rewrite io es st))"
  shows "last (snd (rewrite io es st)) =
      \<lparr>st_log = \<lparr>lf_bytes = log_of (snapshot_payloads es), lf_durable = log_of (snapshot_payloads es)\<rparr>,
       st_temp = None\<rparr>"
    and "cr_recordsWritten (fst (rewrite io es st)) = length es"
proof -
  let ?w = "writeEntries (co_writes io) es \<lparr>lf_bytes = [], lf_durable = []\<rparr> 0"
  have "fst ?w" using assms by (auto simp: rewrite_def split_beta Let_def split: if_splits)
  then have w: "?w = (True, length es, \<lparr>lf_bytes = log_of (snapshot_payloads es), lf_durable = []\<rparr>)"
    using writeEntries_ok[of "co_writes io" es "\<lparr>lf_bytes = [], lf_durable = []\<rparr>" 0]
    by (simp add: lf_append_def)
  with assms show "last (snd (rewrite io es st)) =
      \<lparr>st_log = \<lparr>lf_bytes = log_of (snapshot_payloads es), lf_durable = log_of (snapshot_payloads es)\<rparr>,
       st_temp = None\<rparr>" and "cr_recordsWritten (fst (rewrite io es st)) = length es"
    by (auto simp: rewrite_def lf_sync_def Let_def split: if_splits)
qed

lemma rewrite_error:
  "\<not> cr_ok (fst (rewrite io es st)) \<Longrightarrow> st_log (last (snd (rewrite io es st))) = st_log st"
  by (auto simp: rewrite_def unlinkTemp_def split_beta Let_def split: if_splits)

lemma rewrite_fine: "co_fine io \<Longrightarrow> cr_ok (fst (rewrite io es st))"
  using writeEntries_no_error[of "co_writes io" es "\<lparr>lf_bytes = [], lf_durable = []\<rparr>" 0]
  by (simp add: rewrite_def co_fine_def split_beta Let_def)

text \<open>At every moment the log is the old one, or the complete new one on the disk.\<close>

lemma rewrite_atomic:
  assumes "st' \<in> set (snd (rewrite io es st))"
  shows "st_log st' = st_log st \<or>
     st_log st' = \<lparr>lf_bytes = log_of (snapshot_payloads es), lf_durable = log_of (snapshot_payloads es)\<rparr>"
proof (cases "cr_ok (fst (rewrite io es st)) \<and> st' = last (snd (rewrite io es st))")
  case True
  then show ?thesis using rewrite_ok(1)[of io es st] by simp
next
  case False
  with assms show ?thesis
    by (auto simp: rewrite_def unlinkTemp_def split_beta Let_def split: if_splits)
qed



subsection \<open>Properties\<close>

text \<open>
  Compaction is all or nothing: when it reports success the log is exactly one \<open>SET\<close> record
  per entry, complete on the disk, and no temporary file is left; when it reports failure the
  log is untouched.
\<close>

theorem compaction_all_or_nothing:
  "let (result, states) = rewrite io es st in
     if cr_ok result
     then st_log (last states) = \<lparr>lf_bytes = log_of (snapshot_payloads es), lf_durable = log_of (snapshot_payloads es)\<rparr> \<and>
          st_temp (last states) = None \<and> cr_recordsWritten result = length es
     else st_log (last states) = st_log st \<and> cr_error result \<noteq> []"
proof (cases "cr_ok (fst (rewrite io es st))")
  case True
  with rewrite_ok[OF True] show ?thesis by (simp add: split_beta)
next
  case False
  have "cr_error (fst (rewrite io es st)) \<noteq> []"
    using False by (auto simp: rewrite_def split_beta Let_def split: if_splits)
  with False rewrite_error[OF False] show ?thesis by (simp add: split_beta)
qed

text \<open>
  At every moment of a compaction, whichever of its system calls fails, the log is either
  the old file or the complete new one with all of it on the disk.
\<close>

theorem compaction_atomic:
  assumes "st' \<in> set (snd (rewrite io es st))"
  shows "st_log st' = st_log st \<or>
     st_log st' = \<lparr>lf_bytes = log_of (snapshot_payloads es), lf_durable = log_of (snapshot_payloads es)\<rparr>"
  by (rule rewrite_atomic[OF assms])

theorem compaction_atomic_witness:
  "st_log (last (snd (rewrite \<lparr>co_statBefore = True, co_open = True, co_writes = [[WOk 4]], co_sync = True,
       co_rename = True, co_unlink = True, co_statAfter = True, co_strerror = []\<rparr>
       [(''a'', ''1'')] \<lparr>st_log = \<lparr>lf_bytes = ''old'', lf_durable = []\<rparr>, st_temp = None\<rparr>)))
     \<in> {\<lparr>lf_bytes = ''old'', lf_durable = []\<rparr>,
        \<lparr>lf_bytes = log_of (snapshot_payloads [(''a'', ''1'')]),
         lf_durable = log_of (snapshot_payloads [(''a'', ''1'')])\<rparr>}"
proof -
  let ?io = "\<lparr>co_statBefore = True, co_open = True, co_writes = [[WOk 4]], co_sync = True,
       co_rename = True, co_unlink = True, co_statAfter = True, co_strerror = []\<rparr>"
  let ?rw = "rewrite ?io [(''a'', ''1'')] \<lparr>st_log = \<lparr>lf_bytes = ''old'', lf_durable = []\<rparr>, st_temp = None\<rparr>"
  have "snd ?rw \<noteq> []" by (simp add: rewrite_def split_beta Let_def)
  then have "last (snd ?rw) \<in> set (snd ?rw)" by (rule last_in_set)
  from compaction_atomic[OF this] show ?thesis by simp
qed

end
