(* ===== verification/Eviction.thy ===== *)
theory Eviction
  imports Prelude
begin

text \<open>
  The eviction policy, \<open>src/src/store/eviction_policy.h\<close> and \<open>lru_policy.cpp\<close>.  The abstract
  class is the locale \<open>eviction_policy\<close>: its virtual members, and the laws a client of the
  interface may use, stated over the list of tracked keys with their sizes, most recently
  used first.  \<open>LruPolicy\<close> is the record \<open>lru\<close> with one function per member, and interprets
  the locale.
\<close>

subsection \<open>LruPolicy\<close>

text \<open>
  \<open>recency\<close> is the \<open>std::list\<close>, front first; \<open>index\<close> the hash map to \<open>Entry\<close>.  An entry's
  iterator designates the node of its own key, and a key has at most one node, so
  \<open>splice\<close> and \<open>erase\<close> of a node are \<^const>\<open>remove1\<close> of the key.  \<open>bytes\<close> is a
  \<open>size_t\<close> and wraps.
\<close>

record lru =
  recency :: "string list"
  index :: "(string, u64) umap"
  lru_bytes :: u64

definition lru_empty :: lru where
  "lru_empty = \<lparr>recency = [], index = [], lru_bytes = 0\<rparr>"

definition onAccess :: "string \<Rightarrow> lru \<Rightarrow> lru" where
  "onAccess k p =
     (case map_of (index p) k of
        None \<Rightarrow> p
      | Some e \<Rightarrow> p\<lparr>recency := k # remove1 k (recency p)\<rparr>)"

definition onInsert :: "string \<Rightarrow> u64 \<Rightarrow> lru \<Rightarrow> lru" where
  "onInsert k n p =
     (case map_of (index p) k of
        Some e \<Rightarrow> p\<lparr>lru_bytes := (lru_bytes p - e) + n,
                    index := AList.update k n (index p),
                    recency := k # remove1 k (recency p)\<rparr>
      | None \<Rightarrow> p\<lparr>recency := k # recency p,
                  index := AList.update k n (index p),
                  lru_bytes := lru_bytes p + n\<rparr>)"

definition onErase :: "string \<Rightarrow> lru \<Rightarrow> lru" where
  "onErase k p =
     (case map_of (index p) k of
        None \<Rightarrow> p
      | Some e \<Rightarrow> p\<lparr>lru_bytes := lru_bytes p - e,
                    recency := remove1 k (recency p),
                    index := AList.delete k (index p)\<rparr>)"

text \<open>\<open>evict\<close> returns \<^const>\<open>None\<close> for \<open>false\<close>, else the victim.\<close>

definition evict :: "lru \<Rightarrow> (string \<times> lru) option" where
  "evict p =
     (if recency p = [] then None
      else let victim = last (recency p);
               p' = p\<lparr>recency := butlast (recency p)\<rparr>
        in Some (victim,
             case map_of (index p') victim of
               None \<Rightarrow> p'
             | Some e \<Rightarrow> p'\<lparr>lru_bytes := lru_bytes p' - e,
                            index := AList.delete victim (index p')\<rparr>))"

definition lru_entries :: "lru \<Rightarrow> nat" where
  "lru_entries p = length (index p)"


subsection \<open>The interface\<close>

locale eviction_policy =
  fixes p_empty :: 'p
    and p_access :: "string \<Rightarrow> 'p \<Rightarrow> 'p"
    and p_insert :: "string \<Rightarrow> u64 \<Rightarrow> 'p \<Rightarrow> 'p"
    and p_erase :: "string \<Rightarrow> 'p \<Rightarrow> 'p"
    and p_evict :: "'p \<Rightarrow> (string \<times> 'p) option"
    and p_bytes :: "'p \<Rightarrow> u64"
    and p_entries :: "'p \<Rightarrow> nat"
    and order :: "'p \<Rightarrow> (string \<times> u64) list"
    and invar :: "'p \<Rightarrow> bool"
  assumes invar_empty: "invar p_empty"
    and invar_access: "invar p \<Longrightarrow> invar (p_access k p)"
    and invar_insert: "invar p \<Longrightarrow> invar (p_insert k n p)"
    and invar_erase: "invar p \<Longrightarrow> invar (p_erase k p)"
    and invar_evict: "invar p \<Longrightarrow> p_evict p = Some (k, p') \<Longrightarrow> invar p'"
    and order_distinct: "invar p \<Longrightarrow> um_wf (order p)"
    and order_empty: "order p_empty = []"
    and order_access: "invar p \<Longrightarrow> order (p_access k p) =
          (case map_of (order p) k of None \<Rightarrow> order p | Some n \<Rightarrow> (k, n) # AList.delete k (order p))"
    and order_insert: "invar p \<Longrightarrow> order (p_insert k n p) = (k, n) # AList.delete k (order p)"
    and order_erase: "invar p \<Longrightarrow> order (p_erase k p) = AList.delete k (order p)"
    and evict_empty: "invar p \<Longrightarrow> p_evict p = None \<longleftrightarrow> order p = []"
    and evict_victim: "invar p \<Longrightarrow> p_evict p = Some (k, p') \<Longrightarrow> k = fst (last (order p))"
    and order_evict: "invar p \<Longrightarrow> p_evict p = Some (k, p') \<Longrightarrow> order p' = butlast (order p)"
    and bytes_order: "invar p \<Longrightarrow> p_bytes p = sum_list (map snd (order p))"
    and entries_order: "invar p \<Longrightarrow> p_entries p = length (order p)"
begin

lemma keys_access: "invar p \<Longrightarrow> fst ` set (order (p_access k p)) = fst ` set (order p)"
  by (auto simp: order_access um_keys_delete map_of_eq_None_iff split: option.split
      dest!: map_of_SomeD intro: rev_image_eqI)

lemma lookup_access: "invar p \<Longrightarrow> map_of (order (p_access k p)) = map_of (order p)"
  by (auto simp: order_access fun_eq_iff split: option.split)

lemma lookup_insert: "invar p \<Longrightarrow> map_of (order (p_insert k n p)) = (map_of (order p))(k \<mapsto> n)"
  by (auto simp: order_insert fun_eq_iff)

lemma lookup_erase: "invar p \<Longrightarrow> map_of (order (p_erase k p)) = (map_of (order p))(k := None)"
  by (simp add: order_erase)

lemma lookup_evict:
  assumes "invar p" and "p_evict p = Some (k, p')"
  shows "map_of (order p') = (map_of (order p))(k := None)" and "k \<in> fst ` set (order p)"
proof -
  have ne: "order p \<noteq> []" using assms evict_empty by fastforce
  then have split: "order p = butlast (order p) @ [last (order p)]" by simp
  have k: "fst (last (order p)) = k" using assms evict_victim by simp
  show "k \<in> fst ` set (order p)" using ne k last_in_set by blast
  have "k \<notin> fst ` set (butlast (order p))"
    using order_distinct[OF assms(1)] k by (subst (asm) split) auto
  moreover have "map_of (order p) = map_of (butlast (order p) @ [last (order p)])"
    using split by simp
  ultimately show "map_of (order p') = (map_of (order p))(k := None)"
    using k assms order_evict[OF assms]
    by (cases "last (order p)") (auto simp: fun_eq_iff map_add_def map_of_eq_None_iff split: option.split)
qed

lemma keys_insert:
  "invar p \<Longrightarrow> map fst (order (p_insert k n p)) = k # filter (\<lambda>x. x \<noteq> k) (map fst (order p))"
  by (simp add: order_insert map_fst_delete)

lemma keys_erase:
  "invar p \<Longrightarrow> map fst (order (p_erase k p)) = filter (\<lambda>x. x \<noteq> k) (map fst (order p))"
  by (simp add: order_erase map_fst_delete)

lemma keys_access_list:
  "invar p \<Longrightarrow> map fst (order (p_access k p)) =
     (if k \<in> set (map fst (order p)) then k # filter (\<lambda>x. x \<noteq> k) (map fst (order p))
      else map fst (order p))"
  by (auto simp: order_access map_fst_delete map_of_eq_None_iff split: option.split
      dest!: map_of_SomeD intro: rev_image_eqI)

end


subsection \<open>LruPolicy implements the interface\<close>

definition lru_inv :: "lru \<Rightarrow> bool" where
  "lru_inv p \<longleftrightarrow> distinct (recency p) \<and> um_wf (index p) \<and>
     set (recency p) = fst ` set (index p) \<and> lru_bytes p = sum_list (map snd (index p))"

definition lru_order :: "lru \<Rightarrow> (string \<times> u64) list" where
  "lru_order p = map (\<lambda>k. (k, the (map_of (index p) k))) (recency p)"

lemma lru_order_keys [simp]: "map fst (lru_order p) = recency p"
  by (simp add: lru_order_def o_def)

lemma lru_lookup: "lru_inv p \<Longrightarrow> map_of (lru_order p) = map_of (index p)"
proof
  fix k assume inv: "lru_inv p"
  show "map_of (lru_order p) k = map_of (index p) k"
  proof (cases "map_of (index p) k")
    case None
    with inv have "k \<notin> set (recency p)" by (simp add: lru_inv_def map_of_eq_None_iff)
    with None show ?thesis by (simp add: lru_order_def map_of_map_restrict)
  next
    case (Some n)
    with inv have "k \<in> set (recency p)"
      unfolding lru_inv_def by (metis map_of_SomeD image_eqI fst_conv)
    with inv Some show ?thesis
      by (auto simp: lru_order_def lru_inv_def map_of_map_restrict o_def)
  qed
qed

lemma lru_inv_mem: "lru_inv p \<Longrightarrow> k \<in> set (recency p) \<longleftrightarrow> map_of (index p) k \<noteq> None"
  by (simp add: lru_inv_def map_of_eq_None_iff)

lemma lru_bytes_order: "lru_inv p \<Longrightarrow> lru_bytes p = sum_list (map snd (lru_order p))"
proof -
  assume inv: "lru_inv p"
  let ?f = "\<lambda>k. the (map_of (index p) k)"
  have "map snd (index p) = map ?f (map fst (index p))"
    using inv by (auto simp: lru_inv_def)
  then have "lru_bytes p = sum ?f (fst ` set (index p))"
    using inv by (simp add: lru_inv_def sum_list_distinct_conv_sum_set del: map_map)
  also have "\<dots> = sum_list (map ?f (recency p))"
    using inv by (simp add: lru_inv_def sum_list_distinct_conv_sum_set)
  finally show ?thesis by (simp add: lru_order_def o_def)
qed

lemma lru_inv_onAccess: "lru_inv p \<Longrightarrow> lru_inv (onAccess k p)"
  by (auto simp: lru_inv_mem onAccess_def lru_inv_def split: option.split dest: map_of_SomeD
      intro: rev_image_eqI)

lemma lru_inv_onInsert: "lru_inv p \<Longrightarrow> lru_inv (onInsert k n p)"
  by (auto simp: onInsert_def lru_inv_def um_keys_update um_sum_update_new um_sum_update_old
      map_of_eq_None_iff split: option.split)

lemma lru_inv_onErase: "lru_inv p \<Longrightarrow> lru_inv (onErase k p)"
  by (auto simp: onErase_def lru_inv_def um_keys_delete um_sum_delete split: option.split)


lemma evict_Some:
  assumes "lru_inv p" and "evict p = Some (k, p')"
  shows "recency p = recency p' @ [k]" and "lru_inv p'"
    and "index p' = AList.delete k (index p)"
proof -
  from assms(2) have ne: "recency p \<noteq> []" and k: "k = last (recency p)"
    by (auto simp: evict_def Let_def split: if_splits)
  then have "k \<in> set (recency p)" by simp
  with assms(1) obtain e where e: "map_of (index p) k = Some e" by (auto simp: lru_inv_mem)
  have p': "p' = p\<lparr>recency := butlast (recency p), lru_bytes := lru_bytes p - e,
                   index := AList.delete k (index p)\<rparr>"
    using assms(2) ne k e by (auto simp: evict_def Let_def)
  show rec: "recency p = recency p' @ [k]" using ne k p' by simp
  show "index p' = AList.delete k (index p)" using p' by simp
  have "distinct (recency p' @ [k])" "set (recency p' @ [k]) = fst ` set (index p)"
    using assms(1) rec by (auto simp: lru_inv_def)
  then show "lru_inv p'"
    using assms(1) p' e by (auto simp: lru_inv_def um_keys_delete um_sum_delete)
qed

lemma remove1_filter: "distinct xs \<Longrightarrow> remove1 k xs = filter (\<lambda>x. x \<noteq> k) xs"
  by (induction xs) (auto intro!: filter_True[symmetric])

lemma delete_map_pair:
  "AList.delete k (map (\<lambda>x. (x, f x)) xs) = map (\<lambda>x. (x, f x)) (filter (\<lambda>x. x \<noteq> k) xs)"
  by (induction xs) auto

lemma lru_order_onAccess:
  assumes "lru_inv p"
  shows "lru_order (onAccess k p) =
     (case map_of (lru_order p) k of
        None \<Rightarrow> lru_order p | Some n \<Rightarrow> (k, n) # AList.delete k (lru_order p))"
  unfolding lru_lookup[OF assms]
  using assms
  by (auto simp: onAccess_def lru_order_def delete_map_pair remove1_filter lru_inv_def
      split: option.split)

lemma lru_order_onInsert:
  assumes "lru_inv p"
  shows "lru_order (onInsert k n p) = (k, n) # AList.delete k (lru_order p)"
proof -
  have "recency (onInsert k n p) = k # filter (\<lambda>x. x \<noteq> k) (recency p)"
  proof (cases "map_of (index p) k")
    case None
    with assms have "k \<notin> set (recency p)" by (simp add: lru_inv_mem)
    then have "filter (\<lambda>x. x \<noteq> k) (recency p) = recency p" by (auto intro: filter_True)
    with None show ?thesis by (simp add: onInsert_def)
  next
    case (Some e)
    with assms show ?thesis by (simp add: onInsert_def lru_inv_def remove1_filter)
  qed
  moreover have "map_of (index (onInsert k n p)) = (map_of (index p))(k \<mapsto> n)"
    by (simp add: onInsert_def split: option.split)
  ultimately show ?thesis
    by (auto simp: lru_order_def delete_map_pair)
qed

lemma lru_order_onErase:
  assumes "lru_inv p"
  shows "lru_order (onErase k p) = AList.delete k (lru_order p)"
proof (cases "map_of (index p) k")
  case None
  with assms have "map_of (lru_order p) k = None" by (simp add: lru_lookup)
  with None show ?thesis by (simp add: onErase_def um_erase_absent)
next
  case (Some e)
  with assms have "recency (onErase k p) = filter (\<lambda>x. x \<noteq> k) (recency p)"
    "map_of (index (onErase k p)) = (map_of (index p))(k := None)"
    by (simp_all add: onErase_def lru_inv_def remove1_filter)
  then show ?thesis
    by (auto simp: lru_order_def delete_map_pair)
qed

lemma lru_order_evict:
  assumes "lru_inv p" and "evict p = Some (k, p')"
  shows "lru_order p' = butlast (lru_order p)" and "k = fst (last (lru_order p))"
proof -
  note ev = evict_Some[OF assms]
  have "k \<notin> set (recency p')" using assms(1) ev(1) by (auto simp: lru_inv_def)
  then show "lru_order p' = butlast (lru_order p)"
    using ev(1,3) by (auto simp: lru_order_def)
  show "k = fst (last (lru_order p))"
    using ev(1) by (simp add: lru_order_def)
qed

lemma evict_None: "evict p = None \<longleftrightarrow> lru_order p = []"
  by (simp add: evict_def lru_order_def Let_def)

interpretation lru: eviction_policy lru_empty onAccess onInsert onErase evict lru_bytes lru_entries
  lru_order lru_inv
proof unfold_locales
  fix p k n p'
  show "lru_inv lru_empty" by (simp add: lru_inv_def lru_empty_def)
  show "lru_order lru_empty = []" by (simp add: lru_order_def lru_empty_def)
  assume inv: "lru_inv p"
  show "um_wf (lru_order p)" using inv by (simp add: lru_inv_def)
  show "lru_entries p = length (lru_order p)"
  proof -
    have "card (set (recency p)) = card (fst ` set (index p))" using inv by (simp add: lru_inv_def)
    moreover have "card (set (map fst (index p))) = length (index p)"
      using inv by (metis distinct_card length_map lru_inv_def)
    moreover have "card (set (recency p)) = length (recency p)"
      using inv by (metis distinct_card lru_inv_def)
    ultimately show ?thesis by (simp add: lru_entries_def lru_order_def)
  qed
qed (auto simp: lru_inv_onAccess lru_inv_onInsert lru_inv_onErase lru_order_onAccess
    lru_order_onInsert lru_order_onErase evict_None lru_order_evict lru_bytes_order
    dest: evict_Some)


subsection \<open>Least recently used\<close>

text \<open>
  A history of calls, and the keys it touches, oldest first: an insertion touches its key,
  an access touches it if it is tracked, and an erasure forgets it.
\<close>

datatype policy_op = Access string | Insert string u64 | Erase string

fun policy_step :: "lru \<Rightarrow> policy_op \<Rightarrow> lru" where
  "policy_step p (Access k) = onAccess k p"
| "policy_step p (Insert k n) = onInsert k n p"
| "policy_step p (Erase k) = onErase k p"

fun touch :: "string list \<Rightarrow> policy_op \<Rightarrow> string list" where
  "touch ts (Access k) = (if k \<in> set ts then ts @ [k] else ts)"
| "touch ts (Insert k n) = ts @ [k]"
| "touch ts (Erase k) = filter (\<lambda>x. x \<noteq> k) ts"

lemma remdups_snoc: "remdups (xs @ [x]) = filter (\<lambda>y. y \<noteq> x) (remdups xs) @ [x]"
  by (induction xs) auto

lemma policy_step_keys:
  assumes "lru_inv p" and "recency p = rev (remdups ts)"
  shows "lru_inv (policy_step p a) \<and> recency (policy_step p a) = rev (remdups (touch ts a))"
proof (cases a)
  case (Access k)
  with assms show ?thesis
    using lru.keys_access_list[OF assms(1), of k] lru_inv_onAccess[OF assms(1), of k]
    by (simp add: remdups_snoc rev_filter)
next
  case (Insert k n)
  with assms show ?thesis
    using lru.keys_insert[OF assms(1), of k n] lru_inv_onInsert[OF assms(1), of k n]
    by (simp add: remdups_snoc rev_filter)
next
  case (Erase k)
  with assms show ?thesis
    using lru.keys_erase[OF assms(1), of k] lru_inv_onErase[OF assms(1), of k]
    by (simp add: remdups_filter rev_filter)
qed

lemma policy_run_keys:
  "lru_inv p \<Longrightarrow> recency p = rev (remdups ts) \<Longrightarrow>
   lru_inv (foldl policy_step p h) \<and>
   recency (foldl policy_step p h) = rev (remdups (foldl touch ts h))"
  by (induction h arbitrary: p ts) (simp_all add: policy_step_keys)



subsection \<open>Properties\<close>


end
