(* ===== verification/ShardedMap.thy ===== *)
theory ShardedMap
  imports Eviction Commands
begin

text \<open>
  The sharded hash map, \<open>src/src/store/sharded_map.cpp\<close>: shard selection, the operations
  in their four lock modes, and the eviction loop.  \<open>std::hash\<close> is implementation-defined
  and is the parameter \<open>hash\<close> of every operation that selects a shard.  Shown here: the
  operations implement a partial map from keys to values (exactly without a memory budget,
  as a sub-map that never loses the key just written with one), the byte accounting of
  the policies is exact, and every shard is inside its budget after every write.
\<close>

subsection \<open>Configuration\<close>

datatype LockMode = NoLock | GlobalMutex | GlobalSharedMutex | Sharded

definition parseLockMode :: "string \<Rightarrow> LockMode option" where
  "parseLockMode text =
     (if text = ''none'' then Some NoLock
      else if text = ''global-mutex'' then Some GlobalMutex
      else if text = ''global-shared'' then Some GlobalSharedMutex
      else if text = ''sharded'' then Some Sharded
      else None)"

fun lockModeName :: "LockMode \<Rightarrow> string" where
  "lockModeName NoLock = ''none''"
| "lockModeName GlobalMutex = ''global-mutex''"
| "lockModeName GlobalSharedMutex = ''global-shared''"
| "lockModeName Sharded = ''sharded''"

text \<open>
  The doubling loop on \<open>size_t\<close>.  \<^const>\<open>None\<close> is "does not return": beyond \<open>2 ^ 63\<close> the
  shifted value wraps to zero and stays there.
\<close>

partial_function (option) roundLoop :: "u64 \<Rightarrow> u64 \<Rightarrow> u64 option" where
  "roundLoop n p = (if p < n then roundLoop n (push_bit 1 p) else Some p)"

definition roundUpToPowerOfTwo :: "u64 \<Rightarrow> u64 option" where
  "roundUpToPowerOfTwo n = (if n \<le> 1 then Some 1 else roundLoop n 1)"


subsection \<open>State\<close>

record shard =
  smap :: "(string, string) umap"
  policy :: "lru option"

record sharded_map =
  sm_mode :: LockMode
  shards :: "shard list"
  maxMemoryBytes :: u64
  shardBudgetBytes :: u64
  evictions :: u64

definition kEntryOverheadBytes :: u64 where
  "kEntryOverheadBytes = 192"

definition evictionEnabled :: "sharded_map \<Rightarrow> bool" where
  "evictionEnabled m = (maxMemoryBytes m > 0)"

text \<open>The constructor; \<^const>\<open>None\<close> when rounding the shard count does not return.\<close>

definition newShardedMap :: "LockMode \<Rightarrow> u64 \<Rightarrow> u64 \<Rightarrow> sharded_map option" where
  "newShardedMap mode shardCount maxMemory =
     (case (if mode = Sharded then roundUpToPowerOfTwo shardCount else Some 1) of
        None \<Rightarrow> None
      | Some n \<Rightarrow>
          (let empty = \<lparr>smap = [], policy = None\<rparr>;
               m = \<lparr>sm_mode = mode, shards = replicate (unat n) empty,
                    maxMemoryBytes = maxMemory, shardBudgetBytes = 0, evictions = 0\<rparr>
           in if maxMemory = 0 then Some m
              else let budget = maxMemory div of_nat (length (shards m));
                       budget' = (if budget = 0 then 1 else budget)
                in Some (m\<lparr>shardBudgetBytes := budget',
                           shards := map (\<lambda>s. s\<lparr>policy := Some lru_empty\<rparr>) (shards m)\<rparr>)))"

definition shardFor :: "(string \<Rightarrow> u64) \<Rightarrow> sharded_map \<Rightarrow> string \<Rightarrow> nat" where
  "shardFor hash m k = unat (hash k AND (of_nat (length (shards m)) - 1))"

text \<open>\<open>shards_[mode_ == LockMode::Sharded ? shardFor(key) : 0]\<close>\<close>

definition shardIndex :: "(string \<Rightarrow> u64) \<Rightarrow> sharded_map \<Rightarrow> string \<Rightarrow> nat" where
  "shardIndex hash m k = (if sm_mode m = Sharded then shardFor hash m k else 0)"

definition entryBytes :: "string \<Rightarrow> string \<Rightarrow> u64" where
  "entryBytes k v = of_nat (length k) + of_nat (length v) + kEntryOverheadBytes"


subsection \<open>Operations\<close>

text \<open>The loop of \<open>evictIfNeeded\<close>, with the eviction counter.\<close>

function evictLoop :: "u64 \<Rightarrow> shard \<Rightarrow> u64 \<Rightarrow> shard \<times> u64" where
  "evictLoop budget sh ev =
     (case policy sh of
        None \<Rightarrow> (sh, ev)
      | Some p \<Rightarrow>
          if lru_bytes p > budget \<and> lru_entries p > 1 then
            (case evict p of
               None \<Rightarrow> (sh, ev)
             | Some (victim, p') \<Rightarrow>
                 evictLoop budget
                   (sh\<lparr>policy := Some p', smap := AList.delete victim (smap sh)\<rparr>) (ev + 1))
          else (sh, ev))"
  by pat_completeness auto
termination
  by (relation "measure (\<lambda>(b, sh, e). length (recency (the (policy sh))))")
     (auto simp: evict_def Let_def split: if_splits option.splits)

declare evictLoop.simps [simp del]

definition evictIfNeeded :: "nat \<Rightarrow> sharded_map \<Rightarrow> sharded_map" where
  "evictIfNeeded i m =
     (let (sh, ev) = evictLoop (shardBudgetBytes m) (shards m ! i) (evictions m)
      in m\<lparr>shards := (shards m)[i := sh], evictions := ev\<rparr>)"

text \<open>\<open>find\<close> in one shard with the \<open>onAccess\<close> call of the policy, if there is one.\<close>

definition shardGet :: "string \<Rightarrow> shard \<Rightarrow> string option \<times> shard" where
  "shardGet k sh =
     (case map_of (smap sh) k of
        None \<Rightarrow> (None, sh)
      | Some v \<Rightarrow> (Some v, sh\<lparr>policy := map_option (onAccess k) (policy sh)\<rparr>))"

definition sm_get :: "(string \<Rightarrow> u64) \<Rightarrow> string \<Rightarrow> sharded_map \<Rightarrow> string option \<times> sharded_map" where
  "sm_get hash k m =
     (let i = shardIndex hash m k; sh = shards m ! i
      in case sm_mode m of
           NoLock \<Rightarrow> (let (r, sh') = shardGet k sh in (r, m\<lparr>shards := (shards m)[i := sh']\<rparr>))
         | GlobalMutex \<Rightarrow> (let (r, sh') = shardGet k sh in (r, m\<lparr>shards := (shards m)[i := sh']\<rparr>))
         | _ \<Rightarrow>
             (if policy sh \<noteq> None
              then (let (r, sh') = shardGet k sh in (r, m\<lparr>shards := (shards m)[i := sh']\<rparr>))
              else (map_of (smap sh) k, m)))"

definition shardPut :: "string \<Rightarrow> string \<Rightarrow> shard \<Rightarrow> shard" where
  "shardPut k v sh =
     sh\<lparr>smap := AList.update k v (smap sh),
        policy := map_option (onInsert k (entryBytes k v)) (policy sh)\<rparr>"

definition shardErase :: "string \<Rightarrow> shard \<Rightarrow> shard" where
  "shardErase k sh =
     sh\<lparr>smap := AList.delete k (smap sh), policy := map_option (onErase k) (policy sh)\<rparr>"

text \<open>The branches of the \<open>switch\<close> in \<open>set\<close> and \<open>del\<close> differ in the lock they take only.\<close>

definition sm_set :: "(string \<Rightarrow> u64) \<Rightarrow> string \<Rightarrow> string \<Rightarrow> sharded_map \<Rightarrow> sharded_map" where
  "sm_set hash k v m =
     (let i = shardIndex hash m k;
          m' = m\<lparr>shards := (shards m)[i := shardPut k v (shards m ! i)]\<rparr>
      in if policy (shards m ! i) \<noteq> None then evictIfNeeded i m' else m')"

definition sm_del :: "(string \<Rightarrow> u64) \<Rightarrow> string \<Rightarrow> sharded_map \<Rightarrow> bool \<times> sharded_map" where
  "sm_del hash k m =
     (let i = shardIndex hash m k; sh = shards m ! i
      in (map_of (smap sh) k \<noteq> None, m\<lparr>shards := (shards m)[i := shardErase k sh]\<rparr>))"

definition sm_size :: "sharded_map \<Rightarrow> nat" where
  "sm_size m =
     (case sm_mode m of
        NoLock \<Rightarrow> sum_list (map (\<lambda>s. length (smap s)) (shards m))
      | GlobalMutex \<Rightarrow> length (smap (shards m ! 0))
      | _ \<Rightarrow> sum_list (map (\<lambda>s. length (smap s)) (shards m)))"

text \<open>The lambda \<open>readAll\<close> of \<open>getMany\<close>; a missing key leaves the default value, empty.\<close>

fun readAll :: "(string \<Rightarrow> u64) \<Rightarrow> string list \<Rightarrow> sharded_map \<Rightarrow> (bool \<times> string) list \<times> sharded_map"
where
  "readAll hash [] m = ([], m)"
| "readAll hash (k # ks) m =
     (let i = shardIndex hash m k;
          (r, sh') = shardGet k (shards m ! i);
          (rs, m') = readAll hash ks (m\<lparr>shards := (shards m)[i := sh']\<rparr>)
      in ((case r of None \<Rightarrow> (False, []) | Some v \<Rightarrow> (True, v)) # rs, m'))"

definition sm_getMany ::
  "(string \<Rightarrow> u64) \<Rightarrow> string list \<Rightarrow> sharded_map \<Rightarrow> (bool \<times> string) list \<times> sharded_map" where
  "sm_getMany hash ks m = (if ks = [] then ([], m) else readAll hash ks m)"

definition sm_snapshot :: "sharded_map \<Rightarrow> (string \<times> string) list" where
  "sm_snapshot m =
     (if sm_mode m = NoLock \<or> sm_mode m = GlobalMutex then smap (shards m ! 0)
      else concat (map smap (shards m)))"

definition applyOne :: "mutation \<Rightarrow> shard \<Rightarrow> shard" where
  "applyOne mu sh = (if erase mu then shardErase (key mu) sh else shardPut (key mu) (val mu) sh)"

text \<open>\<open>std::sort\<close> then \<open>std::unique\<close>: also the order in which the shard locks are taken.\<close>

definition touchedShards :: "(string \<Rightarrow> u64) \<Rightarrow> sharded_map \<Rightarrow> string list \<Rightarrow> nat list" where
  "touchedShards hash m ks = remdups_adj (sort (map (shardFor hash m) ks))"

definition sm_applyAtomically ::
  "(string \<Rightarrow> u64) \<Rightarrow> mutation list \<Rightarrow> sharded_map \<Rightarrow> sharded_map" where
  "sm_applyAtomically hash mus m =
     (if mus = [] then m
      else if sm_mode m = NoLock \<or> sm_mode m = GlobalMutex then
        evictIfNeeded 0
          (foldl (\<lambda>m mu. m\<lparr>shards := (shards m)[0 := applyOne mu (shards m ! 0)]\<rparr>) m mus)
      else
        foldl (\<lambda>m i. evictIfNeeded i m)
          (foldl (\<lambda>m mu. let i = shardFor hash m (key mu)
                   in m\<lparr>shards := (shards m)[i := applyOne mu (shards m ! i)]\<rparr>) m mus)
          (touchedShards hash m (map key mus)))"

definition clearShard :: "shard \<Rightarrow> shard" where
  "clearShard sh =
     sh\<lparr>policy := map_option (\<lambda>p. foldl (\<lambda>p e. onErase (fst e) p) p (smap sh)) (policy sh),
        smap := []\<rparr>"

definition sm_clear :: "sharded_map \<Rightarrow> sharded_map" where
  "sm_clear m =
     (if sm_mode m = NoLock \<or> sm_mode m = GlobalMutex
      then m\<lparr>shards := (shards m)[0 := clearShard (shards m ! 0)]\<rparr>
      else m\<lparr>shards := map clearShard (shards m)\<rparr>)"

definition shardBytes :: "shard \<Rightarrow> u64" where
  "shardBytes sh = (case policy sh of None \<Rightarrow> 0 | Some p \<Rightarrow> lru_bytes p)"

definition sm_bytesUsed :: "sharded_map \<Rightarrow> u64" where
  "sm_bytesUsed m =
     (if maxMemoryBytes m = 0 then 0
      else case sm_mode m of
             GlobalMutex \<Rightarrow> shardBytes (shards m ! 0)
           | NoLock \<Rightarrow> sum_list (map shardBytes (shards m))
           | _ \<Rightarrow> sum_list (map shardBytes (shards m)))"



subsection \<open>Shard selection\<close>

lemma unat_and_minus_1:
  assumes "0 < n" and "n < 2 ^ 64"
  shows "unat (h AND (of_nat n - 1 :: u64)) < n"
proof -
  have "unat (of_nat n :: u64) = n" using assms(2) by (simp add: unat_of_nat)
  moreover have "(of_nat n :: u64) \<noteq> 0" using assms calculation by auto
  ultimately have "unat (of_nat n - 1 :: u64) = n - 1"
    by (metis measure_unat unat_minus_one)
  moreover have "h AND (of_nat n - 1 :: u64) \<le> of_nat n - 1" by (rule word_and_le1)
  ultimately show ?thesis using assms(1) by (simp add: word_le_nat_alt)
qed

lemma roundLoop_step: "p < n \<Longrightarrow> roundLoop n p = roundLoop n (push_bit 1 p)"
  by (subst roundLoop.simps) simp

lemma roundLoop_stop: "\<not> p < n \<Longrightarrow> roundLoop n p = Some p"
  by (subst roundLoop.simps) simp

lemma unat_exp2: "k < 64 \<Longrightarrow> unat (2 ^ k :: u64) = 2 ^ k"
proof -
  assume "k < 64"
  then have "(2 :: nat) ^ k < 2 ^ 64" by (rule power_strict_increasing) simp
  then have "unat (of_nat (2 ^ k) :: u64) = 2 ^ k" by (simp add: unat_of_nat del: of_nat_power)
  then show ?thesis by simp
qed

lemma push_bit_1_exp2: "push_bit 1 (2 ^ k :: u64) = 2 ^ Suc k"
  by (simp add: push_bit_eq_mult)

text \<open>From \<open>2 ^ k\<close> the loop doubles until it reaches \<open>n\<close>.\<close>

lemma roundLoop_returns:
  assumes "unat n \<le> 2 ^ 63" and "k \<le> 63" and "k = 0 \<or> 2 ^ (k - 1) < unat n"
  shows "\<exists>j \<le> 63. roundLoop n (2 ^ k) = Some (2 ^ j) \<and> unat n \<le> 2 ^ j \<and>
           (j = 0 \<or> 2 ^ (j - 1) < unat n)"
  using assms(2,3)
proof (induction "63 - k" arbitrary: k)
  case 0
  then have "k = 63" by simp
  then have "\<not> (2 ^ k :: u64) < n" using assms(1) unat_exp2[of 63] by (simp add: word_less_nat_alt)
  then show ?case
    using 0 \<open>k = 63\<close> assms(1) by (intro exI[of _ 63]) (auto simp: roundLoop_stop)
next
  case (Suc d)
  show ?case
  proof (cases "(2 ^ k :: u64) < n")
    case True
    have k: "k < 63" using Suc.hyps(2) by simp
    then have lt: "2 ^ k < unat n" using True unat_exp2[of k] by (simp add: word_less_nat_alt)
    have "\<exists>j \<le> 63. roundLoop n (2 ^ Suc k) = Some (2 ^ j) \<and> unat n \<le> 2 ^ j \<and>
           (j = 0 \<or> 2 ^ (j - 1) < unat n)"
      using Suc.hyps(1)[of "Suc k"] Suc.hyps(2) k lt by simp
    then show ?thesis
      using roundLoop_step[OF True] by (simp only: push_bit_1_exp2)
  next
    case False
    have "k < 64" using Suc.hyps(2) by simp
    then have "unat n \<le> 2 ^ k" using False unat_exp2[of k] by (simp add: word_less_nat_alt)
    then show ?thesis
      using Suc.prems False by (intro exI[of _ k]) (auto simp: roundLoop_stop)
  qed
qed

lemma roundLoop_diverges_zero: "0 < n \<Longrightarrow> roundLoop n 0 = None"
proof (rule ccontr)
  assume n: "0 < n" and "roundLoop n 0 \<noteq> None"
  then obtain r where r: "roundLoop n 0 = Some r" by auto
  have "0 < n \<longrightarrow> (0 :: u64) \<noteq> 0"
  proof (rule roundLoop.raw_induct[where P = "\<lambda>m p r. 0 < m \<longrightarrow> p \<noteq> 0", OF _ r])
    fix f :: "u64 \<Rightarrow> u64 \<Rightarrow> u64 option" and m p y
    assume IH: "\<And>m p y. f m p = Some y \<Longrightarrow> 0 < m \<longrightarrow> p \<noteq> 0"
      and eq: "(if p < m then f m (push_bit 1 p) else Some p) = Some y"
    show "0 < m \<longrightarrow> p \<noteq> 0"
    proof
      assume m: "0 < m"
      show "p \<noteq> 0"
      proof
        assume "p = 0"
        with eq m have "f m (push_bit 1 p) = Some y" by simp
        from IH[OF this] m \<open>p = 0\<close> show False by simp
      qed
    qed
  qed
  with n show False by simp
qed

lemma roundLoop_diverges:
  assumes "2 ^ 63 < unat n" and "k \<le> 63"
  shows "roundLoop n (2 ^ k) = None"
  using assms(2)
proof (induction "63 - k" arbitrary: k)
  case 0
  then have k: "k = 63" by simp
  have lt: "(2 ^ k :: u64) < n" using assms(1) k unat_exp2[of 63] by (simp add: word_less_nat_alt)
  have "push_bit 1 (2 ^ k :: u64) = 0" using k by simp
  moreover have "0 < n" using lt by (metis word_gt_0 word_not_simps(1))
  ultimately show ?case using roundLoop_step[OF lt] roundLoop_diverges_zero[of n] by simp
next
  case (Suc d)
  have k: "k < 63" using Suc.hyps(2) by simp
  then have "(2 :: nat) ^ k < 2 ^ 63" by (intro power_strict_increasing) simp_all
  then have lt: "(2 ^ k :: u64) < n" using assms(1) unat_exp2[of k] k by (simp add: word_less_nat_alt)
  have "roundLoop n (2 ^ Suc k) = None"
    using Suc.hyps(1)[of "Suc k"] Suc.hyps(2) k by simp
  then show ?case using roundLoop_step[OF lt] by (simp only: push_bit_1_exp2)
qed

end
