(* ===== verification/MapInvariant.thy ===== *)
theory MapInvariant
  imports ShardedMap
begin

text \<open>
  The invariant of the sharded map and the effect of every operation on the partial map it
  stands for.
\<close>

subsection \<open>One shard\<close>

text \<open>
  The hash map has distinct keys and the policy, when there is one, tracks exactly the
  keys of the map, each with the bytes of its entry.
\<close>

definition shard_wf :: "shard \<Rightarrow> bool" where
  "shard_wf sh \<longleftrightarrow> um_wf (smap sh) \<and>
     (case policy sh of
        None \<Rightarrow> True
      | Some p \<Rightarrow> lru_inv p \<and>
          (\<forall>k. map_of (lru_order p) k = map_option (entryBytes k) (map_of (smap sh) k)))"

definition within_budget :: "u64 \<Rightarrow> shard \<Rightarrow> bool" where
  "within_budget budget sh \<longleftrightarrow>
     (case policy sh of None \<Rightarrow> True | Some p \<Rightarrow> lru_bytes p \<le> budget \<or> lru_entries p \<le> 1)"

lemma shard_wfD:
  assumes "shard_wf sh"
  shows "um_wf (smap sh)"
    and "policy sh = Some p \<Longrightarrow> lru_inv p"
    and "policy sh = Some p \<Longrightarrow> map_of (lru_order p) k = map_option (entryBytes k) (map_of (smap sh) k)"
  using assms by (auto simp: shard_wf_def)

lemma shard_wf_put: "shard_wf sh \<Longrightarrow> shard_wf (shardPut k v sh)"
  by (auto simp: shard_wf_def shardPut_def lru.lookup_insert lru_inv_onInsert split: option.splits)

lemma shard_wf_erase: "shard_wf sh \<Longrightarrow> shard_wf (shardErase k sh)"
  by (auto simp: shard_wf_def shardErase_def lru.lookup_erase lru_inv_onErase split: option.splits)

lemma shard_wf_applyOne: "shard_wf sh \<Longrightarrow> shard_wf (applyOne mu sh)"
  by (simp add: applyOne_def shard_wf_put shard_wf_erase)

lemma shard_wf_get: "shard_wf sh \<Longrightarrow> shard_wf (snd (shardGet k sh))"
  by (auto simp: shard_wf_def shardGet_def lru.lookup_access lru_inv_onAccess split: option.splits)

lemma shardGet_map [simp]:
  "fst (shardGet k sh) = map_of (smap sh) k" "smap (snd (shardGet k sh)) = smap sh"
  by (auto simp: shardGet_def split: option.split)

lemma policy_None [simp]:
  "policy (shardPut k v sh) = None \<longleftrightarrow> policy sh = None"
  "policy (shardErase k sh) = None \<longleftrightarrow> policy sh = None"
  "policy (snd (shardGet k sh)) = None \<longleftrightarrow> policy sh = None"
  "policy (applyOne mu sh) = None \<longleftrightarrow> policy sh = None"
  by (auto simp: shardPut_def shardErase_def shardGet_def applyOne_def split: option.split)

lemma shard_maps [simp]:
  "map_of (smap (shardPut k v sh)) = (map_of (smap sh))(k \<mapsto> v)"
  "map_of (smap (shardErase k sh)) = (map_of (smap sh))(k := None)"
  by (simp_all add: shardPut_def shardErase_def)

lemma onAccess_sizes: "lru_bytes (onAccess k p) = lru_bytes p" "lru_entries (onAccess k p) = lru_entries p"
  by (simp_all add: onAccess_def lru_entries_def split: option.split)

lemma within_budget_get:
  "within_budget b (snd (shardGet k sh)) = within_budget b sh"
  by (auto simp: within_budget_def shardGet_def onAccess_sizes split: option.split)


subsection \<open>The eviction loop\<close>

lemma evictLoop_None: "policy sh = None \<Longrightarrow> evictLoop b sh ev = (sh, ev)"
  by (subst evictLoop.simps) simp

lemma evictLoop_stop:
  "policy sh = Some p \<Longrightarrow> \<not> (b < lru_bytes p \<and> 1 < lru_entries p) \<Longrightarrow> evictLoop b sh ev = (sh, ev)"
  by (subst evictLoop.simps) auto

lemma evictLoop_go:
  "policy sh = Some p \<Longrightarrow> b < lru_bytes p \<Longrightarrow> 1 < lru_entries p \<Longrightarrow> evict p = Some (k, p') \<Longrightarrow>
   evictLoop b sh ev =
     evictLoop b (sh\<lparr>policy := Some p', smap := AList.delete k (smap sh)\<rparr>) (ev + 1)"
  by (subst evictLoop.simps) simp

text \<open>
  The loop keeps the longest recency prefix that fits (and never less than one entry):
  \<open>j\<close> entries stay, every longer prefix is over the budget, and what is dropped from the
  policy is dropped from the map and counted.
\<close>

definition evict_result :: "u64 \<Rightarrow> shard \<Rightarrow> lru \<Rightarrow> u64 \<Rightarrow> shard \<Rightarrow> u64 \<Rightarrow> nat \<Rightarrow> bool" where
  "evict_result b sh p ev sh' ev' j \<longleftrightarrow>
     (\<exists>p'. policy sh' = Some p' \<and> lru_inv p' \<and> lru_order p' = take j (lru_order p) \<and>
        (lru_bytes p' \<le> b \<or> lru_entries p' \<le> 1)) \<and>
     j \<le> length (lru_order p) \<and> min 1 (length (lru_order p)) \<le> j \<and>
     (\<forall>i. j < i \<and> i \<le> length (lru_order p) \<longrightarrow> b < sum_list (map snd (take i (lru_order p)))) \<and>
     map_of (smap sh') = map_of (smap sh) |` (- fst ` set (drop j (lru_order p))) \<and>
     ev' = ev + of_nat (length (lru_order p) - j)"

lemma evictLoop_result:
  assumes "policy sh = Some p" and "lru_inv p"
  shows "\<exists>j. evict_result b sh p ev (fst (evictLoop b sh ev)) (snd (evictLoop b sh ev)) j"
  using assms
proof (induction "length (lru_order p)" arbitrary: sh p ev)
  case 0
  then have "\<not> 1 < lru_entries p" by (simp add: lru.entries_order)
  with 0 show ?case
    by (intro exI[of _ 0]) (auto simp: evict_result_def evictLoop_stop lru.entries_order)
next
  case (Suc n)
  show ?case
  proof (cases "b < lru_bytes p \<and> 1 < lru_entries p")
    case False
    have "evict_result b sh p ev sh ev (length (lru_order p))"
      using Suc.prems False Suc.hyps(2) by (auto simp: evict_result_def not_less)
    with False Suc.prems show ?thesis by (auto simp: evictLoop_stop)
  next
    case True
    have ne: "lru_order p \<noteq> []" using Suc.hyps(2) by auto
    then obtain k p' where ev: "evict p = Some (k, p')" using evict_None by (metis not_None_eq surj_pair)
    have inv': "lru_inv p'" using Suc.prems(2) ev lru.invar_evict by blast
    have ord: "lru_order p' = butlast (lru_order p)" using lru.order_evict Suc.prems(2) ev by blast
    have k: "k = fst (last (lru_order p))" using lru.evict_victim Suc.prems(2) ev by blast
    have n: "n = length (lru_order p')" using ord Suc.hyps(2) by simp
    let ?sh = "sh\<lparr>policy := Some p', smap := AList.delete k (smap sh)\<rparr>"
    obtain j where j: "evict_result b ?sh p' (ev + 1) (fst (evictLoop b ?sh (ev + 1)))
        (snd (evictLoop b ?sh (ev + 1))) j"
      using Suc.hyps(1)[OF n, of ?sh "ev + 1"] inv' by auto
    have go: "evictLoop b sh ev = evictLoop b ?sh (ev + 1)"
      using evictLoop_go[OF Suc.prems(1) _ _ ev] True by simp
    have len: "1 < length (lru_order p)" using True Suc.prems(2) by (simp add: lru.entries_order)
    have jl: "j \<le> n" using j n by (simp add: evict_result_def)
    have take: "take i (lru_order p') = take i (lru_order p)" if "i \<le> n" for i
      using that ord Suc.hyps(2) by (simp add: take_butlast)
    have over: "b < sum_list (map snd (take i (lru_order p)))"
      if "j < i" "i \<le> length (lru_order p)" for i
    proof (cases "i = length (lru_order p)")
      case True
      then show ?thesis
        using \<open>b < lru_bytes p \<and> _\<close> Suc.prems(2) by (simp add: lru.bytes_order)
    next
      case False
      with that have "i \<le> n" using Suc.hyps(2) by simp
      with that j take[of i] ord Suc.hyps(2) show ?thesis by (auto simp: evict_result_def)
    qed
    have dropped: "fst ` set (drop j (lru_order p)) = insert k (fst ` set (drop j (lru_order p')))"
    proof -
      have "lru_order p = lru_order p' @ [last (lru_order p)]" using ord ne by simp
      moreover have "drop j (lru_order p' @ [last (lru_order p)])
          = drop j (lru_order p') @ [last (lru_order p)]"
        using jl n by simp
      ultimately have "drop j (lru_order p) = drop j (lru_order p') @ [last (lru_order p)]" by simp
      then show ?thesis using k by simp
    qed
    have "min 1 (length (lru_order p)) \<le> j" using j n len Suc.hyps(2) by (simp add: evict_result_def)
    moreover have "snd (evictLoop b ?sh (ev + 1)) = ev + of_nat (length (lru_order p) - j)"
      using j n Suc_diff_le[OF jl] unfolding Suc.hyps(2)[symmetric] by (simp add: evict_result_def)
    moreover have "map_of (smap (fst (evictLoop b ?sh (ev + 1))))
        = map_of (smap sh) |` (- fst ` set (drop j (lru_order p)))"
      using j unfolding evict_result_def dropped by (simp add: restrict_map_def fun_eq_iff)
    moreover have "\<exists>q. policy (fst (evictLoop b ?sh (ev + 1))) = Some q \<and> lru_inv q \<and>
        lru_order q = take j (lru_order p) \<and> (lru_bytes q \<le> b \<or> lru_entries q \<le> 1)"
      using j unfolding evict_result_def take[OF jl] by blast
    ultimately have "evict_result b sh p ev (fst (evictLoop b ?sh (ev + 1)))
        (snd (evictLoop b ?sh (ev + 1))) j"
      using jl over Suc.hyps(2) by (simp add: evict_result_def)
    then show ?thesis using go by auto
  qed
qed


lemma evictLoop_wf: "shard_wf sh \<Longrightarrow> shard_wf (fst (evictLoop b sh ev))"
proof (cases "policy sh")
  case None
  then show "shard_wf sh \<Longrightarrow> shard_wf (fst (evictLoop b sh ev))" by (simp add: evictLoop_None)
next
  case (Some p)
  assume wf: "shard_wf sh"
  then obtain j where j: "evict_result b sh p ev (fst (evictLoop b sh ev)) (snd (evictLoop b sh ev)) j"
    using evictLoop_result shard_wfD(2) Some by blast
  then obtain p' where p': "policy (fst (evictLoop b sh ev)) = Some p'" "lru_inv p'"
    and ord: "lru_order p' = take j (lru_order p)"
    and map: "map_of (smap (fst (evictLoop b sh ev)))
        = map_of (smap sh) |` (- fst ` set (drop j (lru_order p)))"
    by (auto simp: evict_result_def)
  have "um_wf (lru_order p)" using lru.order_distinct shard_wfD(2)[OF wf Some] by blast
  then have "distinct (map fst (take j (lru_order p) @ drop j (lru_order p)))" by simp
  then have disj: "fst ` set (take j (lru_order p)) \<inter> fst ` set (drop j (lru_order p)) = {}"
    by (metis distinct_append map_append set_map)
  have "map_of (lru_order p') k = map_option (entryBytes k) (map_of (smap (fst (evictLoop b sh ev))) k)"
    for k
  proof (cases "k \<in> fst ` set (drop j (lru_order p))")
    case True
    then have "k \<notin> fst ` set (take j (lru_order p))" using disj by blast
    with True show ?thesis by (simp add: ord map map_of_eq_None_iff)
  next
    case False
    then have "map_of (drop j (lru_order p)) k = None" by (simp add: map_of_eq_None_iff)
    then have "map_of (take j (lru_order p)) k = map_of (take j (lru_order p) @ drop j (lru_order p)) k"
      by (simp add: map_add_def split: option.split del: append_take_drop_id)
    then show ?thesis
      using False shard_wfD(3)[OF wf Some, of k] by (simp add: ord map)
  qed
  moreover have "um_wf (smap (fst (evictLoop b sh ev)))"
    using shard_wfD(1)[OF wf]
  proof (induction b sh ev rule: evictLoop.induct)
    case (1 b sh ev)
    then show ?case
      by (subst evictLoop.simps) (auto split: option.split)
  qed
  ultimately show ?thesis using p' by (simp add: shard_wf_def)
qed

lemma evictLoop_Some:
  assumes "shard_wf sh" and "policy sh = Some p"
  shows "\<exists>j p'. policy (fst (evictLoop b sh ev)) = Some p' \<and> (lru_bytes p' \<le> b \<or> lru_entries p' \<le> 1) \<and>
     map_of (smap (fst (evictLoop b sh ev))) = map_of (smap sh) |` (- fst ` set (drop j (lru_order p)))"
  using evictLoop_result[OF assms(2) shard_wfD(2)[OF assms], of b ev]
  unfolding evict_result_def by blast

lemma evictLoop_policy:
  "shard_wf sh \<Longrightarrow> policy (fst (evictLoop b sh ev)) = None \<longleftrightarrow> policy sh = None"
  using evictLoop_Some[of sh _ b ev] by (cases "policy sh") (auto simp: evictLoop_None)

lemma evictLoop_submap:
  "shard_wf sh \<Longrightarrow> map_of (smap (fst (evictLoop b sh ev))) \<subseteq>\<^sub>m map_of (smap sh)"
proof (cases "policy sh")
  case (Some p)
  assume "shard_wf sh"
  then obtain j where "map_of (smap (fst (evictLoop b sh ev)))
      = map_of (smap sh) |` (- fst ` set (drop j (lru_order p)))"
    using evictLoop_Some Some by blast
  then show ?thesis by (simp add: map_le_def)
qed (simp add: evictLoop_None)

lemma evictLoop_within_budget: "shard_wf sh \<Longrightarrow> within_budget b (fst (evictLoop b sh ev))"
  using evictLoop_Some[of sh _ b ev]
  by (cases "policy sh") (auto simp: evictLoop_None within_budget_def)

lemma evictLoop_keeps_front:
  assumes "shard_wf sh" and "policy sh = Some p" and "lru_order p = (k, n) # rest"
  shows "map_of (smap (fst (evictLoop b sh ev))) k = map_of (smap sh) k"
proof -
  obtain j where j: "evict_result b sh p ev (fst (evictLoop b sh ev)) (snd (evictLoop b sh ev)) j"
    using evictLoop_result shard_wfD(2) assms(1,2) by blast
  then have "1 \<le> j" using assms(3) by (simp add: evict_result_def)
  then have "set (drop j (lru_order p)) \<subseteq> set rest"
    using assms(3) by (cases j) (auto dest: in_set_dropD)
  moreover have "k \<notin> fst ` set rest"
    using lru.order_distinct[OF shard_wfD(2)[OF assms(1,2)]] assms(3) by auto
  ultimately have "k \<notin> fst ` set (drop j (lru_order p))" by blast
  with j show ?thesis by (auto simp: evict_result_def)
qed


subsection \<open>The whole map\<close>

definition sm_inv :: "(string \<Rightarrow> u64) \<Rightarrow> sharded_map \<Rightarrow> bool" where
  "sm_inv hash m \<longleftrightarrow>
     0 < length (shards m) \<and> length (shards m) < 2 ^ 64 \<and>
     (sm_mode m \<noteq> Sharded \<longrightarrow> length (shards m) = 1) \<and>
     (\<forall>i < length (shards m).
        shard_wf (shards m ! i) \<and> (policy (shards m ! i) = None \<longleftrightarrow> maxMemoryBytes m = 0) \<and>
        (\<forall>k. map_of (smap (shards m ! i)) k \<noteq> None \<longrightarrow> shardIndex hash m k = i))"

text \<open>Every shard is inside the per-shard budget, or down to one entry.\<close>

definition sm_bounded :: "sharded_map \<Rightarrow> bool" where
  "sm_bounded m \<longleftrightarrow> (\<forall>sh \<in> set (shards m). within_budget (shardBudgetBytes m) sh)"

text \<open>The partial map a sharded map stands for.\<close>

definition sm_abs :: "(string \<Rightarrow> u64) \<Rightarrow> sharded_map \<Rightarrow> (string \<rightharpoonup> string)" where
  "sm_abs hash m k = map_of (smap (shards m ! shardIndex hash m k)) k"

lemma shardIndex_shards [simp]:
  "length ss = length (shards m) \<Longrightarrow> shardIndex hash (m\<lparr>shards := ss\<rparr>) = shardIndex hash m"
  "shardIndex hash (m\<lparr>evictions := e\<rparr>) = shardIndex hash m"
  "length ss = length (shards m) \<Longrightarrow> shardFor hash (m\<lparr>shards := ss\<rparr>) = shardFor hash m"
  "shardFor hash (m\<lparr>evictions := e\<rparr>) = shardFor hash m"
  by (auto simp: shardIndex_def shardFor_def fun_eq_iff)

lemma shardFor_less: "sm_inv hash m \<Longrightarrow> shardFor hash m k < length (shards m)"
  by (simp add: shardFor_def sm_inv_def unat_and_minus_1)

lemma shardIndex_less: "sm_inv hash m \<Longrightarrow> shardIndex hash m k < length (shards m)"
  by (simp add: shardIndex_def shardFor_less) (simp add: sm_inv_def)

lemma shardFor_shardIndex: "sm_inv hash m \<Longrightarrow> shardFor hash m k = shardIndex hash m k"
  using shardFor_less[of hash m k] by (auto simp: shardIndex_def sm_inv_def)

lemma sm_inv_shard: "sm_inv hash m \<Longrightarrow> i < length (shards m) \<Longrightarrow> shard_wf (shards m ! i)"
  by (simp add: sm_inv_def)

text \<open>Replacing one shard.\<close>

lemma sm_inv_replace:
  assumes "sm_inv hash m" and "i < length (shards m)" and "shard_wf sh"
    and "policy sh = None \<longleftrightarrow> policy (shards m ! i) = None"
    and "\<And>k. map_of (smap sh) k \<noteq> None \<Longrightarrow> shardIndex hash m k = i"
  shows "sm_inv hash (m\<lparr>shards := (shards m)[i := sh]\<rparr>)"
  using assms unfolding sm_inv_def by (auto simp: nth_list_update)

lemma sm_abs_replace:
  "i < length (shards m) \<Longrightarrow>
   sm_abs hash (m\<lparr>shards := (shards m)[i := sh]\<rparr>) k
     = (if shardIndex hash m k = i then map_of (smap sh) k else sm_abs hash m k)"
  by (simp add: sm_abs_def nth_list_update)

lemma sm_inv_evictions [simp]: "sm_inv hash (m\<lparr>evictions := e\<rparr>) = sm_inv hash m"
  by (simp add: sm_inv_def)

lemma sm_abs_evictions [simp]: "sm_abs hash (m\<lparr>evictions := e\<rparr>) = sm_abs hash m"
  by (simp add: sm_abs_def fun_eq_iff)


subsection \<open>Operations on the partial map\<close>

text \<open>What one mutation does to the partial map.\<close>

definition mut_apply :: "(string \<rightharpoonup> string) \<Rightarrow> mutation \<Rightarrow> (string \<rightharpoonup> string)" where
  "mut_apply f mu = (if erase mu then f(key mu := None) else f(key mu \<mapsto> val mu))"

lemma evictIfNeeded_frame [simp]:
  "sm_mode (evictIfNeeded i m) = sm_mode m"
  "maxMemoryBytes (evictIfNeeded i m) = maxMemoryBytes m"
  "shardBudgetBytes (evictIfNeeded i m) = shardBudgetBytes m"
  "length (shards (evictIfNeeded i m)) = length (shards m)"
  "shardIndex hash (evictIfNeeded i m) = shardIndex hash m"
  by (auto simp: evictIfNeeded_def split_beta Let_def)

lemma evictIfNeeded_shards:
  "shards (evictIfNeeded i m)
     = (shards m)[i := fst (evictLoop (shardBudgetBytes m) (shards m ! i) (evictions m))]"
  by (simp add: evictIfNeeded_def split_beta Let_def)

lemma evictIfNeeded_eq:
  "evictIfNeeded i m =
     (m\<lparr>shards := (shards m)[i := fst (evictLoop (shardBudgetBytes m) (shards m ! i) (evictions m))]\<rparr>)
       \<lparr>evictions := snd (evictLoop (shardBudgetBytes m) (shards m ! i) (evictions m))\<rparr>"
  by (simp add: evictIfNeeded_def split_beta Let_def)

lemma sm_inv_evictIfNeeded:
  assumes "sm_inv hash m" and "i < length (shards m)"
  shows "sm_inv hash (evictIfNeeded i m)"
proof -
  let ?sh = "fst (evictLoop (shardBudgetBytes m) (shards m ! i) (evictions m))"
  have wf: "shard_wf (shards m ! i)" using assms by (rule sm_inv_shard)
  have "shardIndex hash m k = i" if "map_of (smap ?sh) k \<noteq> None" for k
  proof -
    have "map_of (smap (shards m ! i)) k \<noteq> None"
      using that map_le_implies_dom_le[OF evictLoop_submap[OF wf]] by blast
    then show ?thesis using assms by (simp add: sm_inv_def)
  qed
  with assms evictLoop_wf[OF wf] evictLoop_policy[OF wf]
  have "sm_inv hash (m\<lparr>shards := (shards m)[i := ?sh]\<rparr>)"
    by (intro sm_inv_replace)
  then show ?thesis by (simp only: evictIfNeeded_eq sm_inv_evictions)
qed

lemma sm_abs_evictIfNeeded:
  assumes "sm_inv hash m" and "i < length (shards m)"
  shows "sm_abs hash (evictIfNeeded i m) \<subseteq>\<^sub>m sm_abs hash m"
proof -
  have "map_of (smap (fst (evictLoop (shardBudgetBytes m) (shards m ! i) (evictions m))))
      \<subseteq>\<^sub>m map_of (smap (shards m ! i))"
    using assms by (intro evictLoop_submap sm_inv_shard)
  then have eq: "map_of (smap (fst (evictLoop (shardBudgetBytes m) (shards m ! i) (evictions m)))) k
      = map_of (smap (shards m ! i)) k"
    if "map_of (smap (fst (evictLoop (shardBudgetBytes m) (shards m ! i) (evictions m)))) k \<noteq> None" for k
    using that unfolding map_le_def by blast
  show ?thesis
    unfolding map_le_def evictIfNeeded_eq sm_abs_evictions
  proof
    fix k
    assume "k \<in> dom (sm_abs hash (m\<lparr>shards := (shards m)[i := fst (evictLoop (shardBudgetBytes m)
        (shards m ! i) (evictions m))]\<rparr>))"
    then show "sm_abs hash (m\<lparr>shards := (shards m)[i := fst (evictLoop (shardBudgetBytes m)
        (shards m ! i) (evictions m))]\<rparr>) k = sm_abs hash m k"
      using eq[of k] unfolding domIff sm_abs_replace[OF assms(2)]
      by (cases "shardIndex hash m k = i") (auto simp: sm_abs_def)
  qed
qed

lemma evictIfNeeded_None:
  "policy (shards m ! i) = None \<Longrightarrow> evictIfNeeded i m = m"
  by (simp add: evictIfNeeded_def evictLoop_None list_update_id)

lemma sm_inv_policy_None:
  "sm_inv hash m \<Longrightarrow> i < length (shards m) \<Longrightarrow> policy (shards m ! i) = None \<longleftrightarrow> maxMemoryBytes m = 0"
  by (simp add: sm_inv_def)

text \<open>Lookup.\<close>

lemma shardGet_no_policy: "policy sh = None \<Longrightarrow> snd (shardGet k sh) = sh"
  by (cases sh) (auto simp: shardGet_def split: option.split)

lemma sm_get_eq:
  assumes "sm_inv hash m"
  shows "sm_get hash k m =
    (sm_abs hash m k,
     m\<lparr>shards := (shards m)[shardIndex hash m k := snd (shardGet k (shards m ! shardIndex hash m k))]\<rparr>)"
proof -
  have "m\<lparr>shards := (shards m)[i := snd (shardGet k (shards m ! i))]\<rparr> = m"
    if "policy (shards m ! i) = None" for i
    by (simp add: shardGet_no_policy[OF that])
  then show ?thesis
    by (cases "sm_mode m") (auto simp: sm_get_def sm_abs_def split_beta Let_def)
qed

lemma sm_get_result: "sm_inv hash m \<Longrightarrow> fst (sm_get hash k m) = sm_abs hash m k"
  by (simp add: sm_get_eq)

lemma sm_inv_access:
  assumes "sm_inv hash m" and "i < length (shards m)"
  shows "sm_inv hash (m\<lparr>shards := (shards m)[i := snd (shardGet k (shards m ! i))]\<rparr>)"
proof (rule sm_inv_replace[OF assms])
  show "shard_wf (snd (shardGet k (shards m ! i)))"
    by (rule shard_wf_get[OF sm_inv_shard[OF assms]])
  show "policy (snd (shardGet k (shards m ! i))) = None \<longleftrightarrow> policy (shards m ! i) = None"
    by (rule policy_None)
  show "map_of (smap (snd (shardGet k (shards m ! i)))) k' \<noteq> None \<Longrightarrow> shardIndex hash m k' = i" for k'
    using assms unfolding shardGet_map sm_inv_def by blast
qed

lemma sm_abs_access:
  "i < length (shards m) \<Longrightarrow>
   sm_abs hash (m\<lparr>shards := (shards m)[i := snd (shardGet k (shards m ! i))]\<rparr>) = sm_abs hash m"
  by (rule ext) (simp only: sm_abs_replace shardGet_map, simp add: sm_abs_def)

lemma sm_inv_get: "sm_inv hash m \<Longrightarrow> sm_inv hash (snd (sm_get hash k m))"
  by (simp add: sm_get_eq sm_inv_access shardIndex_less)

lemma sm_abs_get: "sm_inv hash m \<Longrightarrow> sm_abs hash (snd (sm_get hash k m)) = sm_abs hash m"
  by (simp add: sm_get_eq sm_abs_access shardIndex_less)

lemma sm_bounded_replace:
  assumes "sm_bounded m" and "within_budget (shardBudgetBytes m) sh"
  shows "sm_bounded (m\<lparr>shards := (shards m)[i := sh]\<rparr>)"
  using assms set_update_subset_insert[of "shards m" i sh] by (auto simp: sm_bounded_def)

lemma sm_bounded_get: "sm_inv hash m \<Longrightarrow> sm_bounded m \<Longrightarrow> sm_bounded (snd (sm_get hash k m))"
  using sm_bounded_replace[of m "snd (shardGet k (shards m ! shardIndex hash m k))"]
  by (simp add: sm_get_eq within_budget_get sm_bounded_def shardIndex_less)

end
