(* ===== verification/MapRefinement.thy ===== *)
theory MapRefinement
  imports MapInvariant
begin

text \<open>
  The remaining operations of the sharded map against the partial map it stands for, and
  the interface the store relies on.
\<close>

subsection \<open>Single-key writes\<close>

text \<open>Any edit of the shard a key lives in that only changes the value of that key.\<close>

lemma sm_edit:
  assumes "sm_inv hash m" and "shard_wf sh"
    and "policy sh = None \<longleftrightarrow> policy (shards m ! shardIndex hash m k) = None"
    and "map_of (smap sh) = (map_of (smap (shards m ! shardIndex hash m k)))(k := v)"
  shows "sm_inv hash (m\<lparr>shards := (shards m)[shardIndex hash m k := sh]\<rparr>)"
    and "sm_abs hash (m\<lparr>shards := (shards m)[shardIndex hash m k := sh]\<rparr>) = (sm_abs hash m)(k := v)"
proof -
  note less = shardIndex_less[OF assms(1), of k]
  show "sm_inv hash (m\<lparr>shards := (shards m)[shardIndex hash m k := sh]\<rparr>)"
  proof (rule sm_inv_replace[OF assms(1) less assms(2,3)])
    fix k' assume "map_of (smap sh) k' \<noteq> None"
    then have "k' = k \<or> map_of (smap (shards m ! shardIndex hash m k)) k' \<noteq> None"
      unfolding assms(4) by auto
    then show "shardIndex hash m k' = shardIndex hash m k"
      using assms(1) less unfolding sm_inv_def by blast
  qed
  show "sm_abs hash (m\<lparr>shards := (shards m)[shardIndex hash m k := sh]\<rparr>) = (sm_abs hash m)(k := v)"
    by (rule ext, unfold sm_abs_replace[OF less] assms(4)) (simp add: sm_abs_def)
qed

lemma sm_put:
  fixes hash m k v
  defines "i \<equiv> shardIndex hash m k"
  assumes "sm_inv hash m"
  shows "sm_inv hash (m\<lparr>shards := (shards m)[i := shardPut k v (shards m ! i)]\<rparr>)"
    and "sm_abs hash (m\<lparr>shards := (shards m)[i := shardPut k v (shards m ! i)]\<rparr>)
      = (sm_abs hash m)(k \<mapsto> v)"
  unfolding i_def
  by (rule sm_edit[OF assms(2) shard_wf_put[OF sm_inv_shard[OF assms(2) shardIndex_less[OF assms(2)]]]
        policy_None(1) shard_maps(1)])+

lemma sm_erase:
  fixes hash m k
  defines "i \<equiv> shardIndex hash m k"
  assumes "sm_inv hash m"
  shows "sm_inv hash (m\<lparr>shards := (shards m)[i := shardErase k (shards m ! i)]\<rparr>)"
    and "sm_abs hash (m\<lparr>shards := (shards m)[i := shardErase k (shards m ! i)]\<rparr>)
      = (sm_abs hash m)(k := None)"
  unfolding i_def
  by (rule sm_edit[OF assms(2) shard_wf_erase[OF sm_inv_shard[OF assms(2) shardIndex_less[OF assms(2)]]]
        policy_None(2) shard_maps(2)])+


text \<open>The front of the policy's order after an insertion is the key just written.\<close>

lemma shardPut_front:
  "shard_wf sh \<Longrightarrow> policy sh = Some p \<Longrightarrow>
   policy (shardPut k v sh) = Some (onInsert k (entryBytes k v) p) \<and>
   lru_order (onInsert k (entryBytes k v) p) = (k, entryBytes k v) # AList.delete k (lru_order p)"
  using lru.order_insert[OF shard_wfD(2)] by (simp add: shardPut_def)

lemma sm_abs_evict_shard:
  assumes "i < length (shards m)" and "shardIndex hash m k = i"
  shows "sm_abs hash (evictIfNeeded i m) k
    = map_of (smap (fst (evictLoop (shardBudgetBytes m) (shards m ! i) (evictions m)))) k"
  unfolding evictIfNeeded_eq sm_abs_evictions sm_abs_replace[OF assms(1)] using assms(2) by simp

lemma sm_set_inv: "sm_inv hash m \<Longrightarrow> sm_inv hash (sm_set hash k v m)"
  using sm_put(1)[of hash m k v] sm_inv_evictIfNeeded[of hash _ "shardIndex hash m k"]
    shardIndex_less[of hash m k]
  by (simp add: sm_set_def Let_def)

lemma sm_set_sub: "sm_inv hash m \<Longrightarrow> sm_abs hash (sm_set hash k v m) \<subseteq>\<^sub>m (sm_abs hash m)(k \<mapsto> v)"
  using sm_put[of hash m k v] sm_abs_evictIfNeeded[of hash _ "shardIndex hash m k"]
    shardIndex_less[of hash m k]
  by (simp add: sm_set_def Let_def) (metis length_list_update sharded_map.select_convs(2)
      sharded_map.update_convs(2) sharded_map.cases)

lemma sm_set_unbounded:
  "sm_inv hash m \<Longrightarrow> maxMemoryBytes m = 0 \<Longrightarrow> sm_abs hash (sm_set hash k v m) = (sm_abs hash m)(k \<mapsto> v)"
  using sm_put(2)[of hash m k v] sm_inv_policy_None[of hash m "shardIndex hash m k"]
    shardIndex_less[of hash m k]
  by (simp add: sm_set_def Let_def)

lemma sm_set_keeps: "sm_inv hash m \<Longrightarrow> sm_abs hash (sm_set hash k v m) k = Some v"
proof -
  assume inv: "sm_inv hash m"
  let ?i = "shardIndex hash m k"
  let ?sh = "shardPut k v (shards m ! ?i)"
  let ?m = "m\<lparr>shards := (shards m)[?i := ?sh]\<rparr>"
  note less = shardIndex_less[OF inv, of k]
  note wf = sm_inv_shard[OF inv less]
  show ?thesis
  proof (cases "policy (shards m ! ?i)")
    case None
    then show ?thesis using sm_put(2)[OF inv, of k v] by (simp add: sm_set_def Let_def)
  next
    case (Some p)
    have "sm_abs hash (sm_set hash k v m) k
        = map_of (smap (fst (evictLoop (shardBudgetBytes m) ?sh (evictions m)))) k"
      using Some less sm_abs_evict_shard[of ?i ?m hash k] by (simp add: sm_set_def Let_def)
    also have "\<dots> = map_of (smap ?sh) k"
      using evictLoop_keeps_front[OF shard_wf_put[OF wf]] shardPut_front[OF wf Some] by blast
    finally show ?thesis by simp
  qed
qed

lemma sm_bounded_evict:
  assumes "sm_inv hash m" and "i < length (shards m)"
    and "\<And>j. j < length (shards m) \<Longrightarrow> j \<noteq> i \<Longrightarrow> within_budget (shardBudgetBytes m) (shards m ! j)"
  shows "sm_bounded (evictIfNeeded i m)"
  unfolding sm_bounded_def evictIfNeeded_shards evictIfNeeded_frame
  using assms evictLoop_within_budget[OF sm_inv_shard[OF assms(1,2)]]
  by (auto simp: in_set_conv_nth nth_list_update)

lemma sm_set_bounded: "sm_inv hash m \<Longrightarrow> sm_bounded m \<Longrightarrow> sm_bounded (sm_set hash k v m)"
proof -
  assume inv: "sm_inv hash m" and b: "sm_bounded m"
  let ?i = "shardIndex hash m k"
  let ?m = "m\<lparr>shards := (shards m)[?i := shardPut k v (shards m ! ?i)]\<rparr>"
  note less = shardIndex_less[OF inv, of k]
  have "sm_bounded (evictIfNeeded ?i ?m)"
    using b less by (intro sm_bounded_evict[OF sm_put(1)[OF inv]]) (simp_all add: sm_bounded_def)
  moreover have "sm_set hash k v m = evictIfNeeded ?i ?m"
    using less by (simp add: sm_set_def Let_def evictIfNeeded_None)
  ultimately show ?thesis by simp
qed

lemma sm_del_result: "fst (sm_del hash k m) \<longleftrightarrow> sm_abs hash m k \<noteq> None"
  by (simp add: sm_del_def Let_def sm_abs_def)

lemma sm_del_inv: "sm_inv hash m \<Longrightarrow> sm_inv hash (snd (sm_del hash k m))"
  using sm_erase(1)[of hash m k] by (simp add: sm_del_def Let_def)

lemma sm_del_abs: "sm_inv hash m \<Longrightarrow> sm_abs hash (snd (sm_del hash k m)) = (sm_abs hash m)(k := None)"
  using sm_erase(2)[of hash m k] by (simp add: sm_del_def Let_def)



subsection \<open>Reading many keys\<close>

lemma readAll_spec:
  "sm_inv hash m \<Longrightarrow>
   fst (readAll hash ks m)
     = map (\<lambda>k. case sm_abs hash m k of None \<Rightarrow> (False, []) | Some v \<Rightarrow> (True, v)) ks \<and>
   sm_inv hash (snd (readAll hash ks m)) \<and> sm_abs hash (snd (readAll hash ks m)) = sm_abs hash m"
proof (induction ks arbitrary: m)
  case (Cons k ks)
  let ?i = "shardIndex hash m k"
  let ?m = "m\<lparr>shards := (shards m)[?i := snd (shardGet k (shards m ! ?i))]\<rparr>"
  note less = shardIndex_less[OF Cons.prems, of k]
  have "sm_inv hash ?m" and abs: "sm_abs hash ?m = sm_abs hash m"
    using Cons.prems less by (simp_all add: sm_inv_access sm_abs_access)
  with Cons.IH[of ?m] show ?case
    by (simp add: split_beta Let_def) (simp add: sm_abs_def)
qed simp


lemma readAll_frame:
  "maxMemoryBytes (snd (readAll hash ks m)) = maxMemoryBytes m"
  "shardBudgetBytes (snd (readAll hash ks m)) = shardBudgetBytes m"
  by (induction ks arbitrary: m) (simp_all add: split_beta Let_def)


subsection \<open>Applying a batch\<close>

text \<open>One mutation applied to the shard of its key, without eviction.\<close>

definition sm_mutate :: "(string \<Rightarrow> u64) \<Rightarrow> sharded_map \<Rightarrow> mutation \<Rightarrow> sharded_map" where
  "sm_mutate hash m mu =
     m\<lparr>shards := (shards m)[shardIndex hash m (key mu)
                  := applyOne mu (shards m ! shardIndex hash m (key mu))]\<rparr>"

lemma sm_mutate_frame [simp]:
  "sm_mode (sm_mutate hash m mu) = sm_mode m"
  "maxMemoryBytes (sm_mutate hash m mu) = maxMemoryBytes m"
  "shardBudgetBytes (sm_mutate hash m mu) = shardBudgetBytes m"
  "length (shards (sm_mutate hash m mu)) = length (shards m)"
  "shardIndex hash' (sm_mutate hash m mu) = shardIndex hash' m"
  by (simp_all add: sm_mutate_def)

lemma sm_mutate_inv: "sm_inv hash m \<Longrightarrow> sm_inv hash (sm_mutate hash m mu)"
  using sm_put(1)[of hash m "key mu" "val mu"] sm_erase(1)[of hash m "key mu"]
  by (simp add: sm_mutate_def applyOne_def)

lemma sm_mutate_abs: "sm_inv hash m \<Longrightarrow> sm_abs hash (sm_mutate hash m mu) = mut_apply (sm_abs hash m) mu"
  using sm_put(2)[of hash m "key mu" "val mu"] sm_erase(2)[of hash m "key mu"]
  by (simp add: sm_mutate_def applyOne_def mut_apply_def)

lemma sm_mutate_other:
  "i \<noteq> shardIndex hash m (key mu) \<Longrightarrow> shards (sm_mutate hash m mu) ! i = shards m ! i"
  by (simp add: sm_mutate_def)

lemma sm_mutates:
  "sm_inv hash m \<Longrightarrow>
   sm_inv hash (foldl (sm_mutate hash) m mus) \<and>
   sm_abs hash (foldl (sm_mutate hash) m mus) = foldl mut_apply (sm_abs hash m) mus"
  by (induction mus arbitrary: m) (simp_all add: sm_mutate_inv sm_mutate_abs)

lemma sm_mutates_frame [simp]:
  "sm_mode (foldl (sm_mutate hash) m mus) = sm_mode m"
  "maxMemoryBytes (foldl (sm_mutate hash) m mus) = maxMemoryBytes m"
  "shardBudgetBytes (foldl (sm_mutate hash) m mus) = shardBudgetBytes m"
  "length (shards (foldl (sm_mutate hash) m mus)) = length (shards m)"
  by (induction mus arbitrary: m) simp_all

lemma sm_mutates_other:
  "i \<notin> (\<lambda>mu. shardIndex hash m (key mu)) ` set mus \<Longrightarrow>
   shards (foldl (sm_mutate hash) m mus) ! i = shards m ! i"
  by (induction mus arbitrary: m) (simp_all add: sm_mutate_other)

text \<open>Both branches of \<open>applyAtomically\<close> are this: mutate, then evict in the touched shards.\<close>

definition sm_batch_shards :: "(string \<Rightarrow> u64) \<Rightarrow> sharded_map \<Rightarrow> mutation list \<Rightarrow> nat list" where
  "sm_batch_shards hash m mus =
     (if sm_mode m = NoLock \<or> sm_mode m = GlobalMutex then [0]
      else touchedShards hash m (map key mus))"

lemma foldl_inv_cong:
  assumes "I m" and "\<And>m x. I m \<Longrightarrow> x \<in> set xs \<Longrightarrow> f m x = g m x \<and> I (g m x)"
  shows "foldl f m xs = foldl g m xs"
  using assms by (induction xs arbitrary: m) auto

lemma sm_applyAtomically_eq:
  assumes "sm_inv hash m" and "mus \<noteq> []"
  shows "sm_applyAtomically hash mus m
    = foldl (\<lambda>m i. evictIfNeeded i m) (foldl (sm_mutate hash) m mus) (sm_batch_shards hash m mus)"
proof (cases "sm_mode m = NoLock \<or> sm_mode m = GlobalMutex")
  case True
  have "foldl (\<lambda>m mu. m\<lparr>shards := (shards m)[0 := applyOne mu (shards m ! 0)]\<rparr>) m mus
      = foldl (sm_mutate hash) m mus"
    by (rule foldl_inv_cong[where I = "\<lambda>m. sm_mode m \<noteq> Sharded"])
       (use True in \<open>auto simp: sm_mutate_def shardIndex_def\<close>)
  with True assms(2) show ?thesis by (simp add: sm_applyAtomically_def sm_batch_shards_def)
next
  case False
  have "foldl (\<lambda>m mu. let i = shardFor hash m (key mu)
          in m\<lparr>shards := (shards m)[i := applyOne mu (shards m ! i)]\<rparr>) m mus
      = foldl (sm_mutate hash) m mus"
    by (rule foldl_inv_cong[where I = "sm_inv hash", OF assms(1)])
       (simp add: sm_mutate_inv, simp add: sm_mutate_def shardFor_shardIndex Let_def)
  with False assms(2) show ?thesis by (simp add: sm_applyAtomically_def sm_batch_shards_def)
qed


lemma touchedShards_set: "set (touchedShards hash m ks) = shardFor hash m ` set ks"
  by (simp add: touchedShards_def)

lemma sm_batch_shards_set:
  assumes "sm_inv hash m" and "mus \<noteq> []"
  shows "set (sm_batch_shards hash m mus) = (\<lambda>mu. shardIndex hash m (key mu)) ` set mus"
proof (cases "sm_mode m = NoLock \<or> sm_mode m = GlobalMutex")
  case True
  then show ?thesis using assms(2) by (cases mus) (auto simp: sm_batch_shards_def shardIndex_def)
next
  case False
  then show ?thesis
    by (simp add: sm_batch_shards_def touchedShards_set shardFor_shardIndex[OF assms(1)] image_image)
qed

lemma evict_all:
  assumes "sm_inv hash m" and "set is \<subseteq> {..< length (shards m)}"
  shows "sm_inv hash (foldl (\<lambda>m i. evictIfNeeded i m) m is) \<and>
     sm_abs hash (foldl (\<lambda>m i. evictIfNeeded i m) m is) \<subseteq>\<^sub>m sm_abs hash m"
  using assms
proof (induction "is" arbitrary: m)
  case (Cons i "is")
  then have "sm_inv hash (evictIfNeeded i m)" "sm_abs hash (evictIfNeeded i m) \<subseteq>\<^sub>m sm_abs hash m"
    by (simp_all add: sm_inv_evictIfNeeded sm_abs_evictIfNeeded)
  with Cons.IH[of "evictIfNeeded i m"] Cons.prems show ?case
    using map_le_trans by auto
qed simp

lemma evict_all_unbounded:
  assumes "\<forall>i \<in> set is. policy (shards m ! i) = None"
  shows "foldl (\<lambda>m i. evictIfNeeded i m) m is = m"
  using assms by (induction "is") (simp_all add: evictIfNeeded_None)

lemma evictIfNeeded_within:
  assumes "sm_inv hash m" and "i < length (shards m)" and "j < length (shards m)"
    and "j = i \<or> within_budget (shardBudgetBytes m) (shards m ! j)"
  shows "within_budget (shardBudgetBytes m) (shards (evictIfNeeded i m) ! j)"
  using assms(2-4) evictLoop_within_budget[OF sm_inv_shard[OF assms(1,2)]]
  by (cases "j = i") (simp_all add: evictIfNeeded_shards)

lemma evict_all_within:
  assumes "sm_inv hash m" and "set is \<subseteq> {..< length (shards m)}" and "j < length (shards m)"
    and "j \<in> set is \<or> within_budget (shardBudgetBytes m) (shards m ! j)"
  shows "within_budget (shardBudgetBytes m) (shards (foldl (\<lambda>m i. evictIfNeeded i m) m is) ! j)"
  using assms
proof (induction "is" arbitrary: m)
  case (Cons i "is")
  then have "sm_inv hash (evictIfNeeded i m)" by (simp add: sm_inv_evictIfNeeded)
  moreover have "j \<in> set is \<or> within_budget (shardBudgetBytes m) (shards (evictIfNeeded i m) ! j)"
    using evictIfNeeded_within[OF Cons.prems(1) _ Cons.prems(3), of i] Cons.prems by auto
  ultimately show ?case using Cons.IH[of "evictIfNeeded i m"] Cons.prems by simp
qed simp

lemma evict_all_frame [simp]:
  "sm_mode (foldl (\<lambda>m i. evictIfNeeded i m) m is) = sm_mode m"
  "maxMemoryBytes (foldl (\<lambda>m i. evictIfNeeded i m) m is) = maxMemoryBytes m"
  "shardBudgetBytes (foldl (\<lambda>m i. evictIfNeeded i m) m is) = shardBudgetBytes m"
  "length (shards (foldl (\<lambda>m i. evictIfNeeded i m) m is)) = length (shards m)"
  by (induction "is" arbitrary: m) simp_all

lemma sm_batch_shards_less:
  assumes "sm_inv hash m" and "mus \<noteq> []"
  shows "set (sm_batch_shards hash m mus) \<subseteq> {..< length (shards m)}"
  using sm_batch_shards_set[OF assms] shardIndex_less[OF assms(1)] by auto

lemma sm_applyAtomically_inv: "sm_inv hash m \<Longrightarrow> sm_inv hash (sm_applyAtomically hash mus m)"
  using evict_all sm_batch_shards_less[of hash m mus] sm_mutates[of hash m mus] sm_applyAtomically_eq
  by (cases "mus = []") (simp_all add: sm_applyAtomically_def)

lemma sm_applyAtomically_sub:
  "sm_inv hash m \<Longrightarrow> sm_abs hash (sm_applyAtomically hash mus m) \<subseteq>\<^sub>m foldl mut_apply (sm_abs hash m) mus"
  using evict_all[of hash "foldl (sm_mutate hash) m mus"] sm_batch_shards_less[of hash m mus]
    sm_mutates[of hash m mus] sm_applyAtomically_eq[of hash m mus]
  by (cases "mus = []") (simp_all add: sm_applyAtomically_def)

lemma sm_applyAtomically_frame [simp]:
  "sm_inv hash m \<Longrightarrow> maxMemoryBytes (sm_applyAtomically hash mus m) = maxMemoryBytes m"
  "sm_inv hash m \<Longrightarrow> sm_mode (sm_applyAtomically hash mus m) = sm_mode m"
  "sm_inv hash m \<Longrightarrow> shardBudgetBytes (sm_applyAtomically hash mus m) = shardBudgetBytes m"
  by (cases "mus = []"; simp add: sm_applyAtomically_eq; simp add: sm_applyAtomically_def)+

lemma sm_applyAtomically_unbounded:
  assumes "sm_inv hash m" and "maxMemoryBytes m = 0"
  shows "sm_abs hash (sm_applyAtomically hash mus m) = foldl mut_apply (sm_abs hash m) mus"
proof (cases "mus = []")
  case False
  have "\<forall>i \<in> set (sm_batch_shards hash m mus). policy (shards (foldl (sm_mutate hash) m mus) ! i) = None"
    using sm_batch_shards_less[OF assms(1) False] sm_mutates[OF assms(1), of mus] assms(2)
    by (auto simp: sm_inv_policy_None subset_iff)
  from evict_all_unbounded[OF this] show ?thesis
    using sm_applyAtomically_eq[OF assms(1) False] sm_mutates[OF assms(1)] by simp
qed (simp add: sm_applyAtomically_def)

lemma sm_applyAtomically_bounded:
  assumes "sm_inv hash m" and "sm_bounded m"
  shows "sm_bounded (sm_applyAtomically hash mus m)"
proof (cases "mus = []")
  case False
  let ?m = "foldl (sm_mutate hash) m mus"
  have "within_budget (shardBudgetBytes m)
      (shards (foldl (\<lambda>m i. evictIfNeeded i m) ?m (sm_batch_shards hash m mus)) ! j)"
    if j: "j < length (shards m)" for j
  proof -
    have "j \<in> set (sm_batch_shards hash m mus) \<or> within_budget (shardBudgetBytes m) (shards ?m ! j)"
      using sm_batch_shards_set[OF assms(1) False] sm_mutates_other[of j hash m mus] assms(2) j
      by (cases "j \<in> set (sm_batch_shards hash m mus)") (auto simp: sm_bounded_def)
    then show ?thesis
      using evict_all_within[of hash ?m "sm_batch_shards hash m mus" j]
        sm_mutates[OF assms(1), of mus] sm_batch_shards_less[OF assms(1) False] j by simp
  qed
  then show ?thesis
    unfolding sm_bounded_def sm_applyAtomically_eq[OF assms(1) False]
    by (auto simp: in_set_conv_nth)
qed (use assms in \<open>simp add: sm_applyAtomically_def\<close>)



subsection \<open>Snapshot, size, bytes and clear\<close>

lemma sm_one_shard: "sm_inv hash m \<Longrightarrow> sm_mode m \<noteq> Sharded \<Longrightarrow> \<exists>s. shards m = [s]"
  by (auto simp: sm_inv_def length_Suc_conv)

lemma sm_snapshot_concat: "sm_inv hash m \<Longrightarrow> sm_snapshot m = concat (map smap (shards m))"
  using sm_one_shard[of hash m] by (cases "sm_mode m") (auto simp: sm_snapshot_def)

lemma sm_snapshot_mem:
  assumes "sm_inv hash m"
  shows "(k, v) \<in> set (sm_snapshot m) \<longleftrightarrow> sm_abs hash m k = Some v"
proof
  assume "(k, v) \<in> set (sm_snapshot m)"
  then obtain s where "s \<in> set (shards m)" "(k, v) \<in> set (smap s)"
    unfolding sm_snapshot_concat[OF assms] by auto
  then obtain i where i: "i < length (shards m)" "(k, v) \<in> set (smap (shards m ! i))"
    using in_set_conv_nth[of s "shards m"] by blast
  then have kv: "map_of (smap (shards m ! i)) k = Some v"
    using shard_wfD(1)[OF sm_inv_shard[OF assms i(1)]] by simp
  then have "shardIndex hash m k = i" using assms i(1) by (simp add: sm_inv_def)
  with kv show "sm_abs hash m k = Some v" by (simp add: sm_abs_def)
next
  assume "sm_abs hash m k = Some v"
  then show "(k, v) \<in> set (sm_snapshot m)"
    using shardIndex_less[OF assms, of k] map_of_SomeD nth_mem
    by (fastforce simp: sm_abs_def sm_snapshot_concat[OF assms])
qed

lemma distinct_concat_keys:
  assumes "\<And>i. i < length xss \<Longrightarrow> um_wf (xss ! i)"
    and "\<And>i k. i < length xss \<Longrightarrow> k \<in> fst ` set (xss ! i) \<Longrightarrow> f k = i + b"
  shows "um_wf (concat xss)"
  using assms
proof (induction xss arbitrary: b)
  case (Cons xs xss)
  have "um_wf (concat xss)"
    using Cons.IH[of "Suc b"] Cons.prems(1)[of "Suc _"] Cons.prems(2)[of "Suc _"] by simp
  moreover have "f k = b" if "k \<in> fst ` set xs" for k
    using Cons.prems(2)[of 0 k] that by simp
  moreover have "f k \<noteq> b" if k: "k \<in> fst ` set (concat xss)" for k
  proof -
    obtain ys where "ys \<in> set xss" "k \<in> fst ` set ys" using k by auto
    then obtain i where "i < length xss" "k \<in> fst ` set (xss ! i)"
      using in_set_conv_nth[of ys xss] by blast
    then show ?thesis using Cons.prems(2)[of "Suc i" k] by simp
  qed
  ultimately have "um_wf (concat xss)" "fst ` set xs \<inter> fst ` set (concat xss) = {}" by blast+
  with Cons.prems(1)[of 0] show ?case by simp
qed simp

lemma sm_snapshot_distinct:
  assumes "sm_inv hash m"
  shows "um_wf (sm_snapshot m)"
  unfolding sm_snapshot_concat[OF assms]
proof (rule distinct_concat_keys[where f = "shardIndex hash m" and b = 0])
  fix i assume "i < length (map smap (shards m))"
  then have i: "i < length (shards m)" by simp
  show "um_wf (map smap (shards m) ! i)"
    using shard_wfD(1)[OF sm_inv_shard[OF assms i]] i by simp
  fix k assume "k \<in> fst ` set (map smap (shards m) ! i)"
  then have "map_of (smap (shards m ! i)) k \<noteq> None" using i by (simp add: map_of_eq_None_iff)
  then show "shardIndex hash m k = i + 0" using assms i by (simp add: sm_inv_def)
qed

lemma sm_snapshot_map: "sm_inv hash m \<Longrightarrow> map_of (sm_snapshot m) = sm_abs hash m"
proof
  fix k
  assume inv: "sm_inv hash m"
  have "map_of (sm_snapshot m) k = Some v \<longleftrightarrow> sm_abs hash m k = Some v" for v
    using sm_snapshot_mem[OF inv] sm_snapshot_distinct[OF inv] by simp
  then show "map_of (sm_snapshot m) k = sm_abs hash m k" by (metis not_None_eq)
qed

lemma sm_size_snapshot: "sm_inv hash m \<Longrightarrow> sm_size m = length (sm_snapshot m)"
  using sm_one_shard[of hash m]
  by (cases "sm_mode m") (auto simp: sm_size_def sm_snapshot_concat length_concat comp_def)

lemma sm_size_card: "sm_inv hash m \<Longrightarrow> sm_size m = card (dom (sm_abs hash m))"
proof -
  assume inv: "sm_inv hash m"
  have "dom (sm_abs hash m) = set (map fst (sm_snapshot m))"
    using sm_snapshot_map[OF inv] dom_map_of_conv_image_fst[of "sm_snapshot m"] by simp
  then show ?thesis
    using sm_size_snapshot[OF inv] distinct_card[OF sm_snapshot_distinct[OF inv]] by simp
qed


text \<open>The byte counters add up, modulo \<open>2 ^ 64\<close>, to the bytes of the entries held.\<close>

lemma policy_bytes:
  assumes "shard_wf sh" and "policy sh = Some p"
  shows "lru_bytes p = sum_list (map (\<lambda>e. entryBytes (fst e) (snd e)) (smap sh))"
proof -
  note inv = shard_wfD(2)[OF assms]
  have d: "distinct (lru_order p)" "distinct (smap sh)"
    using lru.order_distinct[OF inv] shard_wfD(1)[OF assms(1)]
      distinct_map[of fst "lru_order p"] distinct_map[of fst "smap sh"] by blast+
  have inj: "inj_on (\<lambda>(k, v). (k, entryBytes k v)) (set (smap sh))"
    using shard_wfD(1)[OF assms(1)] by (auto simp: inj_on_def dest: eq_key_imp_eq_value)
  have "set (lru_order p) = (\<lambda>(k, v). (k, entryBytes k v)) ` set (smap sh)"
  proof (rule set_eqI, unfold split_paired_all)
    fix k n
    have "(k, n) \<in> set (lru_order p) \<longleftrightarrow> map_of (lru_order p) k = Some n"
      using lru.order_distinct[OF inv] by simp
    also have "\<dots> \<longleftrightarrow> (\<exists>v. map_of (smap sh) k = Some v \<and> n = entryBytes k v)"
      unfolding shard_wfD(3)[OF assms] by auto
    also have "\<dots> \<longleftrightarrow> (\<exists>v. (k, v) \<in> set (smap sh) \<and> n = entryBytes k v)"
      using shard_wfD(1)[OF assms(1)] by simp
    also have "\<dots> \<longleftrightarrow> (k, n) \<in> (\<lambda>(k, v). (k, entryBytes k v)) ` set (smap sh)" by force
    finally show "(k, n) \<in> set (lru_order p) \<longleftrightarrow>
        (k, n) \<in> (\<lambda>(k, v). (k, entryBytes k v)) ` set (smap sh)" .
  qed
  then have "sum snd (set (lru_order p)) = sum (\<lambda>e. entryBytes (fst e) (snd e)) (set (smap sh))"
    using sum.reindex[OF inj, of snd] by (simp add: comp_def split_beta)
  then show ?thesis
    using lru.bytes_order[OF inv] d by (simp add: sum_list_distinct_conv_sum_set)
qed

lemma sum_concat_map:
  "sum_list (map f (concat (map g xs))) = sum_list (map (\<lambda>x. sum_list (map f (g x))) xs)"
  for f :: "'a \<Rightarrow> 'b::comm_monoid_add"
  by (induction xs) simp_all

lemma sm_bytesUsed_snapshot:
  assumes "sm_inv hash m" and "maxMemoryBytes m \<noteq> 0"
  shows "sm_bytesUsed m = sum_list (map (\<lambda>e. entryBytes (fst e) (snd e)) (sm_snapshot m))"
proof -
  have "shardBytes s = sum_list (map (\<lambda>e. entryBytes (fst e) (snd e)) (smap s))"
    if "s \<in> set (shards m)" for s
  proof -
    have "shard_wf s" "policy s \<noteq> None" using that assms by (auto simp: sm_inv_def in_set_conv_nth)
    then show ?thesis using policy_bytes by (auto simp: shardBytes_def)
  qed
  then have "sum_list (map shardBytes (shards m))
      = sum_list (map (\<lambda>s. sum_list (map (\<lambda>e. entryBytes (fst e) (snd e)) (smap s))) (shards m))"
    by (intro arg_cong[where f = sum_list] map_cong) simp_all
  also have "\<dots> = sum_list (map (\<lambda>e. entryBytes (fst e) (snd e)) (sm_snapshot m))"
    unfolding sm_snapshot_concat[OF assms(1)] by (simp add: sum_concat_map)
  finally show ?thesis
    using assms sm_one_shard[OF assms(1)] by (cases "sm_mode m") (auto simp: sm_bytesUsed_def)
qed

text \<open>Clearing.\<close>

lemma onErase_all:
  "lru_inv p \<Longrightarrow> lru_inv (foldl (\<lambda>p e. onErase (fst e) p) p es) \<and>
   map_of (lru_order (foldl (\<lambda>p e. onErase (fst e) p) p es))
     = map_of (lru_order p) |` (- fst ` set es)"
proof (induction es arbitrary: p)
  case (Cons e es)
  then have "lru_inv (onErase (fst e) p)" by (simp add: lru_inv_onErase)
  from Cons.IH[OF this] lru.lookup_erase[OF Cons.prems, of "fst e"] show ?case
    by (auto simp: restrict_map_def fun_eq_iff)
qed (simp add: restrict_map_def)

lemma clearShard_map [simp]:
  "smap (clearShard sh) = []" "policy (clearShard sh) = None \<longleftrightarrow> policy sh = None"
  by (simp_all add: clearShard_def)

lemma clearShard_wf:
  assumes "shard_wf sh"
  shows "shard_wf (clearShard sh)"
proof (cases "policy sh")
  case (Some p)
  let ?q = "foldl (\<lambda>p e. onErase (fst e) p) p (smap sh)"
  have "map_of (lru_order ?q) k = None" for k
    using onErase_all[OF shard_wfD(2)[OF assms Some], of "smap sh"] shard_wfD(3)[OF assms Some, of k]
    by (cases "k \<in> fst ` set (smap sh)") (simp_all add: map_of_eq_None_iff)
  with Some onErase_all[OF shard_wfD(2)[OF assms Some], of "smap sh"] show ?thesis
    by (simp add: shard_wf_def clearShard_def)
qed (simp add: shard_wf_def clearShard_def)

lemma sm_clear_all: "sm_inv hash m \<Longrightarrow> sm_clear m = m\<lparr>shards := map clearShard (shards m)\<rparr>"
  using sm_one_shard[of hash m] by (cases "sm_mode m") (auto simp: sm_clear_def)

lemma sm_clear_inv: "sm_inv hash m \<Longrightarrow> sm_inv hash (sm_clear m)"
  unfolding sm_clear_all by (auto simp: sm_inv_def clearShard_wf)

lemma sm_clear_abs: "sm_inv hash m \<Longrightarrow> sm_abs hash (sm_clear m) = Map.empty"
  using shardIndex_less[of hash m] unfolding sm_clear_all by (auto simp: sm_abs_def fun_eq_iff)

lemma sm_clear_bounded:
  assumes "sm_inv hash m"
  shows "sm_bounded (sm_clear m)"
proof -
  have "within_budget b (clearShard s)" if "shard_wf s" for s b
  proof (cases "policy (clearShard s)")
    case (Some p)
    note wf = clearShard_wf[OF that]
    have "lru_order p = []"
      using shard_wfD(3)[OF wf Some] by (cases "lru_order p") (auto dest!: meta_spec[of _ "fst (hd (lru_order p))"])
    with Some shard_wfD(2)[OF wf Some] show ?thesis by (simp add: within_budget_def lru.entries_order)
  next
    case None
    then show ?thesis unfolding within_budget_def by (simp only: option.case)
  qed
  then show ?thesis
    using assms unfolding sm_clear_all[OF assms]
    by (auto simp: sm_bounded_def sm_inv_def in_set_conv_nth)
qed



subsection \<open>Construction\<close>

lemma roundUp_result:
  assumes "unat n \<le> 2 ^ 63"
  shows "\<exists>j \<le> 63. roundUpToPowerOfTwo n = Some (2 ^ j) \<and> unat n \<le> 2 ^ j \<and> (j = 0 \<or> 2 ^ (j - 1) < unat n)"
proof (cases "n \<le> 1")
  case True
  then have "unat n \<le> 1" by (simp add: word_le_nat_alt)
  with True show ?thesis by (intro exI[of _ 0]) (simp add: roundUpToPowerOfTwo_def)
next
  case False
  then show ?thesis using roundLoop_returns[OF assms, of 0] by (simp add: roundUpToPowerOfTwo_def)
qed

lemma roundUp_diverges:
  assumes "2 ^ 63 < unat n"
  shows "roundUpToPowerOfTwo n = None"
proof -
  have "\<not> n \<le> 1" using assms by (auto simp: word_le_nat_alt)
  then show ?thesis using roundLoop_diverges[OF assms, of 0] by (simp add: roundUpToPowerOfTwo_def)
qed

lemma roundUp_positive: "roundUpToPowerOfTwo n = Some r \<Longrightarrow> 0 < unat r"
proof -
  assume r: "roundUpToPowerOfTwo n = Some r"
  then have "unat n \<le> 2 ^ 63" using roundUp_diverges[of n] by fastforce
  from roundUp_result[OF this] r obtain j where "j \<le> 63" "r = 2 ^ j" by auto
  then show ?thesis by (simp add: unat_exp2)
qed

lemma lru_inv_empty: "lru_inv lru_empty" and lru_order_empty: "lru_order lru_empty = []"
  by (simp_all add: lru_inv_def lru_empty_def lru_order_def)

lemma newShardedMap_inv:
  assumes "newShardedMap mode n mem = Some m"
  shows "sm_inv hash m \<and> sm_bounded m \<and> sm_abs hash m = Map.empty \<and> maxMemoryBytes m = mem \<and> sm_mode m = mode"
proof -
  obtain r where r: "(if mode = Sharded then roundUpToPowerOfTwo n else Some 1) = Some r"
    using assms by (auto simp: newShardedMap_def split: option.splits)
  let ?s = "\<lparr>smap = [], policy = if mem = 0 then None else Some lru_empty\<rparr>"
  have pos: "0 < unat r" using r roundUp_positive by (auto split: if_splits)
  have one: "mode \<noteq> Sharded \<Longrightarrow> r = 1" using r by simp
  have sh: "shards m = replicate (unat r) ?s" and fr: "maxMemoryBytes m = mem" "sm_mode m = mode"
    using assms r by (auto simp: newShardedMap_def Let_def split: if_splits)
  have "shard_wf ?s" by (simp add: shard_wf_def lru_inv_empty lru_order_empty)
  moreover have "within_budget b ?s" for b by (simp add: within_budget_def lru_entries_def lru_empty_def)
  moreover have "unat r < 2 ^ 64" using unsigned_less[of r] by simp
  ultimately have "sm_inv hash m" "sm_bounded m"
    using pos one sh fr by (auto simp: sm_inv_def sm_bounded_def)
  moreover have "sm_abs hash m k = None" for k
    using shardIndex_less[OF \<open>sm_inv hash m\<close>, of k] sh by (simp add: sm_abs_def)
  ultimately show ?thesis using fr by auto
qed

lemma newShardedMap_returns: "unat n \<le> 2 ^ 63 \<Longrightarrow> newShardedMap mode n mem \<noteq> None"
  using roundUp_result[of n] by (auto simp: newShardedMap_def Let_def)


subsection \<open>The interface of the map\<close>

lemma mut_apply_simps [simp]:
  "mut_apply f \<lparr>erase = False, key = k, val = v\<rparr> = f(k \<mapsto> v)"
  "mut_apply f \<lparr>erase = True, key = k, val = v\<rparr> = f(k := None)"
  by (simp_all add: mut_apply_def)

lemma mut_apply_sets:
  "distinct (map fst es) \<Longrightarrow>
   foldl mut_apply f (map (\<lambda>(k, v). \<lparr>erase = False, key = k, val = v\<rparr>) es) = f ++ map_of es"
proof (induction es arbitrary: f)
  case (Cons e es)
  obtain k v where e: "e = (k, v)" by (cases e)
  have "map_of es k = None" using Cons.prems e by (simp add: map_of_eq_None_iff)
  moreover have "foldl mut_apply f (map (\<lambda>(k, v). \<lparr>erase = False, key = k, val = v\<rparr>) (e # es))
      = f(k \<mapsto> v) ++ map_of es"
    using Cons.IH[of "f(k \<mapsto> v)"] Cons.prems e by (simp del: fun_upd_apply)
  ultimately show ?case by (auto simp: e map_add_def fun_eq_iff split: option.split)
qed simp

text \<open>
  What the store relies on: the operations it calls, the partial map behind them, and
  whether the map may forget entries (\<open>lossless\<close> is "no memory budget").  A batch is the
  left-to-right application of its mutations.
\<close>

locale kv_map =
  fixes m_get :: "string \<Rightarrow> 'm \<Rightarrow> string option \<times> 'm"
    and m_set :: "string \<Rightarrow> string \<Rightarrow> 'm \<Rightarrow> 'm"
    and m_del :: "string \<Rightarrow> 'm \<Rightarrow> bool \<times> 'm"
    and m_batch :: "mutation list \<Rightarrow> 'm \<Rightarrow> 'm"
    and m_clear :: "'m \<Rightarrow> 'm"
    and m_snapshot :: "'m \<Rightarrow> (string \<times> string) list"
    and invar :: "'m \<Rightarrow> bool"
    and abs_map :: "'m \<Rightarrow> string \<rightharpoonup> string"
    and lossless :: "'m \<Rightarrow> bool"
  assumes get_result: "invar m \<Longrightarrow> fst (m_get k m) = abs_map m k"
    and get_same: "invar m \<Longrightarrow> abs_map (snd (m_get k m)) = abs_map m"
    and del_result: "invar m \<Longrightarrow> fst (m_del k m) \<longleftrightarrow> abs_map m k \<noteq> None"
    and del_exact: "invar m \<Longrightarrow> abs_map (snd (m_del k m)) = (abs_map m)(k := None)"
    and set_sub: "invar m \<Longrightarrow> abs_map (m_set k v m) \<subseteq>\<^sub>m (abs_map m)(k \<mapsto> v)"
    and set_exact: "invar m \<Longrightarrow> lossless m \<Longrightarrow> abs_map (m_set k v m) = (abs_map m)(k \<mapsto> v)"
    and set_keeps: "invar m \<Longrightarrow> abs_map (m_set k v m) k = Some v"
    and batch_sub: "invar m \<Longrightarrow> abs_map (m_batch mus m) \<subseteq>\<^sub>m foldl mut_apply (abs_map m) mus"
    and batch_exact: "invar m \<Longrightarrow> lossless m \<Longrightarrow> abs_map (m_batch mus m) = foldl mut_apply (abs_map m) mus"
    and clear_empty: "invar m \<Longrightarrow> abs_map (m_clear m) = Map.empty"
    and snapshot_map: "invar m \<Longrightarrow> map_of (m_snapshot m) = abs_map m"
    and snapshot_distinct: "invar m \<Longrightarrow> distinct (map fst (m_snapshot m))"
    and invar_get: "invar m \<Longrightarrow> invar (snd (m_get k m))"
    and invar_set: "invar m \<Longrightarrow> invar (m_set k v m)"
    and invar_del: "invar m \<Longrightarrow> invar (snd (m_del k m))"
    and invar_batch: "invar m \<Longrightarrow> invar (m_batch mus m)"
    and invar_clear: "invar m \<Longrightarrow> invar (m_clear m)"
    and lossless_get: "invar m \<Longrightarrow> lossless (snd (m_get k m)) \<longleftrightarrow> lossless m"
    and lossless_set: "invar m \<Longrightarrow> lossless (m_set k v m) \<longleftrightarrow> lossless m"
    and lossless_del: "invar m \<Longrightarrow> lossless (snd (m_del k m)) \<longleftrightarrow> lossless m"
    and lossless_batch: "invar m \<Longrightarrow> lossless (m_batch mus m) \<longleftrightarrow> lossless m"
    and lossless_clear: "invar m \<Longrightarrow> lossless (m_clear m) \<longleftrightarrow> lossless m"
begin

lemma get_after_set: "invar m \<Longrightarrow> fst (m_get k (m_set k v m)) = Some v"
  by (simp add: get_result invar_set set_keeps)

lemma get_after_del: "invar m \<Longrightarrow> fst (m_get k (snd (m_del k m))) = None"
  by (simp add: get_result invar_del del_exact)

text \<open>A run of batches, as recovery and replication make them.\<close>

lemma batches_invar: "invar m \<Longrightarrow> invar (foldl (\<lambda>m b. m_batch b m) m bs)"
  by (induction bs arbitrary: m) (simp_all add: invar_batch)

lemma batches_lossless: "invar m \<Longrightarrow> lossless (foldl (\<lambda>m b. m_batch b m) m bs) \<longleftrightarrow> lossless m"
  by (induction bs arbitrary: m) (simp_all add: invar_batch lossless_batch)

lemma batches_exact:
  "invar m \<Longrightarrow> lossless m \<Longrightarrow>
   abs_map (foldl (\<lambda>m b. m_batch b m) m bs) = foldl mut_apply (abs_map m) (concat bs)"
  by (induction bs arbitrary: m) (simp_all add: invar_batch lossless_batch batch_exact)

text \<open>Writing a snapshot of one map into an empty one copies it.\<close>

lemma snapshot_rebuilds:
  assumes "invar m" and "invar m'" and "lossless m'" and "abs_map m' = Map.empty"
  shows "abs_map (m_batch (map (\<lambda>(k, v). \<lparr>erase = False, key = k, val = v\<rparr>) (m_snapshot m)) m') = abs_map m"
  using assms by (simp add: batch_exact mut_apply_sets snapshot_map snapshot_distinct)

end

lemma sm_frames:
  "maxMemoryBytes (snd (sm_get hash k m)) = maxMemoryBytes m"
  "maxMemoryBytes (sm_set hash k v m) = maxMemoryBytes m"
  "maxMemoryBytes (snd (sm_del hash k m)) = maxMemoryBytes m"
  "maxMemoryBytes (sm_clear m) = maxMemoryBytes m"
  by (simp_all add: sm_get_def sm_set_def sm_del_def sm_clear_def Let_def split_beta split: LockMode.split option.split)

interpretation shm: kv_map "sm_get hash" "sm_set hash" "sm_del hash" "sm_applyAtomically hash" sm_clear
  sm_snapshot "sm_inv hash" "sm_abs hash" "\<lambda>m. maxMemoryBytes m = 0" for hash
  by unfold_locales
     (simp_all add: sm_get_result sm_abs_get sm_del_result sm_del_abs sm_set_sub sm_set_unbounded
       sm_set_keeps sm_applyAtomically_sub sm_applyAtomically_unbounded sm_clear_abs sm_snapshot_map
       sm_snapshot_distinct sm_inv_get sm_set_inv sm_del_inv sm_applyAtomically_inv sm_clear_inv sm_frames)

end
