(* ===== verification/Store.thy ===== *)
theory Store
  imports Compactor MapRefinement
begin

text \<open>
  The store, \<open>src/src/store/store.cpp\<close>, and the applier of log records,
  \<open>src/src/store/record_applier.cpp\<close>: the sharded map behind its write-ahead log.  Each
  operation takes the kernel's answers it meets and returns the new store together with its
  result or the exception it lets through.  The calls to the replicator are recorded in
  order.
\<close>

subsection \<open>State\<close>

datatype repl_call = OnAppend u64 | OnLogReplaced

text \<open>
  \<open>so_repl\<close> is \<^const>\<open>None\<close> for a null \<open>replicator_\<close>, else the calls made to it so far;
  \<open>so_temp\<close> is the temporary file of the compactor.
\<close>

record store =
  so_map :: sharded_map
  so_logPath :: string
  so_log :: "wal option"
  so_temp :: "logfile option"
  so_recovery :: replay_result
  so_discarded :: bool
  so_repl :: "repl_call list option"
  so_readOnly :: bool
  so_hits :: u64
  so_misses :: u64
  so_writes :: u64
  so_nextTxnId :: u64
  so_txnCommitted :: u64
  so_txnRolledBack :: u64

record store_config =
  cfg_lockMode :: LockMode
  cfg_shardCount :: u64
  cfg_maxMemoryBytes :: u64
  cfg_logPath :: string
  cfg_fsyncMode :: FsyncMode
  cfg_fsyncIntervalMs :: int
  cfg_readOnly :: bool

text \<open>The members before the constructor body runs.\<close>

definition freshStore :: "sharded_map \<Rightarrow> string \<Rightarrow> bool \<Rightarrow> store" where
  "freshStore m path ro =
     \<lparr>so_map = m, so_logPath = path, so_log = None, so_temp = None, so_recovery = rr_init,
      so_discarded = False, so_repl = None, so_readOnly = ro, so_hits = 0, so_misses = 0,
      so_writes = 0, so_nextTxnId = 1, so_txnCommitted = 0, so_txnRolledBack = 0\<rparr>"

definition notifyAppend :: "u64 \<Rightarrow> store \<Rightarrow> store" where
  "notifyAppend off s = s\<lparr>so_repl := map_option (\<lambda>cs. cs @ [OnAppend off]) (so_repl s)\<rparr>"


subsection \<open>Operations of the log path\<close>

definition applyFromLog :: "(string \<Rightarrow> u64) \<Rightarrow> string \<Rightarrow> string \<Rightarrow> store \<Rightarrow> store" where
  "applyFromLog hash k v s = s\<lparr>so_map := sm_set hash k v (so_map s)\<rparr>"

definition eraseFromLog :: "(string \<Rightarrow> u64) \<Rightarrow> string \<Rightarrow> store \<Rightarrow> store" where
  "eraseFromLog hash k s = s\<lparr>so_map := snd (sm_del hash k (so_map s))\<rparr>"

definition applyTransactionFromLog :: "(string \<Rightarrow> u64) \<Rightarrow> mutation list \<Rightarrow> store \<Rightarrow> store" where
  "applyTransactionFromLog hash mus s =
     (if mus = [] then s\<lparr>so_txnCommitted := so_txnCommitted s + 1\<rparr>
      else s\<lparr>so_map := sm_applyAtomically hash mus (so_map s),
             so_writes := so_writes s + of_nat (length mus),
             so_txnCommitted := so_txnCommitted s + 1\<rparr>)"

text \<open>\<open>Command::apply\<close>.\<close>

fun command_apply :: "(string \<Rightarrow> u64) \<Rightarrow> command \<Rightarrow> store \<Rightarrow> store" where
  "command_apply hash (SetCommand k v) s = applyFromLog hash k v s"
| "command_apply hash (DelCommand k) s = eraseFromLog hash k s"

record applier =
  ap_pending :: "mutation list"
  ap_inside :: bool
  ap_openTxnId :: u64
  ap_recordsApplied :: u64
  ap_transactionsApplied :: u64

definition newApplier :: applier where
  "newApplier = \<lparr>ap_pending = [], ap_inside = False, ap_openTxnId = 0, ap_recordsApplied = 0,
                 ap_transactionsApplied = 0\<rparr>"

definition applier_apply ::
  "(string \<Rightarrow> u64) \<Rightarrow> string \<Rightarrow> applier \<times> store \<Rightarrow> bool \<times> applier \<times> store" where
  "applier_apply hash payload as =
     (let (a, s) = as
      in case parseBeginMarker payload of
           Some txnId \<Rightarrow>
             if ap_inside a then (False, a, s)
             else (True, a\<lparr>ap_inside := True, ap_openTxnId := txnId, ap_pending := [],
                           ap_recordsApplied := ap_recordsApplied a + 1\<rparr>, s)
         | None \<Rightarrow>
             (case parseCommitMarker payload of
                Some txnId \<Rightarrow>
                  if \<not> ap_inside a \<or> txnId \<noteq> ap_openTxnId a then (False, a, s)
                  else (True, a\<lparr>ap_pending := [], ap_inside := False,
                                ap_transactionsApplied := ap_transactionsApplied a + 1,
                                ap_recordsApplied := ap_recordsApplied a + 1\<rparr>,
                        applyTransactionFromLog hash (ap_pending a) s)
              | None \<Rightarrow>
                  (case deserializeCommand payload of
                     None \<Rightarrow> (False, a, s)
                   | Some command \<Rightarrow>
                       (True,
                        (if ap_inside a then a\<lparr>ap_pending := ap_pending a @ [toMutation command]\<rparr> else a)
                          \<lparr>ap_recordsApplied := ap_recordsApplied a + 1\<rparr>,
                        if ap_inside a then s else command_apply hash command s))))"

definition abandonOpenTransaction :: "applier \<Rightarrow> applier" where
  "abandonOpenTransaction a = a\<lparr>ap_pending := [], ap_inside := False, ap_openTxnId := 0\<rparr>"


subsection \<open>Construction and recovery\<close>

definition recoverFromLog ::
  "(string \<Rightarrow> u64) \<Rightarrow> replay_io \<Rightarrow> logfile option \<Rightarrow> store \<Rightarrow>
   (syscall_error + replay_result) \<times> logfile option \<times> store" where
  "recoverFromLog hash io file s =
     (let (r, file', a, s') = replay io (applier_apply hash) file (newApplier, s)
      in (r, file', case r of
                      Inl e \<Rightarrow> s'
                    | Inr x \<Rightarrow> if ap_inside a then s'\<lparr>so_discarded := True\<rparr> else s'))"

text \<open>
  The constructor: \<^const>\<open>None\<close> when the shard count cannot be rounded up, \<^const>\<open>Inl\<close> with the
  file as it was left when a system call fails.
\<close>

definition newStore ::
  "(string \<Rightarrow> u64) \<Rightarrow> replay_io \<Rightarrow> bool \<Rightarrow> bool \<Rightarrow> store_config \<Rightarrow> logfile option \<Rightarrow>
   ((syscall_error \<times> logfile option) + store) option" where
  "newStore hash io openOk seekOk cfg file =
     (case newShardedMap (cfg_lockMode cfg) (cfg_shardCount cfg) (cfg_maxMemoryBytes cfg) of
        None \<Rightarrow> None
      | Some m \<Rightarrow>
          (let s = freshStore m (cfg_logPath cfg) (cfg_readOnly cfg)
           in if cfg_logPath cfg = [] then Some (Inr s)
              else case recoverFromLog hash io file s of
                (Inl e, file', s') \<Rightarrow> Some (Inl (e, file'))
              | (Inr r, file', s') \<Rightarrow>
                  (case newWal openOk seekOk (cfg_fsyncMode cfg) (cfg_fsyncIntervalMs cfg) file' of
                     Inl e \<Rightarrow> Some (Inl (e, file'))
                   | Inr w \<Rightarrow> Some (Inr (s'\<lparr>so_recovery := r, so_log := Some w\<rparr>)))))"


subsection \<open>Client operations\<close>

definition store_get :: "(string \<Rightarrow> u64) \<Rightarrow> string \<Rightarrow> store \<Rightarrow> string option \<times> store" where
  "store_get hash k s =
     (let (r, m) = sm_get hash k (so_map s); s' = s\<lparr>so_map := m\<rparr>
      in (r, if r \<noteq> None then s'\<lparr>so_hits := so_hits s' + 1\<rparr> else s'\<lparr>so_misses := so_misses s' + 1\<rparr>))"

definition store_getMany :: "(string \<Rightarrow> u64) \<Rightarrow> string list \<Rightarrow> store \<Rightarrow> (bool \<times> string) list \<times> store" where
  "store_getMany hash ks s =
     (let (rs, m) = sm_getMany hash ks (so_map s)
      in (rs, foldl (\<lambda>s r. if fst r then s\<lparr>so_hits := so_hits s + 1\<rparr> else s\<lparr>so_misses := so_misses s + 1\<rparr>)
                (s\<lparr>so_map := m\<rparr>) rs))"

text \<open>Write-ahead: the record is appended first, and an exception leaves the map alone.\<close>

definition store_set ::
  "(string \<Rightarrow> u64) \<Rightarrow> write_ans list \<Rightarrow> bool \<Rightarrow> string \<Rightarrow> string \<Rightarrow> store \<Rightarrow> (syscall_error + unit) \<times> store" where
  "store_set hash as syncOk k v s =
     (case so_log s of
        Some w \<Rightarrow>
          (case wal_append as syncOk (serialize (SetCommand k v)) w of
             (Inl e, w') \<Rightarrow> (Inl e, s\<lparr>so_log := Some w'\<rparr>)
           | (Inr endOffset, w') \<Rightarrow>
               (let s' = notifyAppend endOffset
                      (s\<lparr>so_log := Some w', so_map := sm_set hash k v (so_map s)\<rparr>)
                in (Inr (), s'\<lparr>so_writes := so_writes s' + 1\<rparr>)))
      | None \<Rightarrow>
          (Inr (), s\<lparr>so_map := sm_set hash k v (so_map s), so_writes := so_writes s + 1\<rparr>))"

definition store_del ::
  "(string \<Rightarrow> u64) \<Rightarrow> write_ans list \<Rightarrow> bool \<Rightarrow> string \<Rightarrow> store \<Rightarrow> (syscall_error + bool) \<times> store" where
  "store_del hash as syncOk k s =
     (let (removed, m) = sm_del hash k (so_map s)
      in case so_log s of
        Some w \<Rightarrow>
          (case wal_append as syncOk (serialize (DelCommand k)) w of
             (Inl e, w') \<Rightarrow> (Inl e, s\<lparr>so_log := Some w'\<rparr>)
           | (Inr endOffset, w') \<Rightarrow>
               (let s' = notifyAppend endOffset (s\<lparr>so_log := Some w', so_map := m\<rparr>)
                in (Inr removed, s'\<lparr>so_writes := so_writes s' + 1\<rparr>)))
      | None \<Rightarrow> (Inr removed, s\<lparr>so_map := m, so_writes := so_writes s + 1\<rparr>))"

definition mutation_payload :: "mutation \<Rightarrow> string" where
  "mutation_payload mu =
     (if erase mu then serialize (DelCommand (key mu)) else serialize (SetCommand (key mu) (val mu)))"

definition commitTransaction ::
  "(string \<Rightarrow> u64) \<Rightarrow> write_ans list \<Rightarrow> bool \<Rightarrow> u64 \<Rightarrow> mutation list \<Rightarrow> store \<Rightarrow> bool \<times> store" where
  "commitTransaction hash as syncOk txnId mus s =
     (if mus = [] then (True, s\<lparr>so_txnCommitted := so_txnCommitted s + 1\<rparr>)
      else
        (let done = (\<lambda>s. (True, s\<lparr>so_writes := so_writes s + of_nat (length mus),
                                  so_txnCommitted := so_txnCommitted s + 1\<rparr>))
         in case so_log s of
              Some w \<Rightarrow>
                (let payloads = serializeBeginMarker txnId # map mutation_payload mus
                                @ [serializeCommitMarker txnId]
                 in case wal_appendBatch as syncOk payloads w of
                      (Inl e, w') \<Rightarrow> (False, s\<lparr>so_log := Some w'\<rparr>)
                    | (Inr endOffset, w') \<Rightarrow>
                        done (notifyAppend endOffset
                          (s\<lparr>so_log := Some w', so_map := sm_applyAtomically hash mus (so_map s)\<rparr>)))
            | None \<Rightarrow> done (s\<lparr>so_map := sm_applyAtomically hash mus (so_map s)\<rparr>)))"

definition nextTransactionId :: "store \<Rightarrow> u64 \<times> store" where
  "nextTransactionId s = (so_nextTxnId s, s\<lparr>so_nextTxnId := so_nextTxnId s + 1\<rparr>)"

definition noteRollback :: "store \<Rightarrow> store" where
  "noteRollback s = s\<lparr>so_txnRolledBack := so_txnRolledBack s + 1\<rparr>"

definition setReplicator :: "bool \<Rightarrow> store \<Rightarrow> store" where
  "setReplicator present s = s\<lparr>so_repl := (if present then Some [] else None)\<rparr>"

definition store_size :: "store \<Rightarrow> nat" where
  "store_size s = sm_size (so_map s)"

definition store_bytesUsed :: "store \<Rightarrow> u64" where
  "store_bytesUsed s = sm_bytesUsed (so_map s)"

definition logOffset :: "store \<Rightarrow> u64" where
  "logOffset s = (case so_log s of None \<Rightarrow> 0 | Some w \<Rightarrow> wal_offset w)"

text \<open>\<open>stat\<close> answers with the device and inode number, or fails.\<close>

definition replicationToken :: "(u64 \<times> u64) option \<Rightarrow> store \<Rightarrow> string" where
  "replicationToken info s =
     (if so_logPath s = [] then []
      else case info of
             None \<Rightarrow> []
           | Some (dev, ino) \<Rightarrow> to_string (unat dev) @ ''-'' @ to_string (unat ino))"

definition appendReplicatedRecords ::
  "write_ans list \<Rightarrow> bool \<Rightarrow> string list \<Rightarrow> store \<Rightarrow> (syscall_error + u64) \<times> store" where
  "appendReplicatedRecords as syncOk payloads s =
     (case so_log s of
        None \<Rightarrow> (Inr 0, s)
      | Some w \<Rightarrow> (let (r, w') = wal_appendBatch as syncOk payloads w in (r, s\<lparr>so_log := Some w'\<rparr>)))"

definition resetForFullResync :: "bool \<Rightarrow> bool \<Rightarrow> store \<Rightarrow> (syscall_error + unit) \<times> store" where
  "resetForFullResync truncOk syncOk s =
     (let s' = s\<lparr>so_map := sm_clear (so_map s)\<rparr>
      in case so_log s' of
           None \<Rightarrow> (Inr (), s')
         | Some w \<Rightarrow> (let (r, w') = truncateAll truncOk syncOk w in (r, s'\<lparr>so_log := Some w'\<rparr>)))"

text \<open>
  Compaction: on success the log is reopened (\<open>reopenOk\<close>, \<open>seekOk\<close>; an exception escapes) and
  the replicator told.
\<close>

definition store_compact ::
  "compact_io \<Rightarrow> bool \<Rightarrow> bool \<Rightarrow> store \<Rightarrow> (syscall_error + compaction_result) \<times> store" where
  "store_compact io reopenOk seekOk s =
     (case so_log s of
        None \<Rightarrow>
          (Inr \<lparr>cr_ok = False, cr_recordsWritten = 0, cr_bytesBefore = 0, cr_bytesAfter = 0,
                cr_error = ''no write-ahead log configured''\<rparr>, s)
      | Some w \<Rightarrow>
          (let (result, states) =
                 rewrite io (sm_snapshot (so_map s)) \<lparr>st_log = wal_file w, st_temp = so_temp s\<rparr>;
               st = last states;
               s' = s\<lparr>so_temp := st_temp st\<rparr>
           in if cr_ok result then
                (case reopenAfterCompaction reopenOk seekOk (st_log st) w of
                   (Inl e, w') \<Rightarrow> (Inl e, s'\<lparr>so_log := Some w'\<rparr>)
                 | (Inr u, w') \<Rightarrow>
                     (Inr result,
                      s'\<lparr>so_log := Some w', so_repl := map_option (\<lambda>cs. cs @ [OnLogReplaced]) (so_repl s')\<rparr>))
              else (Inr result, s'\<lparr>so_log := Some (w\<lparr>wal_file := st_log st\<rparr>)\<rparr>)))"

text \<open>\<open>replStats\<close> is the line of the replicator, when there is one.\<close>

definition statsLine :: "string \<Rightarrow> store \<Rightarrow> string" where
  "statsLine replStats s =
     (let m = so_map s
      in ''hits='' @ to_string (unat (so_hits s)) @
         '' misses='' @ to_string (unat (so_misses s)) @
         '' writes='' @ to_string (unat (so_writes s)) @
         '' evictions='' @ to_string (unat (evictions m)) @
         '' keys='' @ to_string (store_size s) @
         '' bytes='' @ to_string (unat (store_bytesUsed s)) @
         '' limit='' @ to_string (unat (maxMemoryBytes m)) @
         '' shards='' @ to_string (length (shards m)) @
         '' lock='' @ lockModeName (sm_mode m) @
         '' txn_commits='' @ to_string (unat (so_txnCommitted s)) @
         '' txn_rollbacks='' @ to_string (unat (so_txnRolledBack s)) @
         (case so_log s of
            Some w \<Rightarrow>
              '' log='' @ fsyncModeName (wal_mode w) @
              '' log_appends='' @ to_string (unat (wal_appends w)) @
              '' log_syncs='' @ to_string (unat (wal_syncs w)) @
              '' log_bytes='' @ to_string (unat (wal_bytesWritten w)) @
              '' recovered='' @ to_string (rr_recordsApplied (so_recovery s))
          | None \<Rightarrow> '' log=off'') @
         (if so_repl s \<noteq> None then '' '' @ replStats else '' repl=off''))"

end
