(* ===== verification/Recovery.thy ===== *)
theory Recovery
  imports Store
begin

text \<open>
  Recovery: what the constructor of the store rebuilds from a log.  An abstract reading of a
  list of payloads is given first, the applier is shown to implement it, and logs made of
  single commands and whole transactions are shown to recover, from any crash image, to the
  effect of their complete units.
\<close>

subsection \<open>Abstract reading of a log\<close>

record recov =
  rc_map :: "string \<rightharpoonup> string"
  rc_pending :: "mutation list"
  rc_inside :: bool
  rc_id :: u64

definition rc_init :: recov where
  "rc_init = \<lparr>rc_map = Map.empty, rc_pending = [], rc_inside = False, rc_id = 0\<rparr>"

definition rec_apply :: "string \<Rightarrow> recov \<Rightarrow> bool \<times> recov" where
  "rec_apply payload rc =
     (case parseBeginMarker payload of
        Some i \<Rightarrow>
          if rc_inside rc then (False, rc)
          else (True, rc\<lparr>rc_inside := True, rc_id := i, rc_pending := []\<rparr>)
      | None \<Rightarrow>
          (case parseCommitMarker payload of
             Some i \<Rightarrow>
               if \<not> rc_inside rc \<or> i \<noteq> rc_id rc then (False, rc)
               else (True, rc\<lparr>rc_map := foldl mut_apply (rc_map rc) (rc_pending rc),
                              rc_pending := [], rc_inside := False\<rparr>)
           | None \<Rightarrow>
               (case deserializeCommand payload of
                  None \<Rightarrow> (False, rc)
                | Some c \<Rightarrow>
                    (True, if rc_inside rc then rc\<lparr>rc_pending := rc_pending rc @ [toMutation c]\<rparr>
                           else rc\<lparr>rc_map := mut_apply (rc_map rc) (toMutation c)\<rparr>))))"

definition recovered :: "string list \<Rightarrow> recov" where
  "recovered ps = snd (feed rec_apply ps rc_init)"


subsection \<open>The applier implements it\<close>

definition rec_rel :: "(string \<Rightarrow> u64) \<Rightarrow> applier \<times> store \<Rightarrow> recov \<Rightarrow> bool" where
  "rec_rel hash as rc \<longleftrightarrow>
     sm_inv hash (so_map (snd as)) \<and> maxMemoryBytes (so_map (snd as)) = 0 \<and>
     sm_abs hash (so_map (snd as)) = rc_map rc \<and> ap_pending (fst as) = rc_pending rc \<and>
     ap_inside (fst as) = rc_inside rc \<and> ap_openTxnId (fst as) = rc_id rc"

text \<open>The members of the store the applier never touches.\<close>

definition same_rest :: "store \<Rightarrow> store \<Rightarrow> bool" where
  "same_rest s s' \<longleftrightarrow> so_log s' = so_log s \<and> so_temp s' = so_temp s \<and> so_repl s' = so_repl s \<and>
     so_readOnly s' = so_readOnly s \<and> so_logPath s' = so_logPath s \<and> so_nextTxnId s' = so_nextTxnId s \<and>
     so_discarded s' = so_discarded s"

lemma same_rest_refl [simp]: "same_rest s s"
  by (simp add: same_rest_def)

lemma same_rest_trans: "same_rest a b \<Longrightarrow> same_rest b c \<Longrightarrow> same_rest a c"
  by (simp add: same_rest_def)

lemma command_apply_map:
  "so_map (command_apply hash c s) =
     (case c of SetCommand k v \<Rightarrow> sm_set hash k v (so_map s) | DelCommand k \<Rightarrow> snd (sm_del hash k (so_map s)))"
  by (cases c) (simp_all add: applyFromLog_def eraseFromLog_def)

lemma command_apply_abs:
  assumes "sm_inv hash (so_map s)" and "maxMemoryBytes (so_map s) = 0"
  shows "sm_inv hash (so_map (command_apply hash c s))"
    and "maxMemoryBytes (so_map (command_apply hash c s)) = 0"
    and "sm_abs hash (so_map (command_apply hash c s)) = mut_apply (sm_abs hash (so_map s)) (toMutation c)"
  by (cases c; simp only: command_apply_map command.case toMutation.simps mut_apply_simps assms(2)
      shm.invar_set[OF assms(1)] shm.lossless_set[OF assms(1)] shm.set_exact[OF assms]
      shm.invar_del[OF assms(1)] shm.lossless_del[OF assms(1)] shm.del_exact[OF assms(1)])+

lemma applyTransaction_map:
  "so_map (applyTransactionFromLog hash mus s) = sm_applyAtomically hash mus (so_map s)"
  by (simp add: applyTransactionFromLog_def sm_applyAtomically_def)

lemma same_rest_ops [simp]:
  "same_rest s (command_apply hash c s)" "same_rest s (applyTransactionFromLog hash mus s)"
  by (cases c; simp add: same_rest_def applyFromLog_def eraseFromLog_def)
     (simp add: same_rest_def applyTransactionFromLog_def)

lemma applier_rest: "same_rest (snd as) (snd (snd (applier_apply hash p as)))"
  by (cases as) (simp add: applier_apply_def split: option.split)

lemma applier_sim:
  assumes "rec_rel hash as rc"
  shows "fst (applier_apply hash p as) = fst (rec_apply p rc) \<and>
     rec_rel hash (snd (applier_apply hash p as)) (snd (rec_apply p rc))"
proof -
  obtain a s where as: "as = (a, s)" by (cases as)
  note rel = assms[unfolded as rec_rel_def fst_conv snd_conv]
  show ?thesis
  proof (cases "parseBeginMarker p")
    case (Some i)
    with rel show ?thesis by (cases "ap_inside a") (simp_all add: as applier_apply_def rec_apply_def rec_rel_def)
  next
    case nb: None
    show ?thesis
    proof (cases "parseCommitMarker p")
      case (Some i)
      with nb rel show ?thesis
        by (cases "\<not> ap_inside a \<or> i \<noteq> ap_openTxnId a")
           (simp_all add: as applier_apply_def rec_apply_def rec_rel_def applyTransaction_map
             shm.invar_batch shm.lossless_batch shm.batch_exact)
    next
      case None
      with nb rel show ?thesis
        by (cases "deserializeCommand p"; cases "ap_inside a")
           (simp_all add: as applier_apply_def rec_apply_def rec_rel_def command_apply_abs)
    qed
  qed
qed

lemma feed_sim:
  assumes "\<And>p s a. R s a \<Longrightarrow> fst (f p s) = fst (g p a) \<and> R (snd (f p s)) (snd (g p a))" and "R s a"
  shows "fst (feed f ps s) = fst (feed g ps a) \<and> R (snd (feed f ps s)) (snd (feed g ps a))"
  using assms(2)
proof (induction ps arbitrary: s a)
  case (Cons p ps)
  obtain b s' where f: "f p s = (b, s')" by fastforce
  obtain c a' where g: "g p a = (c, a')" by fastforce
  have "b = c" "R s' a'" using assms(1)[OF Cons.prems, of p] f g by auto
  with Cons.IH[of s' a'] f g show ?case by (cases c) (auto simp: split_beta Let_def)
qed simp

lemma feed_rest: "same_rest (snd as) (snd (snd (feed (applier_apply hash) ps as)))"
proof (induction ps arbitrary: "as")
  case (Cons p ps)
  obtain b as' where f: "applier_apply hash p as = (b, as')" by (cases "applier_apply hash p as")
  have step: "same_rest (snd as) (snd as')" using applier_rest[of "as" hash p] f by simp
  show ?case
  proof (cases b)
    case True
    with same_rest_trans[OF step Cons.IH[of as']] f show ?thesis by (simp add: split_beta Let_def)
  next
    case False
    with step f show ?thesis by simp
  qed
qed simp


subsection \<open>Recovery of a log\<close>

lemma recoverFromLog_log:
  assumes "io_fine io" and "lf_bytes lf = log_of ps @ t" and "\<forall>p \<in> set ps. payload_ok p" and "torn t"
    and "rec_rel hash (newApplier, s) rc_init"
  shows "\<exists>r lf' s'. recoverFromLog hash io (Some lf) s = (Inr r, Some lf', s') \<and>
     sm_inv hash (so_map s') \<and> maxMemoryBytes (so_map s') = 0 \<and>
     sm_abs hash (so_map s') = rc_map (recovered ps) \<and>
     rr_recordsApplied r = fst (feed rec_apply ps rc_init) \<and>
     lf_bytes lf' = log_of (take (fst (feed rec_apply ps rc_init)) ps) \<and>
     (lf_durable lf' = lf_bytes lf' \<or> lf' = lf) \<and>
     so_discarded s' = (so_discarded s \<or> rc_inside (recovered ps)) \<and>
     so_readOnly s' = so_readOnly s \<and> so_logPath s' = so_logPath s \<and> so_repl s' = so_repl s \<and>
     so_temp s' = so_temp s"
proof -
  obtain a s1 where f: "snd (feed (applier_apply hash) ps (newApplier, s)) = (a, s1)"
    by (cases "snd (feed (applier_apply hash) ps (newApplier, s))")
  have sim: "fst (feed (applier_apply hash) ps (newApplier, s)) = fst (feed rec_apply ps rc_init) \<and>
      rec_rel hash (snd (feed (applier_apply hash) ps (newApplier, s))) (snd (feed rec_apply ps rc_init))"
    by (rule feed_sim[where R = "rec_rel hash", OF applier_sim assms(5)])
  note n = conjunct1[OF sim]
  have rel: "rec_rel hash (a, s1) (recovered ps)"
    using conjunct2[OF sim] unfolding f recovered_def .
  have rest: "same_rest s s1" using feed_rest[of "(newApplier, s)" hash ps] f by simp
  obtain r lf' where rp: "replay io (applier_apply hash) (Some lf) (newApplier, s) = (Inr r, Some lf', a, s1)"
    and r: "rr_recordsApplied r = fst (feed rec_apply ps rc_init)"
      "lf_bytes lf' = log_of (take (fst (feed rec_apply ps rc_init)) ps)"
      "lf_durable lf' = lf_bytes lf' \<or> lf' = lf"
    using replay_log[OF assms(1-4), of "applier_apply hash" "(newApplier, s)"] unfolding f n by blast
  define s' where "s' = (if ap_inside a then s1\<lparr>so_discarded := True\<rparr> else s1)"
  have rec: "recoverFromLog hash io (Some lf) s = (Inr r, Some lf', s')"
    using rp by (simp add: recoverFromLog_def s'_def)
  have frame: "so_discarded s' = (so_discarded s \<or> rc_inside (recovered ps))" "so_map s' = so_map s1"
    "so_readOnly s' = so_readOnly s" "so_logPath s' = so_logPath s" "so_repl s' = so_repl s"
    "so_temp s' = so_temp s"
    using rel rest by (simp_all add: rec_rel_def same_rest_def s'_def)
  have inv: "sm_inv hash (so_map s')" "maxMemoryBytes (so_map s') = 0"
    "sm_abs hash (so_map s') = rc_map (recovered ps)"
    using rel unfolding rec_rel_def frame(2) by simp_all
  show ?thesis by (intro exI[of _ r] exI[of _ lf'] exI[of _ s'] conjI; fact rec frame r inv)
qed


text \<open>A constructor call none of whose system calls fails, on a log without memory budget.\<close>

definition cfg_plain :: "store_config \<Rightarrow> bool" where
  "cfg_plain cfg \<longleftrightarrow> cfg_maxMemoryBytes cfg = 0 \<and> cfg_logPath cfg \<noteq> [] \<and> unat (cfg_shardCount cfg) \<le> 2 ^ 63"

lemma newStore_log:
  assumes "cfg_plain cfg" and "io_fine io" and "lf_bytes lf = log_of ps @ t"
    and "\<forall>p \<in> set ps. payload_ok p" and "torn t"
  shows "\<exists>s w. newStore hash io True True cfg (Some lf) = Some (Inr s) \<and> so_log s = Some w \<and>
     sm_inv hash (so_map s) \<and> maxMemoryBytes (so_map s) = 0 \<and>
     sm_abs hash (so_map s) = rc_map (recovered ps) \<and> wal_inv w \<and>
     wal_bytes w = log_of (take (fst (feed rec_apply ps rc_init)) ps) \<and>
     wal_mode w = cfg_fsyncMode cfg \<and> (lf_durable (wal_file w) = wal_bytes w \<or> wal_file w = lf) \<and>
     so_discarded s = rc_inside (recovered ps)"
proof -
  obtain m where m: "newShardedMap (cfg_lockMode cfg) (cfg_shardCount cfg) 0 = Some m"
    using assms(1) newShardedMap_returns[of "cfg_shardCount cfg" "cfg_lockMode cfg" 0]
    by (auto simp: cfg_plain_def)
  let ?s = "freshStore m (cfg_logPath cfg) (cfg_readOnly cfg)"
  have "rec_rel hash (newApplier, ?s) rc_init"
    using newShardedMap_inv[OF m, of hash]
    by (simp add: rec_rel_def newApplier_def rc_init_def freshStore_def)
  from recoverFromLog_log[OF assms(2-5) this] obtain r lf' s' where
    rec: "recoverFromLog hash io (Some lf) ?s = (Inr r, Some lf', s')"
    and s': "sm_inv hash (so_map s')" "maxMemoryBytes (so_map s') = 0"
      "sm_abs hash (so_map s') = rc_map (recovered ps)"
      "so_discarded s' = (so_discarded ?s \<or> rc_inside (recovered ps))"
    and lf': "lf_bytes lf' = log_of (take (fst (feed rec_apply ps rc_init)) ps)"
      "lf_durable lf' = lf_bytes lf' \<or> lf' = lf"
    by blast
  define w where "w = \<lparr>wal_mode = cfg_fsyncMode cfg,
      intervalMs = (if cfg_fsyncMode cfg = Interval \<and> cfg_fsyncIntervalMs cfg \<le> 0 then 1000
        else cfg_fsyncIntervalMs cfg), wal_fd = True, wal_file = lf',
      wal_offset = of_nat (length (lf_bytes lf')), wal_appends = 0, wal_syncs = 0, wal_bytesWritten = 0\<rparr>"
  define s where "s = s'\<lparr>so_recovery := r, so_log := Some w\<rparr>"
  have "newStore hash io True True cfg (Some lf) = Some (Inr s)"
    using assms(1) m rec by (simp add: newStore_def newWal_def cfg_plain_def s_def w_def Let_def)
  moreover have "so_log s = Some w" "so_map s = so_map s'" "so_discarded s = rc_inside (recovered ps)"
    using s'(4) by (simp_all add: s_def freshStore_def)
  moreover have "wal_inv w" "wal_bytes w = lf_bytes lf'" "wal_mode w = cfg_fsyncMode cfg" "wal_file w = lf'"
    by (simp_all add: w_def wal_inv_def wal_bytes_def)
  ultimately show ?thesis using s'(1-3) lf' by auto
qed


subsection \<open>Logs of whole units\<close>

text \<open>The two things the store appends: one command, or a transaction between its markers.\<close>

datatype log_unit = Single command | Txn u64 "mutation list"

fun mut_command :: "mutation \<Rightarrow> command" where
  "mut_command mu = (if erase mu then DelCommand (key mu) else SetCommand (key mu) (val mu))"

fun unit_payloads :: "log_unit \<Rightarrow> string list" where
  "unit_payloads (Single c) = [serialize c]"
| "unit_payloads (Txn i mus) =
     serializeBeginMarker i # map mutation_payload mus @ [serializeCommitMarker i]"

fun unit_muts :: "log_unit \<Rightarrow> mutation list" where
  "unit_muts (Single c) = [toMutation c]"
| "unit_muts (Txn i mus) = mus"

text \<open>Keys and values short enough for the length fields and the record limit.\<close>

definition command_fits :: "command \<Rightarrow> bool" where
  "command_fits c \<longleftrightarrow> command_ok c \<and> payload_ok (serialize c)"

fun unit_ok :: "log_unit \<Rightarrow> bool" where
  "unit_ok (Single c) = command_fits c"
| "unit_ok (Txn i mus) = (\<forall>mu \<in> set mus. command_fits (mut_command mu))"

definition units_payloads :: "log_unit list \<Rightarrow> string list" where
  "units_payloads us = concat (map unit_payloads us)"

definition units_map :: "log_unit list \<Rightarrow> string \<rightharpoonup> string" where
  "units_map us = foldl mut_apply Map.empty (concat (map unit_muts us))"

text \<open>How many whole units the first \<open>n\<close> records hold.\<close>

fun units_in :: "nat \<Rightarrow> log_unit list \<Rightarrow> nat" where
  "units_in n [] = 0"
| "units_in n (u # us) =
     (if length (unit_payloads u) \<le> n then Suc (units_in (n - length (unit_payloads u)) us) else 0)"

lemma mutation_payload_command: "mutation_payload mu = serialize (mut_command mu)"
  by (simp add: mutation_payload_def)

lemma units_simps [simp]:
  "units_payloads [] = []" "units_payloads (u # us) = unit_payloads u @ units_payloads us"
  "units_payloads (us @ vs) = units_payloads us @ units_payloads vs"
  by (simp_all add: units_payloads_def)

lemma units_map_append: "units_map (us @ vs) = foldl mut_apply (units_map us) (concat (map unit_muts vs))"
  by (simp add: units_map_def)

lemma mut_apply_canon: "mut_apply f (toMutation (mut_command mu)) = mut_apply f mu"
  by (simp add: mut_apply_def)

lemma mut_apply_canons:
  "foldl mut_apply f (map (\<lambda>mu. toMutation (mut_command mu)) mus) = foldl mut_apply f mus"
  by (induction mus arbitrary: f) (simp_all only: list.map foldl.simps mut_apply_canon)

lemma unit_payloads_ok: "unit_ok u \<Longrightarrow> \<forall>p \<in> set (unit_payloads u). payload_ok p"
  by (cases u) (auto simp: command_fits_def mutation_payload_command payload_ok_def
      unat_kMaxPayloadBytes simp del: mut_command.simps)

lemma units_payloads_ok: "\<forall>u \<in> set us. unit_ok u \<Longrightarrow> \<forall>p \<in> set (units_payloads us). payload_ok p"
  using unit_payloads_ok by (auto simp: units_payloads_def)



subsection \<open>Reading whole and partial units\<close>

definition outside :: "recov \<Rightarrow> (string \<rightharpoonup> string) \<Rightarrow> bool" where
  "outside rc f \<longleftrightarrow> \<not> rc_inside rc \<and> rc_map rc = f"

lemma rec_apply_command:
  "command_ok c \<Longrightarrow> rec_apply (serialize c) rc =
     (True, if rc_inside rc then rc\<lparr>rc_pending := rc_pending rc @ [toMutation c]\<rparr>
            else rc\<lparr>rc_map := mut_apply (rc_map rc) (toMutation c)\<rparr>)"
  by (simp add: rec_apply_def deserialize_serialize)

lemma rec_apply_begin:
  "\<not> rc_inside rc \<Longrightarrow>
   rec_apply (serializeBeginMarker i) rc = (True, rc\<lparr>rc_inside := True, rc_id := i, rc_pending := []\<rparr>)"
  by (simp add: rec_apply_def)

lemma rec_apply_commit:
  "rc_inside rc \<Longrightarrow> rec_apply (serializeCommitMarker (rc_id rc)) rc =
     (True, rc\<lparr>rc_map := foldl mut_apply (rc_map rc) (rc_pending rc), rc_pending := [], rc_inside := False\<rparr>)"
  by (simp add: rec_apply_def)

lemma feed_body:
  assumes "rc_inside rc" and "\<forall>mu \<in> set mus. command_fits (mut_command mu)"
  shows "feed rec_apply (map mutation_payload mus) rc =
    (length mus, rc\<lparr>rc_pending := rc_pending rc @ map (\<lambda>mu. toMutation (mut_command mu)) mus\<rparr>)"
  using assms
proof (induction mus arbitrary: rc)
  case (Cons mu mus)
  then have "rec_apply (mutation_payload mu) rc
      = (True, rc\<lparr>rc_pending := rc_pending rc @ [toMutation (mut_command mu)]\<rparr>)"
    by (simp add: mutation_payload_command rec_apply_command command_fits_def del: mut_command.simps)
  with Cons show ?case by (simp add: Let_def del: mut_command.simps)
qed simp

lemma feed_unit:
  assumes "unit_ok u" and "outside rc f"
  shows "fst (feed rec_apply (unit_payloads u) rc) = length (unit_payloads u)"
    and "outside (snd (feed rec_apply (unit_payloads u) rc)) (foldl mut_apply f (unit_muts u))"
proof -
  have "fst (feed rec_apply (unit_payloads u) rc) = length (unit_payloads u) \<and>
      outside (snd (feed rec_apply (unit_payloads u) rc)) (foldl mut_apply f (unit_muts u))"
  proof (cases u)
    case (Single c)
    with assms show ?thesis by (simp add: rec_apply_command command_fits_def outside_def Let_def)
  next
    case (Txn i mus)
    let ?b = "rc\<lparr>rc_inside := True, rc_id := i, rc_pending := []\<rparr>"
    let ?c = "?b\<lparr>rc_pending := map (\<lambda>mu. toMutation (mut_command mu)) mus\<rparr>"
    have b: "rec_apply (serializeBeginMarker i) rc = (True, ?b)"
      using assms(2) rec_apply_begin[of rc i] by (simp add: outside_def)
    have "feed rec_apply (map mutation_payload mus) ?b = (length mus, ?c)"
      using feed_body[of ?b mus] assms(1) Txn by (simp del: mut_command.simps)
    moreover have "rec_apply (serializeCommitMarker i) ?c
        = (True, ?c\<lparr>rc_map := foldl mut_apply (rc_map rc) mus, rc_pending := [], rc_inside := False\<rparr>)"
      using rec_apply_commit[of ?c] mut_apply_canons[of "rc_map rc" mus] by (simp del: mut_command.simps)
    ultimately show ?thesis
      using b Txn assms(2) feed_append[of rec_apply "map mutation_payload mus" ?b "[serializeCommitMarker i]"]
      by (simp add: outside_def Let_def del: mut_command.simps)
  qed
  then show "fst (feed rec_apply (unit_payloads u) rc) = length (unit_payloads u)"
    and "outside (snd (feed rec_apply (unit_payloads u) rc)) (foldl mut_apply f (unit_muts u))"
    by simp_all
qed

lemma feed_partial:
  assumes "unit_ok u" and "outside rc f" and "n < length (unit_payloads u)"
  shows "fst (feed rec_apply (take n (unit_payloads u)) rc) = n"
    and "rc_map (snd (feed rec_apply (take n (unit_payloads u)) rc)) = f"
    and "rc_inside (snd (feed rec_apply (take n (unit_payloads u)) rc)) \<longleftrightarrow> 0 < n"
proof -
  have "fst (feed rec_apply (take n (unit_payloads u)) rc) = n \<and>
    rc_map (snd (feed rec_apply (take n (unit_payloads u)) rc)) = f \<and>
    (rc_inside (snd (feed rec_apply (take n (unit_payloads u)) rc)) \<longleftrightarrow> 0 < n)"
  proof (cases u)
    case (Single c)
    with assms(2,3) show ?thesis by (simp add: outside_def)
  next
    case (Txn i mus)
    show ?thesis
    proof (cases n)
      case 0
      with assms(2) show ?thesis by (simp add: outside_def)
    next
      case (Suc j)
      let ?b = "rc\<lparr>rc_inside := True, rc_id := i, rc_pending := []\<rparr>"
      have j: "j \<le> length mus" using assms(3) Txn Suc by simp
      then have tk: "take n (unit_payloads u) = serializeBeginMarker i # map mutation_payload (take j mus)"
        using Txn Suc by (simp add: take_map)
      have b: "rec_apply (serializeBeginMarker i) rc = (True, ?b)"
        using assms(2) rec_apply_begin[of rc i] by (simp add: outside_def)
      have "\<forall>mu \<in> set (take j mus). command_fits (mut_command mu)"
        using assms(1) Txn set_take_subset[of j mus] by (auto simp del: mut_command.simps)
      from feed_body[OF _ this, of ?b] tk b j Suc assms(2) show ?thesis
        by (simp add: outside_def Let_def del: mut_command.simps)
    qed
  qed
  then show "fst (feed rec_apply (take n (unit_payloads u)) rc) = n"
    and "rc_map (snd (feed rec_apply (take n (unit_payloads u)) rc)) = f"
    and "rc_inside (snd (feed rec_apply (take n (unit_payloads u)) rc)) \<longleftrightarrow> 0 < n"
    by simp_all
qed

text \<open>
  The first \<open>n\<close> records of a log of units: all are accepted, exactly the whole units take
  effect, and a transaction is left open when the last unit is cut.
\<close>

lemma feed_units_prefix:
  assumes "\<forall>u \<in> set us. unit_ok u" and "outside rc f" and "n \<le> length (units_payloads us)"
  shows "fst (feed rec_apply (take n (units_payloads us)) rc) = n \<and>
    rc_map (snd (feed rec_apply (take n (units_payloads us)) rc))
      = foldl mut_apply f (concat (map unit_muts (take (units_in n us) us))) \<and>
    (rc_inside (snd (feed rec_apply (take n (units_payloads us)) rc))
      \<longleftrightarrow> n \<noteq> length (units_payloads (take (units_in n us) us)))"
  using assms
proof (induction us arbitrary: rc f n)
  case Nil
  then show ?case by (simp add: outside_def)
next
  case (Cons u us)
  have u: "unit_ok u" using Cons.prems(1) by simp
  show ?case
  proof (cases "length (unit_payloads u) \<le> n")
    case True
    define rc' where "rc' = snd (feed rec_apply (unit_payloads u) rc)"
    note fu = feed_unit[OF u Cons.prems(2)]
    let ?n = "n - length (unit_payloads u)"
    have "feed rec_apply (take n (units_payloads (u # us))) rc
        = (length (unit_payloads u) + fst (feed rec_apply (take ?n (units_payloads us)) rc'),
           snd (feed rec_apply (take ?n (units_payloads us)) rc'))"
      using feed_append[OF fu(1), of "take ?n (units_payloads us)"] True by (simp add: rc'_def)
    moreover have "outside rc' (foldl mut_apply f (unit_muts u))" using fu(2) by (simp add: rc'_def)
    ultimately show ?thesis
      using Cons.IH[of rc' "foldl mut_apply f (unit_muts u)" ?n] Cons.prems(1,3) True by auto
  next
    case False
    with feed_partial[OF u Cons.prems(2), of n] show ?thesis by simp
  qed
qed

end
