(* ===== verification/Durability.thy ===== *)
theory Durability
  imports Recovery
begin

text \<open>
  Runs of the store against its log: a step relation over the client operations, the
  invariant that the log always spells out the map, and what a crash and a recovery
  therefore leave of the acknowledged writes.
\<close>

subsection \<open>The log mirrors the map\<close>

text \<open>
  The log is the base \<open>b\<close> (what the last compaction wrote, or nothing), on the disk, followed
  by the units \<open>us\<close> appended since; together they spell out the map.
\<close>

definition mirrors ::
  "(string \<Rightarrow> u64) \<Rightarrow> FsyncMode \<Rightarrow> store \<Rightarrow> log_unit list \<Rightarrow> log_unit list \<Rightarrow> bool" where
  "mirrors hash mode s b us \<longleftrightarrow>
     sm_inv hash (so_map s) \<and> maxMemoryBytes (so_map s) = 0 \<and>
     (\<forall>u \<in> set (b @ us). unit_ok u) \<and> sm_abs hash (so_map s) = units_map (b @ us) \<and>
     (\<exists>w. so_log s = Some w \<and> wal_inv w \<and> wal_mode w = mode \<and>
        wal_bytes w = log_of (units_payloads (b @ us)) \<and>
        prefix (log_of (units_payloads b)) (lf_durable (wal_file w)) \<and>
        prefix (lf_durable (wal_file w)) (wal_bytes w) \<and>
        (mode = Always \<longrightarrow> lf_durable (wal_file w) = wal_bytes w))"

lemma mirrorsD:
  assumes "mirrors hash mode s b us"
  obtains w where "so_log s = Some w" "wal_inv w" "wal_mode w = mode"
    "wal_bytes w = log_of (units_payloads (b @ us))" "prefix (lf_durable (wal_file w)) (wal_bytes w)"
    "mode = Always \<longrightarrow> lf_durable (wal_file w) = wal_bytes w"
  using assms by (auto simp: mirrors_def)

lemma mirrors_map:
  assumes "mirrors hash mode s b us"
  shows "sm_inv hash (so_map s)" "maxMemoryBytes (so_map s) = 0" "\<forall>u \<in> set (b @ us). unit_ok u"
    "sm_abs hash (so_map s) = units_map (b @ us)"
  using assms by (simp_all add: mirrors_def)

text \<open>An acknowledged append of one more unit.\<close>

lemma mirrors_append:
  assumes "mirrors hash mode s b us" and "so_log s = Some w"
    and "appendBytes as ok (log_of (unit_payloads u)) n w = (Inr off, w')"
    and "unit_ok u" and "so_log s' = Some w'"
    and "sm_inv hash (so_map s')" and "maxMemoryBytes (so_map s') = 0"
    and "sm_abs hash (so_map s') = foldl mut_apply (sm_abs hash (so_map s)) (unit_muts u)"
  shows "mirrors hash mode s' b (us @ [u])"
proof -
  have ne: "log_of (unit_payloads u) \<noteq> []" by (cases u) simp_all
  from assms(1,2) have w: "wal_inv w" "wal_mode w = mode"
    "wal_bytes w = log_of (units_payloads (b @ us))" "prefix (lf_durable (wal_file w)) (wal_bytes w)"
    "prefix (log_of (units_payloads b)) (lf_durable (wal_file w))"
    by (auto simp: mirrors_def)
  note ok = appendBytes_ok[OF assms(3) ne]
  have "wal_inv w'" by (rule wal_inv_append[OF w(1) assms(3) ne])
  moreover have "wal_bytes w' = log_of (units_payloads (b @ us @ [u]))" using ok(1) w(3) by simp
  moreover have "prefix (lf_durable (wal_file w')) (wal_bytes w')"
    using ok(1,8,9) w(4) by (cases "wal_mode w = Always") (simp_all add: prefix_prefix)
  moreover have "prefix (log_of (units_payloads b)) (lf_durable (wal_file w'))"
    using ok(1,8,9) w(3,5) by (cases "wal_mode w = Always") simp_all
  moreover have "mode = Always \<longrightarrow> lf_durable (wal_file w') = wal_bytes w'" using ok(8) w(2) by simp
  moreover have "sm_abs hash (so_map s') = units_map (b @ us @ [u])"
    using assms(8) mirrors_map(4)[OF assms(1)] units_map_append[of "b @ us" "[u]"] by simp
  ultimately show ?thesis
    using assms(4-7) mirrors_map(3)[OF assms(1)] ok(6) w(2) by (auto simp: mirrors_def)
qed

lemma mirrors_same_log:
  assumes "mirrors hash mode s b us" and "so_log s' = so_log s" and "sm_inv hash (so_map s')"
    and "maxMemoryBytes (so_map s') = 0" and "sm_abs hash (so_map s') = sm_abs hash (so_map s)"
  shows "mirrors hash mode s' b us"
  using assms by (simp add: mirrors_def)

lemma store_set_mirrors:
  assumes "mirrors hash mode s b us" and "store_set hash as ok k v s = (Inr u, s')"
    and "command_fits (SetCommand k v)"
  shows "mirrors hash mode s' b (us @ [Single (SetCommand k v)])"
proof -
  obtain w where w: "so_log s = Some w" using mirrorsD[OF assms(1)] by blast
  note m = mirrors_map[OF assms(1)]
  obtain off w' where app: "wal_append as ok (serialize (SetCommand k v)) w = (Inr off, w')"
    and s': "so_log s' = Some w'" "so_map s' = sm_set hash k v (so_map s)"
    using assms(2) w
    by (auto simp: store_set_def notifyAppend_def Let_def split: prod.splits sum.splits
        simp del: serialize.simps)
  show ?thesis
  proof (rule mirrors_append[OF assms(1) w, where u = "Single (SetCommand k v)"])
    show "appendBytes as ok (log_of (unit_payloads (Single (SetCommand k v)))) 1 w = (Inr off, w')"
      using app by (simp add: wal_append_def del: serialize.simps)
  qed (use m s' assms(3) in \<open>simp_all add: shm.invar_set shm.lossless_set shm.set_exact\<close>)
qed

lemma store_del_mirrors:
  assumes "mirrors hash mode s b us" and "store_del hash as ok k s = (Inr r, s')"
    and "command_fits (DelCommand k)"
  shows "mirrors hash mode s' b (us @ [Single (DelCommand k)])"
proof -
  obtain w where w: "so_log s = Some w" using mirrorsD[OF assms(1)] by blast
  note m = mirrors_map[OF assms(1)]
  obtain off w' where app: "wal_append as ok (serialize (DelCommand k)) w = (Inr off, w')"
    and s': "so_log s' = Some w'" "so_map s' = snd (sm_del hash k (so_map s))"
    using assms(2) w
    by (auto simp: store_del_def notifyAppend_def Let_def split: prod.splits sum.splits
        simp del: serialize.simps)
  show ?thesis
  proof (rule mirrors_append[OF assms(1) w, where u = "Single (DelCommand k)"])
    show "appendBytes as ok (log_of (unit_payloads (Single (DelCommand k)))) 1 w = (Inr off, w')"
      using app by (simp add: wal_append_def del: serialize.simps)
  qed (use m s' assms(3) in \<open>simp_all add: shm.invar_del shm.lossless_del shm.del_exact\<close>)
qed

lemma commit_mirrors:
  assumes "mirrors hash mode s b us" and "commitTransaction hash as ok i mus s = (True, s')"
    and "\<forall>mu \<in> set mus. command_fits (mut_command mu)"
  shows "mirrors hash mode s' b (us @ (if mus = [] then [] else [Txn i mus]))"
proof (cases "mus = []")
  case True
  with assms(2) have "so_log s' = so_log s" "so_map s' = so_map s"
    by (auto simp: commitTransaction_def)
  with assms(1) True show ?thesis by (simp add: mirrors_def)
next
  case False
  obtain w where w: "so_log s = Some w" using mirrorsD[OF assms(1)] by blast
  note m = mirrors_map[OF assms(1)]
  obtain off w' where app: "wal_appendBatch as ok (unit_payloads (Txn i mus)) w = (Inr off, w')"
    and s': "so_log s' = Some w'" "so_map s' = sm_applyAtomically hash mus (so_map s)"
    using assms(2) w False
    by (auto simp: commitTransaction_def notifyAppend_def Let_def split: prod.splits sum.splits)
  have "mirrors hash mode s' b (us @ [Txn i mus])"
  proof (rule mirrors_append[OF assms(1) w, where u = "Txn i mus"])
    show "appendBytes as ok (log_of (unit_payloads (Txn i mus))) (length (unit_payloads (Txn i mus))) w
        = (Inr off, w')"
      using app by (simp add: wal_appendBatch_def log_of_def)
  qed (use m s' assms(3) in \<open>simp_all add: shm.invar_batch shm.lossless_batch shm.batch_exact\<close>)
  with False show ?thesis by simp
qed


lemma store_get_mirrors:
  assumes "mirrors hash mode s b us"
  shows "mirrors hash mode (snd (store_get hash k s)) b us"
proof (rule mirrors_same_log[OF assms])
  note m = mirrors_map[OF assms]
  have "so_map (snd (store_get hash k s)) = snd (sm_get hash k (so_map s))"
    and log: "so_log (snd (store_get hash k s)) = so_log s"
    by (simp_all add: store_get_def split_beta Let_def)
  then show "so_log (snd (store_get hash k s)) = so_log s"
    "sm_inv hash (so_map (snd (store_get hash k s)))"
    "maxMemoryBytes (so_map (snd (store_get hash k s))) = 0"
    "sm_abs hash (so_map (snd (store_get hash k s))) = sm_abs hash (so_map s)"
    using m by (simp_all add: shm.invar_get shm.lossless_get shm.get_same)
qed

lemma getMany_fold:
  "so_map (foldl (\<lambda>s r. if fst r then s\<lparr>so_hits := so_hits s + 1\<rparr> else s\<lparr>so_misses := so_misses s + 1\<rparr>) s rs)
     = so_map s \<and>
   so_log (foldl (\<lambda>s r. if fst r then s\<lparr>so_hits := so_hits s + 1\<rparr> else s\<lparr>so_misses := so_misses s + 1\<rparr>) s rs)
     = so_log s"
  by (induction rs arbitrary: s) simp_all

lemma store_getMany_mirrors:
  assumes "mirrors hash mode s b us"
  shows "mirrors hash mode (snd (store_getMany hash ks s)) b us"
proof (rule mirrors_same_log[OF assms])
  note m = mirrors_map[OF assms]
  have "so_map (snd (store_getMany hash ks s)) = snd (sm_getMany hash ks (so_map s))"
    and "so_log (snd (store_getMany hash ks s)) = so_log s"
    by (simp_all add: store_getMany_def split_beta Let_def getMany_fold)
  then show "so_log (snd (store_getMany hash ks s)) = so_log s"
    "sm_inv hash (so_map (snd (store_getMany hash ks s)))"
    "maxMemoryBytes (so_map (snd (store_getMany hash ks s))) = 0"
    "sm_abs hash (so_map (snd (store_getMany hash ks s))) = sm_abs hash (so_map s)"
    using m readAll_spec[OF m(1), of ks] readAll_frame(1)[of hash ks "so_map s"]
    by (simp_all add: sm_getMany_def)
qed

text \<open>Every entry of the map was written by a command that fits.\<close>

lemma mut_apply_fits:
  assumes "\<forall>mu \<in> set mus. command_fits (mut_command mu)"
    and "\<forall>k v. f k = Some v \<longrightarrow> command_fits (SetCommand k v)"
  shows "foldl mut_apply f mus k = Some v \<Longrightarrow> command_fits (SetCommand k v)"
  using assms
proof (induction mus arbitrary: f)
  case (Cons mu mus)
  have "\<forall>k v. mut_apply f mu k = Some v \<longrightarrow> command_fits (SetCommand k v)"
    using Cons.prems(2,3) by (auto simp: mut_apply_def split: if_splits)
  with Cons show ?case by simp
qed simp

lemma unit_muts_fit: "unit_ok u \<Longrightarrow> \<forall>mu \<in> set (unit_muts u). command_fits (mut_command mu)"
proof (cases u)
  case (Single c)
  then show "unit_ok u \<Longrightarrow> ?thesis" by (cases c) simp_all
qed simp

lemma units_map_fits:
  "\<forall>u \<in> set us. unit_ok u \<Longrightarrow> units_map us k = Some v \<Longrightarrow> command_fits (SetCommand k v)"
  unfolding units_map_def
  by (rule mut_apply_fits[of "concat (map unit_muts us)" Map.empty]) (use unit_muts_fit in \<open>auto simp del: mut_command.simps\<close>)

definition snapshot_units :: "(string \<times> string) list \<Rightarrow> log_unit list" where
  "snapshot_units es = map (\<lambda>(k, v). Single (SetCommand k v)) es"

lemma snapshot_units_payloads: "units_payloads (snapshot_units es) = snapshot_payloads es"
  by (induction es) (simp_all add: snapshot_units_def split_beta)

lemma snapshot_units_map: "um_wf es \<Longrightarrow> units_map (snapshot_units es) = map_of es"
proof -
  assume "um_wf es"
  have "concat (map unit_muts (snapshot_units es))
      = map (\<lambda>(k, v). \<lparr>erase = False, key = k, val = v\<rparr>) es"
    by (induction es) (simp_all add: snapshot_units_def split_beta)
  then show ?thesis using mut_apply_sets[OF \<open>um_wf es\<close>, of Map.empty] by (simp add: units_map_def)
qed

text \<open>A log that is a snapshot of the map, complete on the disk, mirrors it.\<close>

lemma mirrors_snapshot:
  fixes s :: store
  defines "es \<equiv> sm_snapshot (so_map s)"
  assumes "mirrors hash mode s b us" and "so_map s' = so_map s" and "so_log s' = Some w'"
    and "wal_inv w'" and "wal_mode w' = mode"
    and "wal_file w' = \<lparr>lf_bytes = log_of (snapshot_payloads es), lf_durable = log_of (snapshot_payloads es)\<rparr>"
  shows "mirrors hash mode s' (snapshot_units es) []" and "units_map (snapshot_units es) = units_map (b @ us)"
proof -
  note m = mirrors_map[OF assms(2)]
  have abs: "map_of es = units_map (b @ us)" "um_wf es"
    unfolding es_def using m shm.snapshot_map[OF m(1)] shm.snapshot_distinct[OF m(1)] by simp_all
  then show u: "units_map (snapshot_units es) = units_map (b @ us)" by (simp add: snapshot_units_map)
  have "command_fits (SetCommand k v)" if "(k, v) \<in> set es" for k v
    using that abs units_map_fits[OF m(3), of k v] by (simp flip: abs(1))
  then have "\<forall>u \<in> set (snapshot_units es). unit_ok u" by (auto simp: snapshot_units_def)
  with m u assms(3-7) show "mirrors hash mode s' (snapshot_units es) []"
    by (auto simp: mirrors_def snapshot_units_payloads wal_bytes_def)
qed

text \<open>Compaction, successful or not, keeps the mirror.\<close>

lemma store_compact_mirrors:
  assumes "mirrors hash mode s b us" and "store_compact io ro so s = (Inr res, s')"
  shows "mirrors hash mode s' b us \<or> (\<exists>b'. mirrors hash mode s' b' [] \<and> units_map b' = units_map (b @ us))"
proof -
  obtain w where w: "so_log s = Some w" "wal_mode w = mode" using mirrorsD[OF assms(1)] by blast
  let ?es = "sm_snapshot (so_map s)"
  let ?rw = "rewrite io ?es \<lparr>st_log = wal_file w, st_temp = so_temp s\<rparr>"
  show ?thesis
  proof (cases "cr_ok (fst ?rw)")
    case True
    let ?lf = "\<lparr>lf_bytes = log_of (snapshot_payloads ?es), lf_durable = log_of (snapshot_payloads ?es)\<rparr>"
    let ?w = "w\<lparr>wal_fd := True, wal_file := ?lf, wal_offset := of_nat (length (lf_bytes ?lf))\<rparr>"
    have s': "so_map s' = so_map s" "so_log s' = Some ?w"
      using assms(2) w True rewrite_ok(1)[OF True]
      by (auto simp: store_compact_def reopenAfterCompaction_def split_beta Let_def split: if_splits)
    have "wal_inv ?w" "wal_mode ?w = mode" "wal_file ?w = ?lf"
      using w by (simp_all add: wal_inv_def wal_bytes_def)
    from mirrors_snapshot[OF assms(1) s' this] show ?thesis by blast
  next
    case False
    then have "so_map s' = so_map s" "so_log s' = Some (w\<lparr>wal_file := wal_file w\<rparr>)"
      using assms(2) w rewrite_error[OF False] by (auto simp: store_compact_def split_beta Let_def)
    then have "mirrors hash mode s' b us" using assms(1) w by (auto simp: mirrors_def)
    then show ?thesis by blast
  qed
qed


subsection \<open>Runs\<close>

text \<open>
  One step of a running store with the units it acknowledges: the client operations when
  they succeed, an operation that fails before any byte reaches the log, a compaction
  whichever way it ends without an exception, and a turn of the background sync.
\<close>

inductive store_step :: "(string \<Rightarrow> u64) \<Rightarrow> store \<Rightarrow> log_unit list \<Rightarrow> store \<Rightarrow> bool" for hash where
  set_step: "store_set hash as ok k v s = (Inr u, s') \<Longrightarrow> command_fits (SetCommand k v) \<Longrightarrow>
    store_step hash s [Single (SetCommand k v)] s'"
| del_step: "store_del hash as ok k s = (Inr r, s') \<Longrightarrow> command_fits (DelCommand k) \<Longrightarrow>
    store_step hash s [Single (DelCommand k)] s'"
| commit_step: "commitTransaction hash as ok i mus s = (True, s') \<Longrightarrow>
    \<forall>mu \<in> set mus. command_fits (mut_command mu) \<Longrightarrow>
    store_step hash s (if mus = [] then [] else [Txn i mus]) s'"
| get_step: "store_step hash s [] (snd (store_get hash k s))"
| getMany_step: "store_step hash s [] (snd (store_getMany hash ks s))"
| compact_step: "store_compact io ro so s = (Inr res, s') \<Longrightarrow> store_step hash s [] s'"
| tick_step: "so_log s = Some w \<Longrightarrow> store_step hash s [] (s\<lparr>so_log := Some (syncTick ok w)\<rparr>)"
| set_failed: "store_set hash as ok k v s = (Inl e, s') \<Longrightarrow> so_log s' = so_log s \<Longrightarrow> store_step hash s [] s'"
| del_failed: "store_del hash as ok k s = (Inl e, s') \<Longrightarrow> so_log s' = so_log s \<Longrightarrow> store_step hash s [] s'"
| commit_failed: "commitTransaction hash as ok i mus s = (False, s') \<Longrightarrow> so_log s' = so_log s \<Longrightarrow>
    store_step hash s [] s'"

inductive store_run :: "(string \<Rightarrow> u64) \<Rightarrow> store \<Rightarrow> log_unit list \<Rightarrow> store \<Rightarrow> bool" for hash where
  run_refl: "store_run hash s [] s"
| run_step: "store_run hash s us s' \<Longrightarrow> store_step hash s' vs s'' \<Longrightarrow> store_run hash s (us @ vs) s''"

text \<open>A failed write leaves the map untouched, whatever it left in the log.\<close>

lemma store_set_error: "store_set hash as ok k v s = (Inl e, s') \<Longrightarrow> so_map s' = so_map s"
  by (auto simp: store_set_def Let_def split: option.splits prod.splits sum.splits)

lemma store_del_error: "store_del hash as ok k s = (Inl e, s') \<Longrightarrow> so_map s' = so_map s"
  by (auto simp: store_del_def Let_def split: option.splits prod.splits sum.splits)

lemma commit_error: "commitTransaction hash as ok i mus s = (False, s') \<Longrightarrow> so_map s' = so_map s"
  by (auto simp: commitTransaction_def Let_def split: option.splits prod.splits sum.splits if_splits)

lemma syncTick_mirrors:
  assumes "mirrors hash mode s b us" and "so_log s = Some w"
  shows "mirrors hash mode (s\<lparr>so_log := Some (syncTick ok w)\<rparr>) b us"
  using assms
  by (auto simp: mirrors_def syncTick_def syncLocked_def wal_inv_def wal_bytes_def lf_sync_def)

text \<open>The history \<open>h\<close> of acknowledged units, of which the base summarises a first part.\<close>

definition logged :: "(string \<Rightarrow> u64) \<Rightarrow> FsyncMode \<Rightarrow> store \<Rightarrow> log_unit list \<Rightarrow> bool" where
  "logged hash mode s h \<longleftrightarrow>
     (\<exists>b pre us. mirrors hash mode s b us \<and> h = pre @ us \<and> units_map b = units_map pre)"

lemma logged_append:
  "logged hash mode s h \<Longrightarrow> (\<And>b us. mirrors hash mode s b us \<Longrightarrow> mirrors hash mode s' b (us @ vs)) \<Longrightarrow>
   logged hash mode s' (h @ vs)"
  unfolding logged_def by (metis append_assoc)

lemmas logged_same = logged_append[where vs = "[]", unfolded append_Nil2]

lemma logged_failed:
  "logged hash mode s h \<Longrightarrow> so_log s' = so_log s \<Longrightarrow> so_map s' = so_map s \<Longrightarrow> logged hash mode s' h"
  by (erule logged_same) (simp add: mirrors_def)

lemma logged_compact:
  assumes "logged hash mode s h" and "store_compact io ro so s = (Inr res, s')"
  shows "logged hash mode s' h"
proof -
  obtain b pre us where m: "mirrors hash mode s b us" and h: "h = pre @ us" "units_map b = units_map pre"
    using assms(1) by (auto simp: logged_def)
  have "units_map (b @ us) = units_map h" using h by (simp add: units_map_append)
  with store_compact_mirrors[OF m assms(2)] m h show ?thesis
    unfolding logged_def by (metis append_Nil2)
qed

lemma store_step_logged:
  assumes "store_step hash s vs s'" and "logged hash mode s h"
  shows "logged hash mode s' (h @ vs)"
  using assms(1)
proof (cases rule: store_step.cases)
  case (set_step as ok k v u)
  then show ?thesis using logged_append[OF assms(2)] store_set_mirrors by blast
next
  case (del_step as ok k r)
  then show ?thesis using logged_append[OF assms(2)] store_del_mirrors by blast
next
  case (commit_step as ok i mus)
  then show ?thesis using logged_append[OF assms(2)] commit_mirrors by blast
next
  case (get_step k)
  then show ?thesis using logged_same[OF assms(2)] store_get_mirrors by simp
next
  case (getMany_step ks)
  then show ?thesis using logged_same[OF assms(2)] store_getMany_mirrors by simp
next
  case (compact_step io ro so res)
  then show ?thesis using logged_compact[OF assms(2)] by simp
next
  case (tick_step w ok)
  then show ?thesis using logged_same[OF assms(2)] syncTick_mirrors by simp
next
  case (set_failed as ok k v e)
  then show ?thesis using logged_failed[OF assms(2)] store_set_error by auto
next
  case (del_failed as ok k e)
  then show ?thesis using logged_failed[OF assms(2)] store_del_error by auto
next
  case (commit_failed as ok i mus)
  then show ?thesis using logged_failed[OF assms(2)] commit_error by auto
qed

lemma store_run_logged:
  assumes "store_run hash s vs s'" and "logged hash mode s h"
  shows "logged hash mode s' (h @ vs)"
  using assms
proof (induction rule: store_run.induct)
  case (run_step s vs s' ws s'')
  then show ?case using store_step_logged[of hash s' ws s'' mode "h @ vs"] by simp
qed simp


subsection \<open>Crash and recovery\<close>

lemma recover_units:
  assumes "cfg_plain cfg" and "io_fine io" and "\<forall>u \<in> set us. unit_ok u"
    and "prefix (lf_bytes lf) (log_of (units_payloads us))"
  defines "n \<equiv> whole (length (lf_bytes lf)) (units_payloads us)"
  shows "\<exists>s w. newStore hash io True True cfg (Some lf) = Some (Inr s) \<and> so_log s = Some w \<and>
     sm_inv hash (so_map s) \<and> maxMemoryBytes (so_map s) = 0 \<and>
     sm_abs hash (so_map s) = units_map (take (units_in n us) us) \<and> wal_inv w \<and>
     wal_bytes w = log_of (take n (units_payloads us)) \<and> wal_mode w = cfg_fsyncMode cfg \<and>
     (lf_durable (wal_file w) = wal_bytes w \<or> wal_file w = lf) \<and>
     so_discarded s = (n \<noteq> length (units_payloads (take (units_in n us) us)))"
proof -
  note ok = units_payloads_ok[OF assms(3)]
  obtain t where t: "lf_bytes lf = log_of (take n (units_payloads us)) @ t" "torn t"
    using log_prefix_split[OF assms(4) ok] unfolding n_def by blast
  have n: "n \<le> length (units_payloads us)" unfolding n_def by (rule whole_le)
  have okn: "\<forall>p \<in> set (take n (units_payloads us)). payload_ok p"
    using ok set_take_subset[of n "units_payloads us"] by blast
  have "outside rc_init Map.empty" by (simp add: outside_def rc_init_def)
  note f = feed_units_prefix[OF assms(3) this n]
  from newStore_log[OF assms(1,2) t(1) okn t(2), of hash] show ?thesis
    using f n by (simp add: recovered_def units_map_def)
qed

text \<open>A complete log gives back everything and starts a new mirror.\<close>

lemma units_in_all: "units_in (length (units_payloads us)) us = length us"
  by (induction us) simp_all

lemma recover_mirrors:
  assumes "cfg_plain cfg" and "io_fine io" and "\<forall>u \<in> set us. unit_ok u"
    and "lf_bytes lf = log_of (units_payloads us)" and "lf_durable lf = lf_bytes lf"
  shows "\<exists>s. newStore hash io True True cfg (Some lf) = Some (Inr s) \<and>
     mirrors hash (cfg_fsyncMode cfg) s [] us"
proof -
  have w: "whole (length (lf_bytes lf)) (units_payloads us) = length (units_payloads us)"
    using assms(4) by (simp add: whole_all)
  show ?thesis
    using recover_units[OF assms(1-3), of lf hash] assms(3-5) w
    by (auto simp: units_in_all mirrors_def wal_bytes_def)
qed


lemma newStore_empty:
  assumes "cfg_plain cfg" and "newStore hash io True True cfg None = Some (Inr s)"
  shows "mirrors hash (cfg_fsyncMode cfg) s [] []"
proof -
  obtain m where m: "newShardedMap (cfg_lockMode cfg) (cfg_shardCount cfg) 0 = Some m"
    using assms(1) newShardedMap_returns[of "cfg_shardCount cfg" "cfg_lockMode cfg" 0]
    by (auto simp: cfg_plain_def)
  note inv = newShardedMap_inv[OF m, of hash]
  have "so_map s = m" "\<exists>w. so_log s = Some w \<and> wal_inv w \<and> wal_mode w = cfg_fsyncMode cfg \<and>
      wal_bytes w = [] \<and> lf_durable (wal_file w) = []"
    using assms m by (auto simp: newStore_def recoverFromLog_def replay_def newApplier_def newWal_def
        freshStore_def cfg_plain_def wal_inv_def wal_bytes_def Let_def)
  with inv show ?thesis by (auto simp: mirrors_def units_map_def)
qed

lemma newStore_starts:
  "cfg_plain cfg \<Longrightarrow> \<exists>s. newStore hash io True True cfg None = Some (Inr s)"
  using newShardedMap_returns[of "cfg_shardCount cfg" "cfg_lockMode cfg" 0]
  by (auto simp: newStore_def recoverFromLog_def replay_def newApplier_def newWal_def
      freshStore_def cfg_plain_def Let_def)

lemma units_in_append: "units_in (length (units_payloads b) + n) (b @ us) = length b + units_in n us"
  by (induction b) simp_all

lemma crash_split:
  assumes "prefix (log_of (units_payloads b)) img"
  shows "\<exists>j. units_in (whole (length img) (units_payloads (b @ us))) (b @ us) = length b + j"
proof -
  obtain r where "img = log_of (units_payloads b) @ r" using assms by (auto simp: prefix_def)
  then have "whole (length img) (units_payloads (b @ us))
      = length (units_payloads b) + whole (length r) (units_payloads us)"
    by (simp add: whole_append)
  then show ?thesis by (metis units_in_append)
qed

lemma crash_recovery:
  assumes "logged hash mode s h" and "so_log s = Some w" and "crash_image (wal_file w) img"
    and "cfg_plain cfg" and "io_fine io"
  shows "\<exists>s' j. newStore hash io True True cfg (Some \<lparr>lf_bytes = img, lf_durable = img\<rparr>) = Some (Inr s') \<and>
     sm_inv hash (so_map s') \<and> sm_abs hash (so_map s') = units_map (take j h) \<and>
     j \<le> length h \<and> (mode = Always \<longrightarrow> j = length h)"
proof -
  obtain b pre us where m: "mirrors hash mode s b us" and h: "h = pre @ us" "units_map b = units_map pre"
    using assms(1) by (auto simp: logged_def)
  let ?lf = "\<lparr>lf_bytes = img, lf_durable = img\<rparr>"
  let ?k = "units_in (whole (length img) (units_payloads (b @ us))) (b @ us)"
  have ok: "\<forall>u \<in> set (b @ us). unit_ok u" by (rule mirrors_map(3)[OF m])
  from m assms(2) have w: "wal_bytes w = log_of (units_payloads (b @ us))"
    "prefix (log_of (units_payloads b)) (lf_durable (wal_file w))"
    "prefix (lf_durable (wal_file w)) (wal_bytes w)"
    "mode = Always \<longrightarrow> lf_durable (wal_file w) = wal_bytes w"
    by (auto simp: mirrors_def)
  have img: "prefix (lf_durable (wal_file w)) img" "prefix img (log_of (units_payloads (b @ us)))"
    using assms(3) w(1,3) by (auto simp: crash_image_def wal_bytes_def)
  then have "prefix (log_of (units_payloads b)) img" using w(2) by (meson prefix_order.trans)
  from crash_split[OF this, of us] obtain j where k: "?k = length b + j" by blast
  have all: "?k = length (b @ us)" if "mode = Always"
  proof -
    have "img = log_of (units_payloads (b @ us))"
      using that w(1,4) img by (simp add: prefix_order.antisym)
    then show ?thesis by (simp add: whole_all units_in_all del: units_simps)
  qed
  obtain s' where s': "newStore hash io True True cfg (Some ?lf) = Some (Inr s')"
    "sm_inv hash (so_map s')" "sm_abs hash (so_map s') = units_map (take ?k (b @ us))"
    using recover_units[OF assms(4,5) ok, of ?lf hash] img(2) by auto
  have "units_map (take ?k (b @ us)) = units_map (take (length pre + j) h)"
    unfolding k h(1) using h(2) by (simp add: units_map_append)
  with s' show ?thesis
    using k all h(1)
    by (intro exI[of _ s'] exI[of _ "min (length pre + j) (length h)"]) (auto simp: min_def)
qed



subsection \<open>Properties\<close>

lemma newStore_logged:
  "cfg_plain cfg \<Longrightarrow> newStore hash io True True cfg None = Some (Inr s) \<Longrightarrow> store_run hash s us s' \<Longrightarrow>
   logged hash (cfg_fsyncMode cfg) s' us"
  using store_run_logged[of hash s us s' "cfg_fsyncMode cfg" "[]"] newStore_empty
  by (fastforce simp: logged_def)

lemma logged_map: "logged hash mode s h \<Longrightarrow> sm_inv hash (so_map s) \<and> sm_abs hash (so_map s) = units_map h"
proof -
  assume "logged hash mode s h"
  then obtain b pre us where m: "mirrors hash mode s b us" and h: "h = pre @ us" "units_map b = units_map pre"
    by (auto simp: logged_def)
  from mirrors_map[OF m] h show ?thesis by (simp add: units_map_append)
qed


text \<open>A configuration, answers and a hash function for the witnesses.\<close>

definition demo_cfg :: store_config where
  "demo_cfg = \<lparr>cfg_lockMode = Sharded, cfg_shardCount = 4, cfg_maxMemoryBytes = 0, cfg_logPath = ''kv.log'',
               cfg_fsyncMode = Always, cfg_fsyncIntervalMs = 1000, cfg_readOnly = False\<rparr>"

definition demo_io :: replay_io where
  "demo_io = \<lparr>io_open = True, io_reads = [ROk 3, REintr], io_wopen = True, io_trunc = True, io_sync = True\<rparr>"

definition demo_hash :: "string \<Rightarrow> u64" where
  "demo_hash k = of_nat (length k)"

lemma demo_fine [simp]: "cfg_plain demo_cfg" "io_fine demo_io" "cfg_fsyncMode demo_cfg = Always"
  by (simp_all add: cfg_plain_def demo_cfg_def io_fine_def demo_io_def)

lemma store_set_succeeds:
  assumes "mirrors hash mode s b us"
  shows "\<exists>s'. store_set hash [WOk 3, WEintr] True k v s = (Inr (), s')"
proof -
  obtain w where w: "so_log s = Some w" "wal_inv w" using mirrorsD[OF assms] by blast
  then obtain off w' where "wal_append [WOk 3, WEintr] True (serialize (SetCommand k v)) w = (Inr off, w')"
    using appendBytes_succeeds[of w "[WOk 3, WEintr]" True "frame (serialize (SetCommand k v))" 1]
    by (auto simp: wal_inv_def wal_append_def simp del: serialize.simps)
  with w show ?thesis by (simp add: store_set_def Let_def del: serialize.simps)
qed

lemma demo_run:
  "\<exists>s0 s w. newStore demo_hash demo_io True True demo_cfg None = Some (Inr s0) \<and>
     store_run demo_hash s0 [Single (SetCommand ''a'' ''1'')] s \<and> so_log s = Some w"
proof -
  obtain s0 where s0: "newStore demo_hash demo_io True True demo_cfg None = Some (Inr s0)"
    using newStore_starts[of demo_cfg] by auto
  note m = newStore_empty[OF demo_fine(1) s0]
  obtain s where s: "store_set demo_hash [WOk 3, WEintr] True ''a'' ''1'' s0 = (Inr (), s)"
    using store_set_succeeds[OF m] by blast
  have fits: "command_fits (SetCommand ''a'' ''1'')"
    by (simp add: command_fits_def payload_ok_def unat_kMaxPayloadBytes)
  have "store_run demo_hash s0 [Single (SetCommand ''a'' ''1'')] s"
    using run_step[OF run_refl set_step[OF s fits]] by simp
  moreover obtain w where "so_log s = Some w"
    using store_set_mirrors[OF m s fits] mirrorsD by metis
  ultimately show ?thesis using s0 by blast
qed



text \<open>The store if the compactor had just replaced its log.\<close>

lemma logged_snapshot:
  assumes "logged hash mode s h" and "so_log s = Some w"
    and "lf = \<lparr>lf_bytes = log_of (snapshot_payloads (sm_snapshot (so_map s))),
               lf_durable = log_of (snapshot_payloads (sm_snapshot (so_map s)))\<rparr>"
  shows "logged hash mode (s\<lparr>so_log := Some (w\<lparr>wal_file := lf, wal_offset := of_nat (length (lf_bytes lf))\<rparr>)\<rparr>) h"
proof -
  obtain b pre us where m: "mirrors hash mode s b us" and h: "h = pre @ us" "units_map b = units_map pre"
    using assms(1) by (auto simp: logged_def)
  let ?w = "w\<lparr>wal_file := lf, wal_offset := of_nat (length (lf_bytes lf))\<rparr>"
  let ?s = "s\<lparr>so_log := Some ?w\<rparr>"
  have w: "wal_fd w" "wal_mode w = mode" using m assms(2) by (auto simp: mirrors_def wal_inv_def)
  have "so_map ?s = so_map s" "so_log ?s = Some ?w" "wal_inv ?w" "wal_mode ?w = mode" "wal_file ?w = lf"
    using w by (simp_all add: wal_inv_def wal_bytes_def)
  note snap = mirrors_snapshot[OF m this[unfolded assms(3)]]
  have "units_map (b @ us) = units_map h" using h by (simp add: units_map_append)
  with snap assms(3) show ?thesis
    unfolding logged_def by (metis append_Nil2)
qed



text \<open>
  A write the log refuses leaves the map as it was, for all three kinds of write, and a
  refused commit reports failure instead of throwing.
\<close>

theorem refused_write_keeps_map:
  "(\<forall>e s'. store_set hash as ok k v s = (Inl e, s') \<longrightarrow> so_map s' = so_map s \<and> so_writes s' = so_writes s) \<and>
   (\<forall>e s'. store_del hash as ok k s = (Inl e, s') \<longrightarrow> so_map s' = so_map s \<and> so_writes s' = so_writes s) \<and>
   (\<forall>s'. commitTransaction hash as ok i mus s = (False, s') \<longrightarrow>
      so_map s' = so_map s \<and> so_writes s' = so_writes s \<and> so_txnCommitted s' = so_txnCommitted s)"
  by (auto simp: store_set_def store_del_def commitTransaction_def notifyAppend_def Let_def
      split: option.splits prod.splits sum.splits if_splits)

theorem refused_write_keeps_map_witness:
  "\<exists>e s'. store_set demo_hash [WOk 3, WErr] True ''k'' ''v''
      ((freshStore (the (newShardedMap GlobalMutex 1 0)) ''kv.log'' False)\<lparr>so_log := Some (demo_wal Always)\<rparr>)
        = (Inl e, s') \<and> so_map s' = the (newShardedMap GlobalMutex 1 0)"
proof -
  let ?s = "(freshStore (the (newShardedMap GlobalMutex 1 0)) ''kv.log'' False)\<lparr>so_log := Some (demo_wal Always)\<rparr>"
  have "\<not> snd (write_loop [WOk 3, WErr] (frame (serialize (SetCommand ''k'' ''v''))))"
    by (simp add: split_beta Let_def del: serialize.simps)
  then obtain e s' where "store_set demo_hash [WOk 3, WErr] True ''k'' ''v'' ?s = (Inl e, s')"
    by (simp add: store_set_def wal_append_def appendBytes_cases demo_wal_def freshStore_def del: serialize.simps write_loop.simps)
  with refused_write_keeps_map[where hash = demo_hash and as = "[WOk 3, WErr]" and ok = True and k = "''k''"
      and v = "''v''" and s = ?s]
  show ?thesis by (auto simp: freshStore_def)
qed



subsection \<open>Two ways to lose an acknowledged write\<close>

text \<open>
  The step relation above leaves out appends that fail after part of the record was written,
  and a store that starts on a log ending in an open transaction.  Both lose later writes.
\<close>

lemma recovered_open_transaction:
  assumes "\<forall>u \<in> set us. unit_ok u" and "unit_ok u" and "0 < n" and "n < length (unit_payloads u)"
    and "command_ok c"
  defines "ps \<equiv> units_payloads us @ take n (unit_payloads u)"
  shows "fst (feed rec_apply ps rc_init) = length ps" and "rc_map (recovered ps) = units_map us"
    and "rc_inside (recovered ps)" and "fst (feed rec_apply (ps @ [serialize c]) rc_init) = Suc (length ps)"
    and "rc_map (recovered (ps @ [serialize c])) = units_map us"
proof -
  have out: "outside rc_init Map.empty" by (simp add: outside_def rc_init_def)
  have all: "fst (feed rec_apply (units_payloads us) rc_init) = length (units_payloads us)"
    and mp: "outside (snd (feed rec_apply (units_payloads us) rc_init)) (units_map us)"
    using feed_units_prefix[OF assms(1) out, of "length (units_payloads us)"]
    by (simp_all add: units_in_all outside_def units_map_def)
  note part = feed_partial[OF assms(2) mp assms(4)]
  have split: "feed rec_apply ps rc_init = (length ps,
      snd (feed rec_apply (take n (unit_payloads u)) (snd (feed rec_apply (units_payloads us) rc_init))))"
    using feed_append[OF all, of "take n (unit_payloads u)"] part(1) assms(4) by (simp add: ps_def)
  then show fst: "fst (feed rec_apply ps rc_init) = length ps"
    and mp': "rc_map (recovered ps) = units_map us" and ins: "rc_inside (recovered ps)"
    using part(2,3) assms(3) by (simp_all add: recovered_def)
  have "rec_apply (serialize c) (recovered ps)
      = (True, (recovered ps)\<lparr>rc_pending := rc_pending (recovered ps) @ [toMutation c]\<rparr>)"
    using rec_apply_command[OF assms(5)] ins by simp
  then show "fst (feed rec_apply (ps @ [serialize c]) rc_init) = Suc (length ps)"
    and "rc_map (recovered (ps @ [serialize c])) = units_map us"
    using feed_append[OF fst, of "[serialize c]"] mp' by (simp_all add: recovered_def)
qed

text \<open>
  C35. A log that ends in an open transaction (the crash hit between two records of a batch) is
  recovered, and reported, but not cut back; the next acknowledged \<open>SET\<close> is appended inside
  the open transaction, and the next recovery discards it.
\<close>

theorem open_transaction_swallows_writes:
  assumes "cfg_plain cfg" and "io_fine io" and "\<forall>u \<in> set us. unit_ok u" and "unit_ok u"
    and "0 < n" and "n < length (unit_payloads u)" and "command_fits (SetCommand k v)"
    and "newStore hash io True True cfg
      (Some \<lparr>lf_bytes = log_of (units_payloads us @ take n (unit_payloads u)),
             lf_durable = log_of (units_payloads us @ take n (unit_payloads u))\<rparr>) = Some (Inr s)"
    and "store_set hash as ok k v s = (Inr x, s')" and "so_log s' = Some w"
  shows "so_discarded s \<and> sm_abs hash (so_map s') k = Some v \<and>
    (\<exists>s''. newStore hash io True True cfg (Some \<lparr>lf_bytes = wal_bytes w, lf_durable = wal_bytes w\<rparr>) = Some (Inr s'') \<and>
       sm_abs hash (so_map s'') = units_map us)"
proof -
  define ps where "ps = units_payloads us @ take n (unit_payloads u)"
  let ?c = "SetCommand k v"
  have okp: "\<forall>p \<in> set ps. payload_ok p"
    unfolding ps_def using units_payloads_ok[OF assms(3)] unit_payloads_ok[OF assms(4)] set_take_subset[of n "unit_payloads u"]
    by auto
  note ro = recovered_open_transaction[OF assms(3-6), of ?c, folded ps_def]
  have cok: "command_ok ?c" "payload_ok (serialize ?c)" using assms(7) by (simp_all add: command_fits_def)
  obtain w0 where s: "so_log s = Some w0" "sm_inv hash (so_map s)" "maxMemoryBytes (so_map s) = 0"
    "wal_bytes w0 = log_of ps" "so_discarded s"
    using newStore_log[OF assms(1,2) _ okp torn_Nil, of "\<lparr>lf_bytes = log_of ps, lf_durable = log_of ps\<rparr>" hash]
      assms(8)[folded ps_def] ro(1,3)[OF cok(1)] by auto
  obtain off where app: "appendBytes as ok (frame (serialize ?c)) 1 w0 = (Inr off, w)"
    and m: "so_map s' = sm_set hash k v (so_map s)"
    using assms(9,10) s(1)
    by (auto simp: store_set_def wal_append_def notifyAppend_def Let_def split: prod.splits sum.splits
        simp del: serialize.simps)
  have w: "wal_bytes w = log_of (ps @ [serialize ?c])"
    using appendBytes_ok(1)[OF app frame_nonempty] s(4) by simp
  have "\<forall>p \<in> set (ps @ [serialize ?c]). payload_ok p" using okp cok(2) by auto
  from newStore_log[OF assms(1,2) _ this torn_Nil, of "\<lparr>lf_bytes = wal_bytes w, lf_durable = wal_bytes w\<rparr>" hash]
    ro(5)[OF cok(1)] w s(2,5) m show ?thesis
    by (auto simp: sm_set_keeps)
qed


theorem open_transaction_swallows_writes_witness:
  "\<exists>s s' s'' w.
     newStore demo_hash demo_io True True demo_cfg
       (Some \<lparr>lf_bytes = log_of [serializeBeginMarker 1], lf_durable = log_of [serializeBeginMarker 1]\<rparr>) = Some (Inr s) \<and>
     store_set demo_hash [] True ''b'' ''2'' s = (Inr (), s') \<and> so_log s' = Some w \<and>
     sm_abs demo_hash (so_map s') ''b'' = Some ''2'' \<and>
     newStore demo_hash demo_io True True demo_cfg (Some \<lparr>lf_bytes = wal_bytes w, lf_durable = wal_bytes w\<rparr>)
       = Some (Inr s'') \<and>
     sm_abs demo_hash (so_map s'') = Map.empty"
proof -
  let ?u = "Txn 1 [\<lparr>erase = False, key = ''a'', val = ''1''\<rparr>]"
  let ?lf = "\<lparr>lf_bytes = log_of [serializeBeginMarker 1], lf_durable = log_of [serializeBeginMarker 1]\<rparr>"
  have fits: "command_fits (SetCommand ''a'' ''1'')" "command_fits (SetCommand ''b'' ''2'')"
    by (simp_all add: command_fits_def payload_ok_def unat_kMaxPayloadBytes)
  then have u: "unit_ok ?u" by simp
  have ps: "units_payloads [] @ take 1 (unit_payloads ?u) = [serializeBeginMarker 1]" by simp
  obtain s w0 where s: "newStore demo_hash demo_io True True demo_cfg (Some ?lf) = Some (Inr s)"
    "so_log s = Some w0" "wal_inv w0"
    using newStore_log[OF demo_fine(1,2) _ _ torn_Nil, of ?lf "[serializeBeginMarker 1]" demo_hash]
    by (auto simp: payload_ok_def unat_kMaxPayloadBytes)
  obtain off w where "appendBytes [] True (frame (serialize (SetCommand ''b'' ''2''))) 1 w0 = (Inr off, w)"
    using appendBytes_succeeds[of w0 "[]" True "frame (serialize (SetCommand ''b'' ''2''))" 1] s(3)
    by (auto simp: wal_inv_def simp del: serialize.simps)
  then obtain s' where s': "store_set demo_hash [] True ''b'' ''2'' s = (Inr (), s')" "so_log s' = Some w"
    using s(2) by (simp add: store_set_def wal_append_def notifyAppend_def Let_def del: serialize.simps)
  from open_transaction_swallows_writes[OF demo_fine(1,2) _ u, of "[]" 1, unfolded ps, OF _ _ _ fits(2) s(1) s'] s(1) s'
  show ?thesis by (auto simp: units_map_def)
qed

lemma torn_byte_shifts_header:
  "torn (CHR 0x0B # frame p)" if "length p = 11"
proof -
  have "frame p = [CHR 0x0B, CHR 0x00, CHR 0x00, CHR 0x00] @ appendLittleEndian32 [] (crc32 p) @ p"
    using that by (simp add: frame_def appendLittleEndian32_def char_of_word_def char_of_def bit_Suc_0_iff)
  then have "readLittleEndian32 (pre @ CHR 0x0B # frame p) (length pre) = 0xB0B" for pre
    by (simp add: readLittleEndian32_def nth_append word_of_char_def)
  then show ?thesis
    using that by (simp add: torn_def parseRecord_def kHeaderBytes_def kMaxPayloadBytes_def)
qed

text \<open>
  C36. A \<open>SET\<close> whose first byte is written before the disk refuses the rest is reported as failed,
  but the byte stays; the next, acknowledged \<open>SET\<close> is appended after it, and the next
  recovery reads the two as the header of one long unfinished record.
\<close>

theorem torn_append_loses_next_write:
  "\<exists>s0 e s1 s2 w s3. newStore demo_hash demo_io True True demo_cfg None = Some (Inr s0) \<and>
     store_set demo_hash [WOk 1, WErr] True ''a'' ''1'' s0 = (Inl e, s1) \<and>
     store_set demo_hash [] True ''b'' ''2'' s1 = (Inr (), s2) \<and>
     sm_abs demo_hash (so_map s2) ''b'' = Some ''2'' \<and> so_log s2 = Some w \<and>
     newStore demo_hash demo_io True True demo_cfg (Some \<lparr>lf_bytes = wal_bytes w, lf_durable = wal_bytes w\<rparr>)
       = Some (Inr s3) \<and>
     sm_abs demo_hash (so_map s3) = Map.empty"
proof -
  let ?p = "serialize (SetCommand ''a'' ''1'')" and ?q = "serialize (SetCommand ''b'' ''2'')"
  have len: "length ?p = 11" "length ?q = 11" by simp_all
  obtain s0 where s0: "newStore demo_hash demo_io True True demo_cfg None = Some (Inr s0)"
    using newStore_starts[of demo_cfg] by auto
  note m = newStore_empty[OF demo_fine(1) s0]
  note mm = mirrors_map[OF m]
  obtain w0 where w0: "so_log s0 = Some w0" "wal_fd w0" "wal_bytes w0 = []"
    using mirrorsD[OF m] by (auto simp: wal_inv_def)
  have "write_loop [WOk 1, WErr] (frame ?p) = (take 1 (frame ?p), False)"
    using len(1) by (simp add: Let_def del: serialize.simps)
  moreover have "take 1 (frame ?p) = [CHR 0x0B]"
    using len(1) by (simp add: frame_def appendLittleEndian32_def char_of_word_def char_of_def bit_Suc_0_iff del: serialize.simps)
  ultimately have wl: "write_loop [WOk 1, WErr] (frame ?p) = ([CHR 0x0B], False)" by simp
  define w1 where "w1 = w0\<lparr>wal_file := lf_append [CHR 0x0B] (wal_file w0)\<rparr>"
  have s1: "store_set demo_hash [WOk 1, WErr] True ''a'' ''1'' s0
      = (Inl (SyscallError ''write(log)''), s0\<lparr>so_log := Some w1\<rparr>)"
    using w0 wl by (simp add: store_set_def wal_append_def appendBytes_cases w1_def del: serialize.simps)
  obtain off w2 where a2: "appendBytes [] True (frame ?q) 1 w1 = (Inr off, w2)"
    using appendBytes_succeeds[of w1 "[]" True "frame ?q" 1] w0(2) by (auto simp: w1_def)
  have w2: "wal_bytes w2 = CHR 0x0B # frame ?q"
    using appendBytes_ok(1)[OF a2 frame_nonempty] w0(3) by (simp add: w1_def wal_bytes_def lf_append_def)
  obtain s2 where s2: "store_set demo_hash [] True ''b'' ''2'' (s0\<lparr>so_log := Some w1\<rparr>) = (Inr (), s2)"
    "so_map s2 = sm_set demo_hash ''b'' ''2'' (so_map s0)" "so_log s2 = Some w2"
    using a2 by (simp add: store_set_def wal_append_def notifyAppend_def Let_def del: serialize.simps)
  obtain s3 where s3: "newStore demo_hash demo_io True True demo_cfg
      (Some \<lparr>lf_bytes = wal_bytes w2, lf_durable = wal_bytes w2\<rparr>) = Some (Inr s3)"
    "sm_abs demo_hash (so_map s3) = Map.empty"
    using newStore_log[OF demo_fine(1,2) _ _ torn_byte_shifts_header[OF len(2)],
        of "\<lparr>lf_bytes = wal_bytes w2, lf_durable = wal_bytes w2\<rparr>" "[]" demo_hash] w2
    by (auto simp: recovered_def rc_init_def)
  have "sm_abs demo_hash (so_map s2) ''b'' = Some ''2''" unfolding s2(2) by (rule sm_set_keeps[OF mm(1)])
  with s0 s1 s2 s3 show ?thesis by blast
qed

end
