(* ===== verification/MapSpec.thy ===== *)
theory MapSpec
  imports MapRefinement
begin

text \<open>
  The sharded map as a whole: its operations as one step function, the partial map that
  specifies it, and the two contracts: without a memory budget every run gives the answers of
  the specification, with a budget the map is a cache of it that stays inside the budget.
\<close>

subsection \<open>Operations and specification\<close>

datatype map_op =
  MGet string | MGetMany "string list" | MSet string string | MDel string
| MBatch "mutation list" | MClear | MSize

datatype map_out = OGet "string option" | OMany "(bool \<times> string) list" | ODel bool | OSize nat | ODone

fun map_step :: "(string \<Rightarrow> u64) \<Rightarrow> map_op \<Rightarrow> sharded_map \<Rightarrow> map_out \<times> sharded_map" where
  "map_step hash (MGet k) m = apfst OGet (sm_get hash k m)"
| "map_step hash (MGetMany ks) m = apfst OMany (sm_getMany hash ks m)"
| "map_step hash (MSet k v) m = (ODone, sm_set hash k v m)"
| "map_step hash (MDel k) m = apfst ODel (sm_del hash k m)"
| "map_step hash (MBatch mus) m = (ODone, sm_applyAtomically hash mus m)"
| "map_step hash MClear m = (ODone, sm_clear m)"
| "map_step hash MSize m = (OSize (sm_size m), m)"

fun spec_step :: "map_op \<Rightarrow> (string \<rightharpoonup> string) \<Rightarrow> map_out \<times> (string \<rightharpoonup> string)" where
  "spec_step (MGet k) f = (OGet (f k), f)"
| "spec_step (MGetMany ks) f =
     (OMany (map (\<lambda>k. case f k of None \<Rightarrow> (False, []) | Some v \<Rightarrow> (True, v)) ks), f)"
| "spec_step (MSet k v) f = (ODone, f(k \<mapsto> v))"
| "spec_step (MDel k) f = (ODel (f k \<noteq> None), f(k := None))"
| "spec_step (MBatch mus) f = (ODone, foldl mut_apply f mus)"
| "spec_step MClear f = (ODone, Map.empty)"
| "spec_step MSize f = (OSize (card (dom f)), f)"

fun run :: "('o \<Rightarrow> 's \<Rightarrow> 'r \<times> 's) \<Rightarrow> 'o list \<Rightarrow> 's \<Rightarrow> 'r list \<times> 's" where
  "run f [] s = ([], s)"
| "run f (x # xs) s = (let (r, s') = f x s; (rs, s'') = run f xs s' in (r # rs, s''))"

text \<open>The key and value bytes an operation writes, with the overhead of each entry.\<close>

definition entry_size :: "string \<Rightarrow> string \<Rightarrow> nat" where
  "entry_size k v = length k + length v + 192"

fun op_bytes :: "map_op \<Rightarrow> nat" where
  "op_bytes (MSet k v) = entry_size k v"
| "op_bytes (MBatch mus) = sum_list (map (\<lambda>mu. entry_size (key mu) (val mu)) mus)"
| "op_bytes _ = 0"

definition shard_total :: "shard \<Rightarrow> nat" where
  "shard_total sh = sum_list (map (\<lambda>e. entry_size (fst e) (snd e)) (smap sh))"

definition sm_total :: "sharded_map \<Rightarrow> nat" where
  "sm_total m = sum_list (map shard_total (shards m))"

text \<open>The real sizes, as natural numbers, are inside the budget of each shard.\<close>

definition real_bounded :: "sharded_map \<Rightarrow> bool" where
  "real_bounded m \<longleftrightarrow>
     (\<forall>sh \<in> set (shards m). shard_total sh \<le> unat (shardBudgetBytes m) \<or> length (smap sh) \<le> 1)"


subsection \<open>Without a budget\<close>

lemma getMany_result:
  "sm_inv hash m \<Longrightarrow> sm_getMany hash ks m = readAll hash ks m"
  by (simp add: sm_getMany_def)

lemma map_step_inv:
  assumes "sm_inv hash m"
  shows "sm_inv hash (snd (map_step hash x m))"
    and "maxMemoryBytes (snd (map_step hash x m)) = maxMemoryBytes m"
  using assms readAll_spec[OF assms]
  by (cases x; simp add: sm_inv_get sm_set_inv sm_del_inv sm_applyAtomically_inv sm_clear_inv
      getMany_result readAll_frame sm_frames)+

lemma map_step_refines:
  assumes "sm_inv hash m" and "maxMemoryBytes m = 0"
  shows "fst (map_step hash x m) = fst (spec_step x (sm_abs hash m))"
    and "sm_abs hash (snd (map_step hash x m)) = snd (spec_step x (sm_abs hash m))"
proof -
  note facts = sm_get_result sm_abs_get sm_set_unbounded sm_del_result[of hash _ m] sm_del_abs
    sm_applyAtomically_unbounded sm_clear_abs sm_size_card getMany_result
  show "fst (map_step hash x m) = fst (spec_step x (sm_abs hash m))"
    using assms readAll_spec[OF assms(1)] by (cases x) (simp_all add: facts)
  show "sm_abs hash (snd (map_step hash x m)) = snd (spec_step x (sm_abs hash m))"
    using assms readAll_spec[OF assms(1)] by (cases x) (simp_all add: facts)
qed

lemma map_run_refines:
  assumes "sm_inv hash m" and "maxMemoryBytes m = 0"
  shows "fst (run (map_step hash) xs m) = fst (run spec_step xs (sm_abs hash m)) \<and>
     sm_abs hash (snd (run (map_step hash) xs m)) = snd (run spec_step xs (sm_abs hash m)) \<and>
     sm_inv hash (snd (run (map_step hash) xs m))"
  using assms
proof (induction xs arbitrary: m)
  case (Cons x xs)
  let ?m = "snd (map_step hash x m)"
  have "sm_inv hash ?m" "maxMemoryBytes ?m = 0" using map_step_inv[OF Cons.prems(1), of x] Cons.prems(2) by simp_all
  from Cons.IH[OF this] map_step_refines[OF Cons.prems, of x] show ?case
    by (simp add: split_beta Let_def)
qed simp



subsection \<open>With a budget\<close>

lemma entryBytes_size: "entryBytes k v = of_nat (entry_size k v)"
  by (simp add: entryBytes_def entry_size_def kEntryOverheadBytes_def)

lemma of_nat_sum_list: "of_nat (sum_list (map f xs)) = sum_list (map (\<lambda>x. of_nat (f x)) xs)"
  by (induction xs) simp_all

lemma policy_bytes_total:
  assumes "shard_wf sh" and "policy sh = Some p" and "shard_total sh < 2 ^ 64"
  shows "unat (lru_bytes p) = shard_total sh"
proof -
  have "lru_bytes p = of_nat (shard_total sh)"
    using policy_bytes[OF assms(1,2)] by (simp add: entryBytes_size shard_total_def of_nat_sum_list)
  then show ?thesis using assms(3) by (simp add: unat_of_nat)
qed

lemma policy_entries:
  assumes "shard_wf sh" and "policy sh = Some p"
  shows "lru_entries p = length (smap sh)"
proof -
  have d: "um_wf (lru_order p)" "um_wf (smap sh)"
    using lru.order_distinct[OF shard_wfD(2)[OF assms]] shard_wfD(1)[OF assms(1)] .
  have "dom (map_of (lru_order p)) = dom (map_of (smap sh))"
    using shard_wfD(3)[OF assms] by (auto simp: dom_def)
  then have "set (map fst (lru_order p)) = set (map fst (smap sh))" by (simp add: dom_map_of_conv_image_fst del: lru_order_keys)
  then have "length (map fst (lru_order p)) = length (map fst (smap sh))"
    using distinct_card[OF d(1)] distinct_card[OF d(2)] by (simp del: lru_order_keys length_map)
  then show ?thesis using lru.entries_order[OF shard_wfD(2)[OF assms]] by (simp del: lru_order_keys)
qed

lemma within_budget_real:
  assumes "shard_wf sh" and "policy sh \<noteq> None" and "shard_total sh < 2 ^ 64"
  shows "within_budget b sh \<longleftrightarrow> shard_total sh \<le> unat b \<or> length (smap sh) \<le> 1"
  using assms policy_bytes_total[OF assms(1) _ assms(3)] policy_entries[OF assms(1)]
  by (auto simp: within_budget_def word_le_nat_alt)

lemma shard_total_le: "sh \<in> set (shards m) \<Longrightarrow> shard_total sh \<le> sm_total m"
  unfolding sm_total_def by (induction "shards m" rule: list.induct) (auto simp: member_le_sum_list)

lemma sm_bounded_real:
  assumes "sm_inv hash m" and "maxMemoryBytes m \<noteq> 0" and "sm_total m < 2 ^ 64"
  shows "sm_bounded m \<longleftrightarrow> real_bounded m"
proof -
  have "within_budget (shardBudgetBytes m) sh \<longleftrightarrow>
      shard_total sh \<le> unat (shardBudgetBytes m) \<or> length (smap sh) \<le> 1" if "sh \<in> set (shards m)" for sh
    using that assms shard_total_le[OF that]
    by (intro within_budget_real) (auto simp: sm_inv_def in_set_conv_nth)
  then show ?thesis by (simp add: sm_bounded_def real_bounded_def)
qed

text \<open>Totals.\<close>

lemma delete_total:
  "sum_list (map (\<lambda>e. entry_size (fst e) (snd e)) (AList.delete k es))
     \<le> sum_list (map (\<lambda>e. entry_size (fst e) (snd e)) es)"
  by (induction es) auto

lemma update_total:
  "sum_list (map (\<lambda>e. entry_size (fst e) (snd e)) (AList.update k v es))
     \<le> sum_list (map (\<lambda>e. entry_size (fst e) (snd e)) es) + entry_size k v"
  by (induction es) auto

lemma shard_totals:
  "shard_total (shardErase k sh) \<le> shard_total sh"
  "shard_total (shardPut k v sh) \<le> shard_total sh + entry_size k v"
  "shard_total (applyOne mu sh) \<le> shard_total sh + entry_size (key mu) (val mu)"
  "shard_total (snd (shardGet k' sh)) = shard_total sh"
  using delete_total[of k "smap sh"] update_total[of k v "smap sh"]
    delete_total[of "key mu" "smap sh"] update_total[of "key mu" "val mu" "smap sh"]
  by (auto simp: shard_total_def shardErase_def shardPut_def applyOne_def)

lemma evictLoop_total: "shard_total (fst (evictLoop b sh ev)) \<le> shard_total sh"
proof (induction b sh ev rule: evictLoop.induct)
  case (1 b sh ev)
  show ?case
  proof (cases "policy sh")
    case (Some p)
    show ?thesis
    proof (cases "b < lru_bytes p \<and> 1 < lru_entries p")
      case True
      show ?thesis
      proof (cases "evict p")
        case None
        with Some True show ?thesis by (subst evictLoop.simps) simp
      next
        case (Some vp)
        let ?sh = "sh\<lparr>policy := Some (snd vp), smap := AList.delete (fst vp) (smap sh)\<rparr>"
        have "shard_total (fst (evictLoop b ?sh (ev + 1))) \<le> shard_total ?sh"
          using "1.IH"[OF \<open>policy sh = Some p\<close>, of vp "fst vp" "snd vp"] True Some by simp
        also have "\<dots> \<le> shard_total sh" using delete_total[of "fst vp" "smap sh"] by (simp add: shard_total_def)
        finally show ?thesis
          using evictLoop_go[OF \<open>policy sh = Some p\<close>, of b "fst vp" "snd vp" ev] True Some by simp
      qed
    qed (simp add: evictLoop_stop[OF Some])
  qed (simp add: evictLoop_None)
qed

lemma sm_total_replace:
  assumes "i < length (shards m)" and "shard_total sh \<le> shard_total (shards m ! i) + d"
  shows "sm_total (m\<lparr>shards := (shards m)[i := sh]\<rparr>) \<le> sm_total m + d"
proof -
  have "sum_list ((map shard_total (shards m))[i := shard_total sh])
      = sum_list (map shard_total (shards m)) + shard_total sh - shard_total (shards m ! i)"
    using assms(1) by (subst sum_list_update) simp_all
  with assms(2) show ?thesis by (simp add: sm_total_def map_update)
qed


lemma sm_total_evict: "i < length (shards m) \<Longrightarrow> sm_total (evictIfNeeded i m) \<le> sm_total m"
  using sm_total_replace[of i m "fst (evictLoop (shardBudgetBytes m) (shards m ! i) (evictions m))" 0]
    evictLoop_total[of "shardBudgetBytes m" "shards m ! i" "evictions m"]
  by (simp add: sm_total_def evictIfNeeded_shards)

lemma sm_total_evict_all:
  "set is \<subseteq> {..< length (shards m)} \<Longrightarrow> sm_total (foldl (\<lambda>m i. evictIfNeeded i m) m is) \<le> sm_total m"
proof (induction "is" arbitrary: m)
  case (Cons i "is")
  have "sm_total (foldl (\<lambda>m i. evictIfNeeded i m) (evictIfNeeded i m) is) \<le> sm_total (evictIfNeeded i m)"
    using Cons.prems by (intro Cons.IH) simp
  also have "\<dots> \<le> sm_total m" using Cons.prems by (intro sm_total_evict) simp
  finally show ?case by simp
qed simp

lemma sm_total_mutates:
  "sm_inv hash m \<Longrightarrow>
   sm_total (foldl (sm_mutate hash) m mus) \<le> sm_total m + sum_list (map (\<lambda>mu. entry_size (key mu) (val mu)) mus)"
proof (induction mus arbitrary: m)
  case (Cons mu mus)
  have "sm_total (sm_mutate hash m mu) \<le> sm_total m + entry_size (key mu) (val mu)"
    unfolding sm_mutate_def
    by (rule sm_total_replace[OF shardIndex_less[OF Cons.prems] shard_totals(3)])
  with Cons.IH[OF sm_mutate_inv[OF Cons.prems, of mu]] show ?case by simp
qed simp

lemma sm_total_readAll: "sm_inv hash m \<Longrightarrow> sm_total (snd (readAll hash ks m)) \<le> sm_total m"
proof (induction ks arbitrary: m)
  case (Cons k ks)
  let ?i = "shardIndex hash m k"
  let ?m = "m\<lparr>shards := (shards m)[?i := snd (shardGet k (shards m ! ?i))]\<rparr>"
  note less = shardIndex_less[OF Cons.prems, of k]
  have "sm_total ?m \<le> sm_total m"
    using sm_total_replace[OF less, of "snd (shardGet k (shards m ! ?i))" 0] by (simp add: shard_totals)
  moreover have "sm_inv hash ?m" using Cons.prems less by (simp add: sm_inv_access)
  ultimately show ?case using Cons.IH[of ?m] by (simp add: split_beta Let_def)
qed simp

lemma sm_set_evict:
  "sm_inv hash m \<Longrightarrow> sm_set hash k v m = evictIfNeeded (shardIndex hash m k)
     (m\<lparr>shards := (shards m)[shardIndex hash m k := shardPut k v (shards m ! shardIndex hash m k)]\<rparr>)"
  using shardIndex_less[of hash m k] by (simp add: sm_set_def Let_def evictIfNeeded_None)

lemma map_step_total:
  assumes "sm_inv hash m"
  shows "sm_total (snd (map_step hash x m)) \<le> sm_total m + op_bytes x"
proof (cases x)
  case (MGet k)
  then show ?thesis
    using sm_total_replace[OF shardIndex_less[OF assms, of k], of "snd (shardGet k (shards m ! shardIndex hash m k))" 0]
    by (simp add: sm_get_eq[OF assms] shard_totals)
next
  case (MGetMany ks)
  then show ?thesis using sm_total_readAll[OF assms] by (simp add: getMany_result[OF assms])
next
  case (MSet k v)
  let ?i = "shardIndex hash m k"
  let ?m = "m\<lparr>shards := (shards m)[?i := shardPut k v (shards m ! ?i)]\<rparr>"
  have "sm_total ?m \<le> sm_total m + entry_size k v"
    by (rule sm_total_replace[OF shardIndex_less[OF assms] shard_totals(2)])
  moreover have "sm_total (evictIfNeeded ?i ?m) \<le> sm_total ?m"
    by (rule sm_total_evict) (simp add: shardIndex_less[OF assms])
  ultimately show ?thesis using MSet by (simp add: sm_set_evict[OF assms])
next
  case (MDel k)
  then show ?thesis
    using sm_total_replace[OF shardIndex_less[OF assms, of k], of "shardErase k (shards m ! shardIndex hash m k)" 0]
    by (simp add: sm_del_def shard_totals Let_def)
next
  case (MBatch mus)
  show ?thesis
  proof (cases "mus = []")
    case False
    have "sm_total (sm_applyAtomically hash mus m) \<le> sm_total (foldl (sm_mutate hash) m mus)"
      unfolding sm_applyAtomically_eq[OF assms False]
      using sm_batch_shards_less[OF assms False] by (intro sm_total_evict_all) simp
    with sm_total_mutates[OF assms, of mus] MBatch show ?thesis by simp
  qed (simp add: MBatch sm_applyAtomically_def)
next
  case MClear
  have "sm_total (sm_clear m) = 0"
    unfolding sm_clear_all[OF assms] by (simp add: sm_total_def shard_total_def comp_def)
  with MClear show ?thesis by simp
qed simp

lemma sm_del_bounded:
  assumes "sm_inv hash m" and "sm_bounded m" and "maxMemoryBytes m \<noteq> 0" and "sm_total m < 2 ^ 64"
  shows "sm_bounded (snd (sm_del hash k m))"
proof -
  let ?sh = "shards m ! shardIndex hash m k"
  note less = shardIndex_less[OF assms(1), of k]
  have mem: "?sh \<in> set (shards m)" using less by simp
  have sh: "shard_wf ?sh" "policy ?sh \<noteq> None" "shard_total ?sh < 2 ^ 64"
    using sm_inv_shard[OF assms(1) less] sm_inv_policy_None[OF assms(1) less] assms(3,4)
      shard_total_le[OF mem] by auto
  have "shard_wf (shardErase k ?sh)" "policy (shardErase k ?sh) \<noteq> None" "shard_total (shardErase k ?sh) < 2 ^ 64"
    using shard_wf_erase[OF sh(1)] sh(2,3) shard_totals(1)[of k ?sh] by simp_all
  note after = within_budget_real[OF this]
  have "within_budget (shardBudgetBytes m) ?sh" using assms(2) mem by (simp add: sm_bounded_def)
  moreover have "length (smap (shardErase k ?sh)) \<le> length (smap ?sh)"
    by (simp add: shardErase_def length_delete_le)
  ultimately have "within_budget (shardBudgetBytes m) (shardErase k ?sh)"
    unfolding within_budget_real[OF sh] after using shard_totals(1)[of k ?sh] by linarith
  from sm_bounded_replace[OF assms(2) this] show ?thesis by (simp add: sm_del_def Let_def)
qed

lemma sm_bounded_readAll: "sm_inv hash m \<Longrightarrow> sm_bounded m \<Longrightarrow> sm_bounded (snd (readAll hash ks m))"
proof (induction ks arbitrary: m)
  case (Cons k ks)
  let ?i = "shardIndex hash m k"
  let ?m = "m\<lparr>shards := (shards m)[?i := snd (shardGet k (shards m ! ?i))]\<rparr>"
  note less = shardIndex_less[OF Cons.prems(1), of k]
  have "sm_bounded ?m"
    using Cons.prems(2) less by (intro sm_bounded_replace) (simp_all add: within_budget_get sm_bounded_def)
  moreover have "sm_inv hash ?m" using Cons.prems(1) less by (simp add: sm_inv_access)
  ultimately show ?case using Cons.IH[of ?m] by (simp add: split_beta Let_def)
qed simp

lemma map_step_bounded:
  assumes "sm_inv hash m" and "sm_bounded m" and "maxMemoryBytes m \<noteq> 0" and "sm_total m < 2 ^ 64"
  shows "sm_bounded (snd (map_step hash x m))"
  using assms
  by (cases x) (simp_all add: sm_bounded_get getMany_result sm_bounded_readAll sm_set_bounded
      sm_del_bounded sm_applyAtomically_bounded sm_clear_bounded)

text \<open>The specification only ever knows more.\<close>

lemma mut_apply_mono: "f \<subseteq>\<^sub>m g \<Longrightarrow> mut_apply f mu \<subseteq>\<^sub>m mut_apply g mu"
  by (auto simp: mut_apply_def map_le_def)

lemma mut_apply_list_mono: "f \<subseteq>\<^sub>m g \<Longrightarrow> foldl mut_apply f mus \<subseteq>\<^sub>m foldl mut_apply g mus"
  by (induction mus arbitrary: f g) (simp_all add: mut_apply_mono)

lemma map_step_sub:
  assumes "sm_inv hash m" and "sm_abs hash m \<subseteq>\<^sub>m f"
  shows "sm_abs hash (snd (map_step hash x m)) \<subseteq>\<^sub>m snd (spec_step x f)"
proof (cases x)
  case (MSet k v)
  have "(sm_abs hash m)(k \<mapsto> v) \<subseteq>\<^sub>m f(k \<mapsto> v)" using assms(2) by (auto simp: map_le_def)
  with MSet sm_set_sub[OF assms(1), of k v] show ?thesis using map_le_trans by auto
next
  case (MDel k)
  have "(sm_abs hash m)(k := None) \<subseteq>\<^sub>m f(k := None)" using assms(2) by (auto simp: map_le_def)
  with MDel sm_del_abs[OF assms(1)] show ?thesis by simp
next
  case (MBatch mus)
  with sm_applyAtomically_sub[OF assms(1), of mus] mut_apply_list_mono[OF assms(2), of mus]
  show ?thesis using map_le_trans by auto
qed (use assms readAll_spec[OF assms(1)] in \<open>simp_all add: sm_abs_get getMany_result sm_clear_abs\<close>)

lemma map_run_cache:
  assumes "sm_inv hash m" and "sm_bounded m" and "maxMemoryBytes m \<noteq> 0" and "sm_abs hash m \<subseteq>\<^sub>m f"
    and "sm_total m + sum_list (map op_bytes xs) < 2 ^ 64"
  shows "sm_inv hash (snd (run (map_step hash) xs m)) \<and> real_bounded (snd (run (map_step hash) xs m)) \<and>
     sm_abs hash (snd (run (map_step hash) xs m)) \<subseteq>\<^sub>m snd (run spec_step xs f)"
  using assms
proof (induction xs arbitrary: m f)
  case (Cons x xs)
  have "sm_total m < 2 ^ 64" "sm_total (snd (map_step hash x m)) + sum_list (map op_bytes xs) < 2 ^ 64"
    using Cons.prems(5) map_step_total[OF Cons.prems(1), of x] by simp_all
  with Cons.IH[of "snd (map_step hash x m)" "snd (spec_step x f)"] Cons.prems(1-4)
    map_step_inv[OF Cons.prems(1), of x] map_step_bounded[OF Cons.prems(1-3), of x]
    map_step_sub[OF Cons.prems(1,4), of x]
  show ?case by (simp add: split_beta Let_def)
qed (simp add: sm_bounded_real)



subsection \<open>Properties\<close>

text \<open>
  C12. Without a memory budget the map is linear: in every lock mode, for every shard count and
  every hash function, any sequence of operations on a new map gives the answers that a plain
  partial map gives, and leaves that partial map.
\<close>

theorem map_refines_partial_map:
  assumes "newShardedMap mode n 0 = Some m"
  shows "fst (run (map_step hash) xs m) = fst (run spec_step xs Map.empty) \<and>
     sm_abs hash (snd (run (map_step hash) xs m)) = snd (run spec_step xs Map.empty)"
  using newShardedMap_inv[OF assms, of hash] map_run_refines[of hash m xs] by simp

theorem map_refines_partial_map_witness:
  "\<exists>m. newShardedMap GlobalMutex 4 0 = Some m \<and>
     fst (run (map_step (\<lambda>k. of_nat (length k))) [MSet ''k'' ''v'', MGet ''k'', MDel ''k'', MSize] m)
       = [ODone, OGet (Some ''v''), ODel True, OSize 0]"
proof -
  obtain m where m: "newShardedMap GlobalMutex 4 0 = Some m"
    using newShardedMap_returns[of 4 GlobalMutex 0] by auto
  have "fst (run spec_step [MSet ''k'' ''v'', MGet ''k'', MDel ''k'', MSize] Map.empty)
      = [ODone, OGet (Some ''v''), ODel True, OSize 0]" by (simp add: Let_def)
  with map_refines_partial_map[OF m, of _ "[MSet ''k'' ''v'', MGet ''k'', MDel ''k'', MSize]"] m
  show ?thesis by (metis (no_types))
qed



text \<open>
  The eviction loop stops: it removes least recently used entries exactly until the budget
  is met, keeping the longest prefix of the recency order that fits (at least one entry), and
  counts every entry it removes.
\<close>

theorem evictLoop_keeps_longest_prefix:
  assumes "shard_wf sh" and "policy sh = Some p"
  shows "\<exists>j. evict_result b sh p ev (fst (evictLoop b sh ev)) (snd (evictLoop b sh ev)) j"
  using evictLoop_result[OF assms(2) shard_wfD(2)[OF assms]] .

theorem evictLoop_keeps_longest_prefix_witness:
  "\<exists>j. evict_result 300 (shardPut ''b'' ''2'' (shardPut ''a'' ''1'' \<lparr>smap = [], policy = Some lru_empty\<rparr>))
     (onInsert ''b'' 194 (onInsert ''a'' 194 lru_empty)) 0
     (fst (evictLoop 300 (shardPut ''b'' ''2'' (shardPut ''a'' ''1'' \<lparr>smap = [], policy = Some lru_empty\<rparr>)) 0))
     (snd (evictLoop 300 (shardPut ''b'' ''2'' (shardPut ''a'' ''1'' \<lparr>smap = [], policy = Some lru_empty\<rparr>)) 0)) j"
proof (rule evictLoop_keeps_longest_prefix)
  have "shard_wf \<lparr>smap = [], policy = Some lru_empty\<rparr>"
    by (simp add: shard_wf_def lru_inv_empty lru_order_empty)
  then show "shard_wf (shardPut ''b'' ''2'' (shardPut ''a'' ''1'' \<lparr>smap = [], policy = Some lru_empty\<rparr>))"
    by (intro shard_wf_put)
qed (simp add: shardPut_def entryBytes_def kEntryOverheadBytes_def)

text \<open>
  Rounding the shard count: up to \<open>2 ^ 63\<close> the loop returns the least power of two that is
  at least the argument, and beyond that it never returns.
\<close>

theorem roundUpToPowerOfTwo_spec:
  "(unat n \<le> 2 ^ 63 \<longrightarrow>
     (\<exists>j \<le> 63. roundUpToPowerOfTwo n = Some (2 ^ j) \<and> unat n \<le> 2 ^ j \<and> (j = 0 \<or> 2 ^ (j - 1) < unat n))) \<and>
   (2 ^ 63 < unat n \<longrightarrow> roundUpToPowerOfTwo n = None)"
  using roundUp_result[of n] roundUp_diverges[of n] by blast

theorem roundUpToPowerOfTwo_spec_witness:
  "\<exists>j \<le> 63. roundUpToPowerOfTwo 5 = Some (2 ^ j) \<and> 5 \<le> (2 :: nat) ^ j \<and> (j = 0 \<or> (2 :: nat) ^ (j - 1) < 5)"
  using roundUpToPowerOfTwo_spec[of 5] by simp

text \<open>
  Bookkeeping: \<open>snapshot\<close> lists every entry of the map once, \<open>size\<close> counts them, and with a
  budget \<open>bytesUsed\<close> is their total size modulo \<open>2 ^ 64\<close>.
\<close>

theorem map_bookkeeping:
  assumes "sm_inv hash m"
  shows "distinct (map fst (sm_snapshot m)) \<and> map_of (sm_snapshot m) = sm_abs hash m \<and>
     sm_size m = card (dom (sm_abs hash m)) \<and>
     (maxMemoryBytes m \<noteq> 0 \<longrightarrow>
        sm_bytesUsed m = sum_list (map (\<lambda>e. entryBytes (fst e) (snd e)) (sm_snapshot m)))"
  using sm_snapshot_distinct[OF assms] sm_snapshot_map[OF assms] sm_size_card[OF assms]
    sm_bytesUsed_snapshot[OF assms] by simp

theorem map_bookkeeping_witness:
  "\<exists>m. newShardedMap Sharded 2 1000 = Some m \<and> sm_size (sm_set (\<lambda>k. 1) ''a'' ''1'' m) = 1"
proof -
  obtain m where m: "newShardedMap Sharded 2 1000 = Some m"
    using newShardedMap_returns[of 2 Sharded 1000] by auto
  note new = newShardedMap_inv[OF m, of "\<lambda>k. 1"]
  have "sm_abs (\<lambda>k. 1) (sm_set (\<lambda>k. 1) ''a'' ''1'' m) \<subseteq>\<^sub>m [''a'' \<mapsto> ''1'']"
    "sm_abs (\<lambda>k. 1) (sm_set (\<lambda>k. 1) ''a'' ''1'' m) ''a'' = Some ''1''"
    using new sm_set_sub[of "\<lambda>k. 1" m "''a''" "''1''"] sm_set_keeps[of "\<lambda>k. 1" m "''a''" "''1''"] by simp_all
  then have "dom (sm_abs (\<lambda>k. 1) (sm_set (\<lambda>k. 1) ''a'' ''1'' m)) = {''a''}"
    by (auto simp: map_le_def dom_def split: if_splits)
  with map_bookkeeping[OF sm_set_inv, of "\<lambda>k. 1" m "''a''" "''1''"] new m show ?thesis by auto
qed

lemma sorted_remdups_adj_distinct: "sorted xs \<Longrightarrow> distinct (remdups_adj xs)"
  for xs :: "'a::linorder list"
  by (induction xs rule: remdups_adj.induct) (auto dest: order.antisym)

text \<open>
  A batch takes its shard locks in strictly increasing order, each once: the touched shards
  are exactly those of its keys, all in range.
\<close>

theorem touchedShards_lock_order:
  assumes "sm_inv hash m"
  shows "sorted_wrt (<) (touchedShards hash m ks) \<and> set (touchedShards hash m ks) = shardFor hash m ` set ks \<and>
     (\<forall>i \<in> set (touchedShards hash m ks). i < length (shards m))"
proof -
  have "sorted_wrt (<) (touchedShards hash m ks)"
    by (simp add: touchedShards_def strict_sorted_iff sorted_remdups_adj_distinct)
  with touchedShards_set[of hash m ks] shardFor_less[OF assms] show ?thesis by auto
qed

theorem touchedShards_lock_order_witness:
  "\<exists>m. newShardedMap Sharded 4 0 = Some m \<and>
     sorted_wrt (<) (touchedShards (\<lambda>k. of_nat (length k)) m [''abc'', ''a'', ''xyz'', []])"
proof -
  obtain m where m: "newShardedMap Sharded 4 0 = Some m"
    using newShardedMap_returns[of 4 Sharded 0] by auto
  then show ?thesis
    using touchedShards_lock_order[of "\<lambda>k. of_nat (length k)" m] newShardedMap_inv[OF m] by blast
qed

end
