(* ===== verification/Parser.thy ===== *)
theory Parser
  imports Prelude
begin

text \<open>
  The command parser, \<open>src/src/protocol/parser.cpp\<close>.  The code walks over positions of the
  line; a reference parser splits it into words.  Shown here: the two agree on every line, and
  the lines that parse to a command are exactly the printed forms of that command, with any
  spacing and any letter case of the verb.
\<close>

subsection \<open>Definitions\<close>

datatype CommandType = Set | Get | Del | Stats | Compact | Begin | Commit | Rollback | Quit | Invalid

record parsed_command =
  pc_type :: CommandType
  pc_key :: string
  pc_value :: string
  pc_error :: string

definition parsedCommand :: parsed_command where
  "parsedCommand = \<lparr>pc_type = Invalid, pc_key = [], pc_value = [], pc_error = []\<rparr>"

text \<open>\<open>std::toupper\<close> in the C locale.\<close>

definition to_upper :: "char \<Rightarrow> char" where
  "to_upper c = (if 97 \<le> (of_char c :: nat) \<and> (of_char c :: nat) \<le> 122
                 then char_of ((of_char c :: nat) - 32) else c)"

fun upper :: "string \<Rightarrow> string" where
  "upper [] = []"
| "upper (c # s) = to_upper c # upper s"

function skipSpaces :: "string \<Rightarrow> nat \<Rightarrow> nat option" where
  "skipSpaces s from =
     (if from < length s \<and> s ! from = CHR '' '' then skipSpaces s (from + 1)
      else if from < length s then Some from else None)"
  by auto
termination by (relation "measure (\<lambda>(s, from). length s - from)") auto

declare skipSpaces.simps [simp del]

definition invalid :: "string \<Rightarrow> parsed_command" where
  "invalid why = parsedCommand\<lparr>pc_type := Invalid, pc_error := why\<rparr>"

definition parse :: "string \<Rightarrow> parsed_command" where
  "parse line =
     (case skipSpaces line 0 of
        None \<Rightarrow> invalid ''empty command''
      | Some verbStart \<Rightarrow>
          (let verbEnd = find_from line CHR '' '' verbStart;
               verb = upper (substr_to line verbStart verbEnd)
           in if verb = ''STATS'' then parsedCommand\<lparr>pc_type := Stats\<rparr>
              else if verb = ''COMPACT'' then parsedCommand\<lparr>pc_type := Compact\<rparr>
              else if verb = ''BEGIN'' then parsedCommand\<lparr>pc_type := Begin\<rparr>
              else if verb = ''COMMIT'' then parsedCommand\<lparr>pc_type := Commit\<rparr>
              else if verb = ''ROLLBACK'' then parsedCommand\<lparr>pc_type := Rollback\<rparr>
              else if verb = ''QUIT'' then parsedCommand\<lparr>pc_type := Quit\<rparr>
              else
                (let needsValue = (verb = ''SET'');
                     known = (needsValue \<or> verb = ''GET'' \<or> verb = ''DEL'')
                 in if \<not> known then invalid (''unknown command '' @ [CHR 0x27] @ verb @ [CHR 0x27])
                    else case verbEnd of
                      None \<Rightarrow> invalid (verb @ '' requires a key'')
                    | Some verbEnd \<Rightarrow>
                        (case skipSpaces line verbEnd of
                           None \<Rightarrow> invalid (verb @ '' requires a key'')
                         | Some keyStart \<Rightarrow>
                             (let keyEnd = find_from line CHR '' '' keyStart;
                                  cmd = parsedCommand\<lparr>pc_key := substr_to line keyStart keyEnd\<rparr>
                              in if \<not> needsValue then
                                   cmd\<lparr>pc_type := (if verb = ''GET'' then Get else Del)\<rparr>
                                 else case keyEnd of
                                   None \<Rightarrow> invalid ''SET requires a value''
                                 | Some keyEnd \<Rightarrow>
                                     (case skipSpaces line keyEnd of
                                        None \<Rightarrow> invalid ''SET requires a value''
                                      | Some valueStart \<Rightarrow>
                                          cmd\<lparr>pc_type := Set, pc_value := drop valueStart line\<rparr>))))))"


subsection \<open>The reference parser\<close>

abbreviation sp :: "char \<Rightarrow> bool" where
  "sp c \<equiv> c = CHR '' ''"

text \<open>The next word and what follows it, after leading spaces.\<close>

definition first_word :: "string \<Rightarrow> string" where
  "first_word s = takeWhile (\<lambda>c. \<not> sp c) (dropWhile sp s)"

definition after_word :: "string \<Rightarrow> string" where
  "after_word s = dropWhile (\<lambda>c. \<not> sp c) (dropWhile sp s)"

definition simple_type :: "string \<Rightarrow> CommandType option" where
  "simple_type = map_of [(''STATS'', Stats), (''COMPACT'', Compact), (''BEGIN'', Begin),
     (''COMMIT'', Commit), (''ROLLBACK'', Rollback), (''QUIT'', Quit)]"

definition parse_words :: "string \<Rightarrow> parsed_command" where
  "parse_words line =
     (let verb = upper (first_word line); args = after_word line; k = first_word args; value = dropWhile sp (after_word args)
      in if verb = [] then invalid ''empty command''
         else case simple_type verb of
           Some t \<Rightarrow> parsedCommand\<lparr>pc_type := t\<rparr>
         | None \<Rightarrow>
             if verb \<notin> {''SET'', ''GET'', ''DEL''}
             then invalid (''unknown command '' @ [CHR 0x27] @ verb @ [CHR 0x27])
             else if k = [] then invalid (verb @ '' requires a key'')
             else if verb = ''GET'' then parsedCommand\<lparr>pc_type := Get, pc_key := k\<rparr>
             else if verb = ''DEL'' then parsedCommand\<lparr>pc_type := Del, pc_key := k\<rparr>
             else if value = [] then invalid ''SET requires a value''
             else parsedCommand\<lparr>pc_type := Set, pc_key := k, pc_value := value\<rparr>)"

declare dropWhile_eq_Nil_conv [simp del]

lemma skipSpaces_drop:
  "from \<le> length s \<Longrightarrow>
   (case skipSpaces s from of
      None \<Rightarrow> dropWhile sp (drop from s) = []
    | Some i \<Rightarrow> i < length s \<and> drop i s = dropWhile sp (drop from s))"
proof (induction s "from" rule: skipSpaces.induct)
  case (1 s "from")
  show ?case
  proof (cases "from < length s \<and> s ! from = CHR '' ''")
    case True
    then have "drop from s = CHR '' '' # drop (from + 1) s" by (metis Cons_nth_drop_Suc Suc_eq_plus1)
    then have "dropWhile sp (drop from s) = dropWhile sp (drop (from + 1) s)" by simp
    moreover have "skipSpaces s from = skipSpaces s (from + 1)"
      using True by (simp add: skipSpaces.simps[of s "from"])
    moreover note 1(1)[OF True]
    ultimately show ?thesis using True by (simp split: option.splits)
  next
    case False
    show ?thesis
    proof (cases "from < length s")
      case True
      then have "drop from s = s ! from # drop (Suc from) s" by (simp add: Cons_nth_drop_Suc)
      with True False show ?thesis by (simp add: skipSpaces.simps[of s "from"])
    qed (simp add: skipSpaces.simps[of s "from"])
  qed
qed

lemma index_of_takeWhile:
  "index_of c s = (if c \<in> set s then Some (length (takeWhile (\<lambda>x. x \<noteq> c) s)) else None)"
  by (induction s) auto

lemma find_from_split:
  assumes "i < length s"
  shows "substr_to s i (find_from s c i) = takeWhile (\<lambda>x. x \<noteq> c) (drop i s)"
    and "case find_from s c i of
           None \<Rightarrow> dropWhile (\<lambda>x. x \<noteq> c) (drop i s) = []
         | Some e \<Rightarrow> e \<le> length s \<and> drop e s = dropWhile (\<lambda>x. x \<noteq> c) (drop i s)"
proof -
  let ?t = "takeWhile (\<lambda>x. x \<noteq> c) (drop i s)"
  have len: "length ?t \<le> length s - i" by (metis length_drop length_takeWhile_le)
  have "drop (i + length ?t) s = dropWhile (\<lambda>x. x \<noteq> c) (drop i s)"
    by (metis add.commute drop_drop dropWhile_eq_drop)
  moreover have "take (length ?t) (drop i s) = ?t" by (rule takeWhile_eq_take[symmetric])
  moreover have "c \<notin> set (drop i s) \<Longrightarrow> takeWhile (\<lambda>x. x \<noteq> c) (drop i s) = drop i s"
    by (subst takeWhile_eq_all_conv) auto
  moreover have "c \<notin> set (drop i s) \<Longrightarrow> dropWhile (\<lambda>x. x \<noteq> c) (drop i s) = []"
    by (subst dropWhile_eq_Nil_conv) auto
  ultimately show "substr_to s i (find_from s c i) = ?t"
    and "case find_from s c i of
           None \<Rightarrow> dropWhile (\<lambda>x. x \<noteq> c) (drop i s) = []
         | Some e \<Rightarrow> e \<le> length s \<and> drop e s = dropWhile (\<lambda>x. x \<noteq> c) (drop i s)"
    using len assms
    by (auto simp: find_from_def substr_to_def index_of_takeWhile
        simp del: takeWhile_eq_all_conv dropWhile_eq_Nil_conv)
qed

lemma upper_Nil [simp]: "upper s = [] \<longleftrightarrow> s = []"
  by (cases s) auto

text \<open>One step over a word: where it starts and where the next search starts.\<close>

lemma next_word:
  assumes "from \<le> length s"
  shows "skipSpaces s from = None \<Longrightarrow> first_word (drop from s) = [] \<and> dropWhile sp (drop from s) = []"
    and "skipSpaces s from = Some i \<Longrightarrow>
      substr_to s i (find_from s CHR '' '' i) = first_word (drop from s) \<and> first_word (drop from s) \<noteq> [] \<and>
      drop i s = dropWhile sp (drop from s) \<and> dropWhile sp (drop from s) \<noteq> []"
    and "skipSpaces s from = Some i \<Longrightarrow> find_from s CHR '' '' i = None \<Longrightarrow> after_word (drop from s) = []"
    and "skipSpaces s from = Some i \<Longrightarrow> find_from s CHR '' '' i = Some e \<Longrightarrow>
      drop e s = after_word (drop from s) \<and> e \<le> length s"
proof -
  note skip = skipSpaces_drop[OF assms]
  show "skipSpaces s from = None \<Longrightarrow> first_word (drop from s) = [] \<and> dropWhile sp (drop from s) = []"
    using skip by (simp add: first_word_def)
  assume i: "skipSpaces s from = Some i"
  with skip have lt: "i < length s" and eq: "drop i s = dropWhile sp (drop from s)" by simp_all
  note find = find_from_split[OF lt, of "CHR '' ''"]
  have ne: "drop i s \<noteq> []" using lt by simp
  then have "\<not> sp (hd (drop i s))" unfolding eq by (rule hd_dropWhile)
  with ne have "takeWhile (\<lambda>c. \<not> sp c) (drop i s) \<noteq> []" by (cases "drop i s") simp_all
  with find(1) eq ne[unfolded eq] show "substr_to s i (find_from s CHR '' '' i) = first_word (drop from s) \<and> first_word (drop from s) \<noteq> [] \<and>
      drop i s = dropWhile sp (drop from s) \<and> dropWhile sp (drop from s) \<noteq> []"
    by (simp add: first_word_def)
  show "find_from s CHR '' '' i = None \<Longrightarrow> after_word (drop from s) = []"
    using find(2) eq by (simp add: after_word_def)
  show "find_from s CHR '' '' i = Some e \<Longrightarrow> drop e s = after_word (drop from s) \<and> e \<le> length s"
    using find(2) eq by (simp add: after_word_def)
qed

lemma value_part:
  assumes "from \<le> length s" and "skipSpaces s from = Some i"
  shows "case find_from s CHR '' '' i of
      None \<Rightarrow> dropWhile sp (after_word (drop from s)) = []
    | Some e \<Rightarrow>
        (case skipSpaces s e of
           None \<Rightarrow> dropWhile sp (after_word (drop from s)) = []
         | Some v \<Rightarrow> drop v s = dropWhile sp (after_word (drop from s)) \<and>
             dropWhile sp (after_word (drop from s)) \<noteq> [])"
proof (cases "find_from s CHR '' '' i")
  case None
  with next_word(3)[OF assms] show ?thesis by simp
next
  case (Some e)
  note e = next_word(4)[OF assms Some]
  show ?thesis
  proof (cases "skipSpaces s e")
    case None
    with next_word(1)[of e s] e Some show ?thesis by simp
  next
    case v: (Some v)
    with next_word(2)[of e s v] e Some show ?thesis by simp
  qed
qed

lemma parse_eq: "parse line = parse_words line"
proof (cases "skipSpaces line 0")
  case None
  with next_word(1)[of 0 line] show ?thesis by (simp add: parse_def parse_words_def)
next
  case (Some vs)
  define ve where "ve = find_from line CHR '' '' vs"
  note verb = next_word(2)[of 0 line, OF _ Some, folded ve_def, simplified]
  show ?thesis
  proof (cases ve)
    case None
    with next_word(3)[of 0 line, OF _ Some] have "after_word line = []" by (simp add: ve_def)
    then have "first_word (after_word line) = []" by (simp add: first_word_def)
    with Some None verb show ?thesis
      by (simp add: parse_def parse_words_def simple_type_def Let_def ve_def[symmetric])
  next
    case (Some e)
    note e = next_word(4)[of 0 line, OF _ \<open>skipSpaces line 0 = Some vs\<close>, of e, folded ve_def, simplified, OF Some]
    then have le: "e \<le> length line" and args: "drop e line = after_word line" by simp_all
    show ?thesis
    proof (cases "skipSpaces line e")
      case None
      with next_word(1)[OF le] args \<open>skipSpaces line 0 = Some vs\<close> Some verb show ?thesis
        by (simp add: parse_def parse_words_def simple_type_def Let_def ve_def[symmetric])
    next
      case ks: (Some ks)
      define ke where "ke = find_from line CHR '' '' ks"
      note key = next_word(2)[OF le ks, folded ke_def, unfolded args]
      note val = value_part[OF le ks, folded ke_def, unfolded args]
      with \<open>skipSpaces line 0 = Some vs\<close> Some verb ks key show ?thesis
        by (cases ke; cases "skipSpaces line (the ke)")
          (auto simp: parse_def parse_words_def simple_type_def Let_def ve_def[symmetric] ke_def[symmetric])
    qed
  qed
qed


subsection \<open>Which lines are commands\<close>

text \<open>A nonempty string without spaces.\<close>

definition is_word :: "string \<Rightarrow> bool" where
  "is_word w \<longleftrightarrow> w \<noteq> [] \<and> CHR '' '' \<notin> set w"

lemma dropWhile_spaces [simp]: "dropWhile sp (replicate n CHR '' '' @ s) = dropWhile sp s"
  by (induction n) auto

lemma first_word_append:
  assumes "is_word w" and "t = [] \<or> hd t = CHR '' ''"
  shows "first_word (replicate n CHR '' '' @ w @ t) = w" and "after_word (replicate n CHR '' '' @ w @ t) = t"
proof -
  have dw: "dropWhile sp (replicate n CHR '' '' @ w @ t) = w @ t"
    using assms(1) by (cases w) (auto simp: is_word_def)
  have nsp: "\<And>x. x \<in> set w \<Longrightarrow> \<not> sp x" using assms(1) by (auto simp: is_word_def)
  have "takeWhile (\<lambda>c. \<not> sp c) t = []" "dropWhile (\<lambda>c. \<not> sp c) t = t" using assms(2) by (cases t; simp)+
  with dw nsp show "first_word (replicate n CHR '' '' @ w @ t) = w"
    and "after_word (replicate n CHR '' '' @ w @ t) = t"
    by (simp_all add: first_word_def after_word_def takeWhile_append2 dropWhile_append2)
qed

lemma takeWhile_sp: "takeWhile sp s = replicate (length (takeWhile sp s)) CHR '' ''"
  by (induction s) auto

lemma word_split:
  "s = replicate (length (takeWhile sp s)) CHR '' '' @ first_word s @ after_word s"
  "CHR '' '' \<notin> set (first_word s)" "after_word s = [] \<or> hd (after_word s) = CHR '' ''"
proof -
  have "first_word s @ after_word s = dropWhile sp s" by (simp add: first_word_def after_word_def)
  then show "s = replicate (length (takeWhile sp s)) CHR '' '' @ first_word s @ after_word s"
    by (simp only: takeWhile_sp[symmetric] takeWhile_dropWhile_id)
  show "CHR '' '' \<notin> set (first_word s)" by (auto simp: first_word_def dest: set_takeWhileD)
  show "after_word s = [] \<or> hd (after_word s) = CHR '' ''"
    using hd_dropWhile[of "\<lambda>c. \<not> sp c" "dropWhile sp s"] by (auto simp: after_word_def)
qed

lemma upper_no_space: "CHR '' '' \<notin> set (upper s) \<Longrightarrow> CHR '' '' \<notin> set s"
  by (induction s) (auto simp: to_upper_def)

lemma lead_space:
  "s \<noteq> [] \<Longrightarrow> hd s = CHR '' '' \<Longrightarrow> \<exists>n. length (takeWhile sp s) = Suc n"
  by (cases s) auto

text \<open>The spaces before an argument.\<close>

lemma arg_split:
  assumes "t = [] \<or> hd t = CHR '' ''" and "first_word t \<noteq> []"
  shows "\<exists>n. t = replicate (Suc n) CHR '' '' @ first_word t @ after_word t"
proof -
  have "t \<noteq> []" using assms(2) by (auto simp: first_word_def)
  with lead_space[of t] assms(1) word_split(1)[of t] show ?thesis by metis
qed

lemma set_line_words:
  assumes "upper verb = ''SET''" and "is_word k" and "v \<noteq> []" and "hd v \<noteq> CHR '' ''"
    and "line = replicate a CHR '' '' @ verb @ replicate (Suc b) CHR '' '' @ k @ replicate (Suc c) CHR '' '' @ v"
  shows "parse_words line = \<lparr>pc_type = Set, pc_key = k, pc_value = v, pc_error = []\<rparr>"
proof -
  let ?t2 = "replicate (Suc c) CHR '' '' @ v"
  let ?t1 = "replicate (Suc b) CHR '' '' @ k @ ?t2"
  have verb: "is_word verb" using upper_no_space[of verb] assms(1) by (auto simp: is_word_def)
  have h: "?t2 = [] \<or> hd ?t2 = CHR '' ''" "?t1 = [] \<or> hd ?t1 = CHR '' ''" by simp_all
  have "dropWhile sp ?t2 = v" using assms(3,4) by (cases v) auto
  then show ?thesis
    unfolding assms(5) parse_words_def Let_def first_word_append[OF verb h(2)] first_word_append[OF assms(2) h(1)] assms(1)
    using assms(2,3) by (simp add: simple_type_def parsedCommand_def is_word_def)
qed

lemma words_set_line:
  assumes "parse_words line = \<lparr>pc_type = Set, pc_key = k, pc_value = v, pc_error = []\<rparr>"
  shows "upper (first_word line) = ''SET'' \<and> first_word (after_word line) = k \<and> k \<noteq> [] \<and>
    dropWhile sp (after_word (after_word line)) = v \<and> v \<noteq> []"
  using assms
  by (auto simp: parse_words_def Let_def invalid_def parsedCommand_def simple_type_def split: if_splits)

text \<open>
  C28. The position-walking parser computes what the word-splitting reference parser computes,
  on every line.
\<close>

theorem parse_equals_reference: "parse line = parse_words line"
  by (rule parse_eq)

text \<open>
  A line parses to \<open>SET k v\<close> exactly when it is a spelling of SET in any letter case, the
  key and the value, separated by one or more spaces after any leading ones; the key has no
  space, and the value is the whole remainder, inner and trailing spaces included.
\<close>

theorem parse_set_exact:
  "parse line = \<lparr>pc_type = Set, pc_key = k, pc_value = v, pc_error = []\<rparr> \<longleftrightarrow>
   (\<exists>a verb b c. upper verb = ''SET'' \<and> is_word k \<and> v \<noteq> [] \<and> hd v \<noteq> CHR '' '' \<and>
      line = replicate a CHR '' '' @ verb @ replicate (Suc b) CHR '' '' @ k @ replicate (Suc c) CHR '' '' @ v)"
    (is "?L \<longleftrightarrow> ?R")
proof
  assume ?L
  then have w: "upper (first_word line) = ''SET''" "first_word (after_word line) = k" "k \<noteq> []"
    and v: "dropWhile sp (after_word (after_word line)) = v" "v \<noteq> []"
    using words_set_line[of line k v] by (simp_all add: parse_eq)
  let ?t = "after_word (after_word line)"
  obtain b where b: "after_word line = replicate (Suc b) CHR '' '' @ k @ ?t"
    using arg_split[OF word_split(3)[of line]] w(2,3) by auto
  have "?t \<noteq> []" using v by auto
  then obtain c where c: "length (takeWhile sp ?t) = Suc c"
    using lead_space[of ?t] word_split(3)[of "after_word line"] by auto
  have t: "?t = replicate (Suc c) CHR '' '' @ v"
    using takeWhile_dropWhile_id[of sp ?t] takeWhile_sp[of ?t] c v(1) by simp
  have "is_word k" using w word_split(2)[of "after_word line"] by (simp add: is_word_def)
  moreover have "hd v \<noteq> CHR '' ''" using hd_dropWhile[of sp ?t] v by auto
  ultimately show ?R using w(1) v(2) word_split(1)[of line] b t by metis
next
  assume ?R
  then show ?L using set_line_words[of _ k v line] by (auto simp: parse_eq)
qed

end
