(* ===== verification/Session.thy ===== *)
theory Session
  imports Transaction Parser
begin

text \<open>
  One client's session, \<open>src/src/protocol/session.cpp\<close>: a command line in, a reply line out.
  An exception of the store (a failed append, or a log that cannot be reopened after a
  compaction) leaves \<open>handleLine\<close>.  Shown here: the session simulates an abstract protocol over
  a partial map and the open transaction's writes, a replica refuses every write, and every
  reply is one line.
\<close>

subsection \<open>Definitions\<close>

text \<open>
  What a command may meet outside: the kernel's answers to an append or a compaction, and the
  line of the replicator.
\<close>

record line_io =
  li_writes :: "write_ans list"
  li_sync :: bool
  li_compact :: compact_io
  li_reopen :: bool
  li_seek :: bool
  li_replStats :: string

record session =
  se_txn :: "transaction option"

definition newSession :: session where
  "newSession = \<lparr>se_txn = None\<rparr>"

definition inTransaction :: "session \<Rightarrow> bool" where
  "inTransaction se = (se_txn se \<noteq> None)"

abbreviation eol :: string where
  "eol \<equiv> [CHR 0x0A]"

abbreviation reply_ok :: string where
  "reply_ok \<equiv> ''+OK'' @ eol"

text \<open>The result is the reply and the flag \<open>quit\<close>, or the exception.\<close>

type_synonym line_result = "syscall_error + string \<times> bool"

definition handleLine ::
  "(string \<Rightarrow> u64) \<Rightarrow> line_io \<Rightarrow> string \<Rightarrow> session \<Rightarrow> store \<Rightarrow> line_result \<times> session \<times> store" where
  "handleLine hash io line se s =
     (let cmd = parse line
      in if so_readOnly s \<and> (pc_type cmd = Set \<or> pc_type cmd = Del) then
           (Inr (''-ERR READONLY this node is a replica; write to the leader'' @ eol, False), se, s)
         else if so_readOnly s \<and> pc_type cmd = Compact then
           (Inr (''-ERR READONLY a replica must not compact its log'' @ eol, False), se, s)
         else
           (case pc_type cmd of
              Set \<Rightarrow>
                (case se_txn se of
                   Some t \<Rightarrow>
                     (Inr (reply_ok, False), se\<lparr>se_txn := Some (txn_set (pc_key cmd) (pc_value cmd) t)\<rparr>, s)
                 | None \<Rightarrow>
                     (case store_set hash (li_writes io) (li_sync io) (pc_key cmd) (pc_value cmd) s of
                        (Inl e, s') \<Rightarrow> (Inl e, se, s')
                      | (Inr u, s') \<Rightarrow> (Inr (reply_ok, False), se, s')))
            | Get \<Rightarrow>
                (let (found, s') = (case se_txn se of
                       Some t \<Rightarrow> txn_get hash (pc_key cmd) t s
                     | None \<Rightarrow> store_get hash (pc_key cmd) s)
                 in case found of
                      None \<Rightarrow> (Inr (''$nil'' @ eol, False), se, s')
                    | Some value \<Rightarrow> (Inr (''$'' @ value @ eol, False), se, s'))
            | Del \<Rightarrow>
                (case se_txn se of
                   Some t \<Rightarrow> (Inr (reply_ok, False), se\<lparr>se_txn := Some (txn_del (pc_key cmd) t)\<rparr>, s)
                 | None \<Rightarrow>
                     (case store_del hash (li_writes io) (li_sync io) (pc_key cmd) s of
                        (Inl e, s') \<Rightarrow> (Inl e, se, s')
                      | (Inr removed, s') \<Rightarrow> (Inr (reply_ok, False), se, s')))
            | Stats \<Rightarrow> (Inr (''$'' @ statsLine (li_replStats io) s @ eol, False), se, s)
            | Compact \<Rightarrow>
                (case store_compact (li_compact io) (li_reopen io) (li_seek io) s of
                   (Inl e, s') \<Rightarrow> (Inl e, se, s')
                 | (Inr result, s') \<Rightarrow>
                     (Inr (if \<not> cr_ok result then ''-ERR compaction failed: '' @ cr_error result @ eol
                           else ''$records='' @ to_string (cr_recordsWritten result) @
                                '' bytes_before='' @ to_string (cr_bytesBefore result) @
                                '' bytes_after='' @ to_string (cr_bytesAfter result) @ eol, False),
                      se, s'))
            | Begin \<Rightarrow>
                (case se_txn se of
                   Some t \<Rightarrow> (Inr (''-ERR already in a transaction'' @ eol, False), se, s)
                 | None \<Rightarrow>
                     (let (t, s') = newTransaction s
                      in (Inr (reply_ok, False), se\<lparr>se_txn := Some t\<rparr>, s')))
            | Commit \<Rightarrow>
                (case se_txn se of
                   None \<Rightarrow> (Inr (''-ERR no transaction in progress'' @ eol, False), se, s)
                 | Some t \<Rightarrow>
                     (let operations = pendingOperations t
                      in case txn_commit hash (li_writes io) (li_sync io) t s of
                           (False, t', s') \<Rightarrow>
                             (Inr (''-ERR commit failed; transaction still open'' @ eol, False),
                              se\<lparr>se_txn := Some t'\<rparr>, s')
                         | (True, t', s') \<Rightarrow>
                             (Inr (''$committed='' @ to_string operations @ eol, False),
                              se\<lparr>se_txn := None\<rparr>, txn_destroy t' s')))
            | Rollback \<Rightarrow>
                (case se_txn se of
                   None \<Rightarrow> (Inr (''-ERR no transaction in progress'' @ eol, False), se, s)
                 | Some t \<Rightarrow>
                     (let discarded = pendingOperations t; (t', s') = txn_rollback t s
                      in (Inr (''$rolled_back='' @ to_string discarded @ eol, False),
                          se\<lparr>se_txn := None\<rparr>, txn_destroy t' s')))
            | Quit \<Rightarrow> (Inr (reply_ok, True), se, s)
            | Invalid \<Rightarrow> (Inr (''-ERR '' @ pc_error cmd @ eol, False), se, s)))"

text \<open>Dropping the session drops its transaction.\<close>

definition session_destroy :: "session \<Rightarrow> store \<Rightarrow> store" where
  "session_destroy se s = (case se_txn se of None \<Rightarrow> s | Some t \<Rightarrow> txn_destroy t s)"

text \<open>A client's lines, one after the other, until one throws.\<close>

fun handleLines ::
  "(string \<Rightarrow> u64) \<Rightarrow> (line_io \<times> string) list \<Rightarrow> session \<Rightarrow> store \<Rightarrow> line_result list \<times> session \<times> store" where
  "handleLines hash [] se s = ([], se, s)"
| "handleLines hash ((io, line) # ls) se s =
     (let (r, se', s') = handleLine hash io line se s
      in case r of
           Inl e \<Rightarrow> ([Inl e], se', s')
         | Inr x \<Rightarrow> (let (rs, se'', s'') = handleLines hash ls se' s' in (Inr x # rs, se'', s'')))"


subsection \<open>The store under one command\<close>

text \<open>A store whose map never evicts.\<close>

definition plain :: "(string \<Rightarrow> u64) \<Rightarrow> store \<Rightarrow> bool" where
  "plain hash s \<longleftrightarrow> sm_inv hash (so_map s) \<and> maxMemoryBytes (so_map s) = 0"

definition sview :: "(string \<Rightarrow> u64) \<Rightarrow> store \<Rightarrow> string \<rightharpoonup> string" where
  "sview hash s = sm_abs hash (so_map s)"

lemma store_set_plain:
  assumes "plain hash s" and "store_set hash as ok k v s = (r, s')"
  shows "plain hash s'" and "sview hash s' = (case r of Inl e \<Rightarrow> sview hash s | Inr u \<Rightarrow> (sview hash s)(k \<mapsto> v))"
    and "so_readOnly s' = so_readOnly s"
proof -
  have m: "so_map s' = (case r of Inl e \<Rightarrow> so_map s | Inr u \<Rightarrow> sm_set hash k v (so_map s))"
    and "so_readOnly s' = so_readOnly s"
    using assms(2) by (auto simp: store_set_def notifyAppend_def Let_def split: option.splits prod.splits sum.splits)
  then show "so_readOnly s' = so_readOnly s" by simp
  show "plain hash s'" using assms(1) m by (auto simp: plain_def sm_set_inv sm_frames split: sum.split)
  show "sview hash s' = (case r of Inl e \<Rightarrow> sview hash s | Inr u \<Rightarrow> (sview hash s)(k \<mapsto> v))"
    using assms(1) m by (auto simp: plain_def sview_def sm_set_unbounded split: sum.split)
qed

lemma store_del_plain:
  assumes "plain hash s" and "store_del hash as ok k s = (r, s')"
  shows "plain hash s'" and "sview hash s' = (case r of Inl e \<Rightarrow> sview hash s | Inr u \<Rightarrow> (sview hash s)(k := None))"
    and "so_readOnly s' = so_readOnly s"
proof -
  have m: "so_map s' = (case r of Inl e \<Rightarrow> so_map s | Inr u \<Rightarrow> snd (sm_del hash k (so_map s)))"
    and "so_readOnly s' = so_readOnly s"
    using assms(2) by (auto simp: store_del_def notifyAppend_def Let_def split: option.splits prod.splits sum.splits)
  then show "so_readOnly s' = so_readOnly s" by simp
  show "plain hash s'" using assms(1) m by (auto simp: plain_def sm_del_inv sm_frames split: sum.split)
  show "sview hash s' = (case r of Inl e \<Rightarrow> sview hash s | Inr u \<Rightarrow> (sview hash s)(k := None))"
    using assms(1) m by (auto simp: plain_def sview_def sm_del_abs split: sum.split)
qed

lemma store_get_plain:
  assumes "plain hash s" and "store_get hash k s = (r, s')"
  shows "plain hash s'" and "sview hash s' = sview hash s" and "so_readOnly s' = so_readOnly s"
    and "so_log s' = so_log s" and "r = sview hash s k"
  using assms
  by (auto simp: plain_def sview_def store_get_def Let_def split_beta sm_inv_get sm_abs_get sm_get_result
      sm_frames split: if_splits)

lemma store_compact_map:
  "store_compact io ro so s = (r, s') \<Longrightarrow> so_map s' = so_map s \<and> so_readOnly s' = so_readOnly s"
  by (auto simp: store_compact_def Let_def split: option.splits prod.splits sum.splits if_splits)

lemma txn_get_plain:
  assumes "plain hash s" and "txn_get hash k t s = (r, s')"
  shows "plain hash s'" and "sview hash s' = sview hash s" and "so_readOnly s' = so_readOnly s" and "so_log s' = so_log s"
  using assms store_get_plain[OF assms(1), of k]
  by (auto simp: txn_get_def Let_def split: option.splits if_splits)

lemma txn_commit_plain:
  assumes "plain hash s" and "txn_commit hash as ok t s = (r, t', s')" and "tx_active t"
  shows "plain hash s'"
    and "sview hash s' = (if r then foldl mut_apply (sview hash s) (tx_mutations t) else sview hash s)"
    and "if r then \<not> tx_active t' else t' = t" and "so_readOnly s' = so_readOnly s"
    and "tx_mutations t = [] \<Longrightarrow> so_log s' = so_log s"
proof -
  obtain b s1 where c: "commitTransaction hash as ok (tx_id t) (tx_mutations t) s = (b, s1)" by fastforce
  have r: "b = r" "s1 = s'" and t': "if r then \<not> tx_active t' else t' = t"
    using assms(2,3) c by (auto simp: txn_commit_def split: bool.splits)
  show "if r then \<not> tx_active t' else t' = t" by (rule t')
  have m: "so_map s' = (if r \<and> tx_mutations t \<noteq> [] then sm_applyAtomically hash (tx_mutations t) (so_map s) else so_map s)"
    using c commit_map[of hash "as" ok "tx_id t" "tx_mutations t" s s']
      commit_False[of hash "as" ok "tx_id t" "tx_mutations t" s s'] r by (cases r) auto
  show "plain hash s'" using assms(1) m by (auto simp: plain_def sm_applyAtomically_inv)
  show "sview hash s' = (if r then foldl mut_apply (sview hash s) (tx_mutations t) else sview hash s)"
    using assms(1) m by (auto simp: plain_def sview_def sm_applyAtomically_unbounded)
  show "so_readOnly s' = so_readOnly s"
    using c r by (auto simp: commitTransaction_def notifyAppend_def Let_def split: if_splits option.splits prod.splits sum.splits)
  show "tx_mutations t = [] \<Longrightarrow> so_log s' = so_log s"
    using c r by (auto simp: commitTransaction_def)
qed

lemma txn_end_plain [simp]:
  "plain hash (noteRollback s) = plain hash s" "sview hash (noteRollback s) = sview hash s"
  "so_readOnly (noteRollback s) = so_readOnly s" "so_log (noteRollback s) = so_log s"
  "plain hash (snd (newTransaction s)) = plain hash s" "sview hash (snd (newTransaction s)) = sview hash s"
  "so_readOnly (snd (newTransaction s)) = so_readOnly s" "so_log (snd (newTransaction s)) = so_log s"
  by (simp_all add: plain_def sview_def noteRollback_def newTransaction_def nextTransactionId_def)

lemma compact_plain:
  assumes "store_compact io ro so s = (r, s')"
  shows "plain hash s' = plain hash s" and "sview hash s' = sview hash s" and "so_readOnly s' = so_readOnly s"
  using store_compact_map[OF assms] by (simp_all add: plain_def sview_def)


subsection \<open>The protocol\<close>

text \<open>
  The abstract protocol: a partial map and, inside a transaction, the buffered mutations.  A
  command is answered from the map overlaid with the buffer; only a set or delete outside a
  transaction and a commit change the map; a write or a commit may fail, which changes nothing.
\<close>

type_synonym proto_state = "(string \<rightharpoonup> string) \<times> mutation list option"

definition pview :: "proto_state \<Rightarrow> string \<rightharpoonup> string" where
  "pview p = foldl mut_apply (fst p) (case snd p of None \<Rightarrow> [] | Some mus \<Rightarrow> mus)"

definition get_reply :: "string option \<Rightarrow> string" where
  "get_reply r = (case r of None \<Rightarrow> ''$nil'' @ eol | Some v \<Rightarrow> ''$'' @ v @ eol)"

inductive proto_step :: "proto_state \<Rightarrow> parsed_command \<Rightarrow> line_result \<Rightarrow> proto_state \<Rightarrow> bool" where
  p_set: "pc_type c = Set \<Longrightarrow>
    proto_step (f, None) c (Inr (reply_ok, False)) (f(pc_key c \<mapsto> pc_value c), None)"
| p_del: "pc_type c = Del \<Longrightarrow> proto_step (f, None) c (Inr (reply_ok, False)) (f(pc_key c := None), None)"
| p_fail: "pc_type c \<in> {Set, Del} \<Longrightarrow> proto_step (f, None) c (Inl e) (f, None)"
| p_buffer_set: "pc_type c = Set \<Longrightarrow>
    proto_step (f, Some mus) c (Inr (reply_ok, False))
      (f, Some (mus @ [\<lparr>erase = False, key = pc_key c, val = pc_value c\<rparr>]))"
| p_buffer_del: "pc_type c = Del \<Longrightarrow>
    proto_step (f, Some mus) c (Inr (reply_ok, False)) (f, Some (mus @ [\<lparr>erase = True, key = pc_key c, val = []\<rparr>]))"
| p_get: "pc_type c = Get \<Longrightarrow> proto_step p c (Inr (get_reply (pview p (pc_key c)), False)) p"
| p_stats: "pc_type c = Stats \<Longrightarrow> proto_step p c (Inr (''$'' @ line @ eol, False)) p"
| p_compact: "pc_type c = Compact \<Longrightarrow> proto_step p c (Inr (line @ eol, False)) p"
| p_compact_fails: "pc_type c = Compact \<Longrightarrow> proto_step p c (Inl e) p"
| p_begin: "pc_type c = Begin \<Longrightarrow> proto_step (f, None) c (Inr (reply_ok, False)) (f, Some [])"
| p_begin_again: "pc_type c = Begin \<Longrightarrow>
    proto_step (f, Some mus) c (Inr (''-ERR already in a transaction'' @ eol, False)) (f, Some mus)"
| p_commit: "pc_type c = Commit \<Longrightarrow>
    proto_step (f, Some mus) c (Inr (''$committed='' @ to_string (length mus) @ eol, False))
      (foldl mut_apply f mus, None)"
| p_commit_fails: "pc_type c = Commit \<Longrightarrow>
    proto_step (f, Some mus) c (Inr (''-ERR commit failed; transaction still open'' @ eol, False)) (f, Some mus)"
| p_rollback: "pc_type c = Rollback \<Longrightarrow>
    proto_step (f, Some mus) c (Inr (''$rolled_back='' @ to_string (length mus) @ eol, False)) (f, None)"
| p_no_txn: "pc_type c \<in> {Commit, Rollback} \<Longrightarrow>
    proto_step (f, None) c (Inr (''-ERR no transaction in progress'' @ eol, False)) (f, None)"
| p_quit: "pc_type c = Quit \<Longrightarrow> proto_step p c (Inr (reply_ok, True)) p"
| p_invalid: "pc_type c = Invalid \<Longrightarrow> proto_step p c (Inr (''-ERR '' @ pc_error c @ eol, False)) p"

lemmas proto_rules = proto_step.intros[simplified]

definition session_inv :: "session \<Rightarrow> bool" where
  "session_inv se \<longleftrightarrow> (case se_txn se of None \<Rightarrow> True | Some t \<Rightarrow> txn_inv t \<and> tx_active t)"

definition session_abs :: "(string \<Rightarrow> u64) \<Rightarrow> session \<Rightarrow> store \<Rightarrow> proto_state" where
  "session_abs hash se s = (sview hash s, map_option tx_mutations (se_txn se))"

lemma newTransaction_active: "tx_active (fst (newTransaction s))" "tx_mutations (fst (newTransaction s)) = []"
  by (simp_all add: newTransaction_def nextTransactionId_def)

lemma txn_write_active:
  "tx_active t \<Longrightarrow> tx_active (txn_set k v t) \<and> tx_active (txn_del k t)"
  "tx_active t \<Longrightarrow> tx_mutations (txn_set k v t) = tx_mutations t @ [\<lparr>erase = False, key = k, val = v\<rparr>]"
  "tx_active t \<Longrightarrow> tx_mutations (txn_del k t) = tx_mutations t @ [\<lparr>erase = True, key = k, val = []\<rparr>]"
  by (simp_all add: txn_set_def txn_del_def Let_def)


subsection \<open>The session simulates the protocol\<close>

text \<open>What one command keeps, and the step of the protocol it is.\<close>

definition line_sim ::
  "(string \<Rightarrow> u64) \<Rightarrow> parsed_command \<Rightarrow> session \<Rightarrow> store \<Rightarrow> line_result \<times> session \<times> store \<Rightarrow> bool" where
  "line_sim hash c se s out \<longleftrightarrow>
     (case out of (r, se', s') \<Rightarrow>
        plain hash s' \<and> session_inv se' \<and> so_readOnly s' = so_readOnly s \<and>
        proto_step (session_abs hash se s) c r (session_abs hash se' s'))"

lemmas line_sim_defs = line_sim_def session_inv_def session_abs_def

lemma sim_set:
  assumes "plain hash s" "session_inv se" "\<not> so_readOnly s" "pc_type (parse line) = Set"
  shows "line_sim hash (parse line) se s (handleLine hash io line se s)"
proof (cases "se_txn se")
  case None
  obtain r s' where r: "store_set hash (li_writes io) (li_sync io) (pc_key (parse line)) (pc_value (parse line)) s = (r, s')"
    by fastforce
  with store_set_plain[OF assms(1) r] assms(3,4) None show ?thesis
    by (cases r) (auto simp: line_sim_defs handleLine_def Let_def intro: proto_rules)
next
  case (Some t)
  with assms show ?thesis
    by (auto simp: line_sim_defs handleLine_def Let_def txn_write_active txn_inv_set intro: proto_rules)
qed

lemma sim_del:
  assumes "plain hash s" "session_inv se" "\<not> so_readOnly s" "pc_type (parse line) = Del"
  shows "line_sim hash (parse line) se s (handleLine hash io line se s)"
proof (cases "se_txn se")
  case None
  obtain r s' where r: "store_del hash (li_writes io) (li_sync io) (pc_key (parse line)) s = (r, s')" by fastforce
  with store_del_plain[OF assms(1) r] assms(3,4) None show ?thesis
    by (cases r) (auto simp: line_sim_defs handleLine_def Let_def intro: proto_rules)
next
  case (Some t)
  with assms show ?thesis
    by (auto simp: line_sim_defs handleLine_def Let_def txn_write_active txn_inv_del intro: proto_rules)
qed

lemma get_found:
  assumes "plain hash s" "session_inv se"
    and "(case se_txn se of Some t \<Rightarrow> txn_get hash k t s | None \<Rightarrow> store_get hash k s) = (r, s')"
  shows "plain hash s'" and "sview hash s' = sview hash s" and "so_readOnly s' = so_readOnly s"
    and "so_log s' = so_log s" and "r = pview (session_abs hash se s) k"
proof -
  have "plain hash s' \<and> sview hash s' = sview hash s \<and> so_readOnly s' = so_readOnly s \<and> so_log s' = so_log s \<and>
      r = pview (session_abs hash se s) k"
  proof (cases "se_txn se")
    case None
    with assms(3) store_get_plain[OF assms(1), of k r s'] show ?thesis by (simp add: pview_def session_abs_def)
  next
    case (Some t)
    with assms txn_get_view[of t hash s k] txn_get_plain[OF assms(1), of k t r s'] show ?thesis
      by (simp add: pview_def session_abs_def session_inv_def txn_view_def sview_def plain_def)
  qed
  then show "plain hash s'" and "sview hash s' = sview hash s" and "so_readOnly s' = so_readOnly s"
    and "so_log s' = so_log s" and "r = pview (session_abs hash se s) k" by simp_all
qed

lemma handleLine_Get:
  assumes "plain hash s" "session_inv se" "pc_type (parse line) = Get"
  obtains s' where "handleLine hash io line se s
      = (Inr (get_reply (pview (session_abs hash se s) (pc_key (parse line))), False), se, s')"
    "plain hash s'" "sview hash s' = sview hash s" "so_readOnly s' = so_readOnly s" "so_log s' = so_log s"
proof -
  let ?k = "pc_key (parse line)"
  obtain r s' where g: "(case se_txn se of Some t \<Rightarrow> txn_get hash ?k t s | None \<Rightarrow> store_get hash ?k s) = (r, s')"
    by fastforce
  note f = get_found[OF assms(1,2) g]
  have "handleLine hash io line se s = (Inr (get_reply r, False), se, s')"
    using assms(3) g by (cases r) (simp_all add: handleLine_def Let_def get_reply_def)
  with f that show ?thesis by simp
qed

lemma sim_get:
  assumes "plain hash s" "session_inv se" "pc_type (parse line) = Get"
  shows "line_sim hash (parse line) se s (handleLine hash io line se s)"
proof -
  obtain s' where h: "handleLine hash io line se s
      = (Inr (get_reply (pview (session_abs hash se s) (pc_key (parse line))), False), se, s')"
    and f: "plain hash s'" "sview hash s' = sview hash s" "so_readOnly s' = so_readOnly s"
    using handleLine_Get[OF assms] by metis
  have "session_abs hash se s' = session_abs hash se s" using f by (simp add: session_abs_def)
  with h f assms(2) p_get[OF assms(3), of "session_abs hash se s"] show ?thesis
    by (simp add: line_sim_def)
qed

lemma sim_compact:
  assumes "plain hash s" "session_inv se" "\<not> so_readOnly s" "pc_type (parse line) = Compact"
  shows "line_sim hash (parse line) se s (handleLine hash io line se s)"
proof -
  obtain r s' where r: "store_compact (li_compact io) (li_reopen io) (li_seek io) s = (r, s')" by fastforce
  note c = compact_plain[OF r]
  have abs: "session_abs hash se s' = session_abs hash se s" using c by (simp add: session_abs_def)
  obtain r' where h: "handleLine hash io line se s = (r', se, s')" and "proto_step (session_abs hash se s) (parse line) r' (session_abs hash se s)"
  proof (cases r)
    case (Inl e)
    with r assms(3,4) that p_compact_fails[OF assms(4)] show ?thesis by (simp add: handleLine_def Let_def)
  next
    case (Inr res)
    have "\<exists>x. handleLine hash io line se s = (Inr (x @ eol, False), se, s')"
      using r Inr assms(3,4) by (auto simp: handleLine_def Let_def simp flip: append_assoc append_Cons)
    with that p_compact[OF assms(4)] show ?thesis by blast
  qed
  with c abs assms show ?thesis by (simp add: line_sim_def)
qed

lemma sim_commit:
  assumes "plain hash s" "session_inv se" "pc_type (parse line) = Commit"
  shows "line_sim hash (parse line) se s (handleLine hash io line se s)"
proof (cases "se_txn se")
  case None
  with assms show ?thesis by (auto simp: line_sim_defs handleLine_def Let_def intro: proto_rules)
next
  case (Some t)
  with assms(2) have act: "tx_active t" by (simp add: session_inv_def)
  obtain r t' s' where r: "txn_commit hash (li_writes io) (li_sync io) t s = (r, t', s')" using prod_cases3 by blast
  note c = txn_commit_plain[OF assms(1) r act]
  show ?thesis
    using c(1-4) r assms Some p_commit[OF assms(3), of "sview hash s" "tx_mutations t"]
      p_commit_fails[OF assms(3), of "sview hash s" "tx_mutations t"]
    by (cases r) (simp_all add: line_sim_defs handleLine_def Let_def txn_destroy_def pendingOperations_def)
qed

lemma sim_other:
  assumes "plain hash s" "session_inv se"
    and "pc_type (parse line) \<in> {Stats, Begin, Rollback, Quit, Invalid}"
  shows "line_sim hash (parse line) se s (handleLine hash io line se s)"
proof -
  show ?thesis
    using assms(3)
  proof (elim insertE emptyE)
    assume "pc_type (parse line) = Begin"
    with assms(1,2) newTransaction_active[of s] txn_inv_new[of s] show ?thesis
      by (cases "se_txn se") (auto simp: line_sim_defs handleLine_def Let_def split_beta intro: proto_rules)
  next
    assume "pc_type (parse line) = Rollback"
    with assms(1,2) show ?thesis
      by (cases "se_txn se")
        (auto simp: line_sim_defs handleLine_def Let_def txn_rollback_def txn_destroy_def pendingOperations_def
          intro: proto_rules)
  qed (use assms(1,2) in \<open>auto simp: line_sim_defs handleLine_def Let_def intro: proto_rules\<close>)+
qed

text \<open>The commands a replica answers itself.\<close>

definition refused :: "store \<Rightarrow> parsed_command \<Rightarrow> bool" where
  "refused s c \<longleftrightarrow> so_readOnly s \<and> pc_type c \<in> {Set, Del, Compact}"

lemma handleLine_sim:
  assumes "plain hash s" "session_inv se" "\<not> refused s (parse line)"
  shows "line_sim hash (parse line) se s (handleLine hash io line se s)"
  using sim_set sim_del sim_get sim_compact sim_commit sim_other assms
  by (cases "pc_type (parse line)") (auto simp: refused_def)

lemma handleLine_refused:
  assumes "refused s (parse line)"
  shows "\<exists>why. handleLine hash io line se s = (Inr (''-ERR READONLY '' @ why @ eol, False), se, s) \<and> CHR 0x0A \<notin> set why"
  using assms by (auto simp: refused_def handleLine_def Let_def)

inductive proto_run :: "proto_state \<Rightarrow> parsed_command list \<Rightarrow> line_result list \<Rightarrow> proto_state \<Rightarrow> bool" where
  r_nil: "proto_run p [] [] p"
| r_throw: "proto_step p c (Inl e) p' \<Longrightarrow> proto_run p (c # cs) [Inl e] p'"
| r_cons: "proto_step p c (Inr x) p' \<Longrightarrow> proto_run p' cs rs p'' \<Longrightarrow> proto_run p (c # cs) (Inr x # rs) p''"

lemma handleLines_sim:
  assumes "plain hash s" "session_inv se" "\<not> so_readOnly s" "handleLines hash ls se s = (rs, se', s')"
  shows "plain hash s' \<and> session_inv se' \<and>
    proto_run (session_abs hash se s) (map (\<lambda>l. parse (snd l)) ls) rs (session_abs hash se' s')"
  using assms
proof (induction ls arbitrary: se s rs)
  case Nil
  then show ?case by (auto intro: r_nil)
next
  case (Cons l ls)
  obtain io line where l: "l = (io, line)" by fastforce
  obtain r se1 s1 where h: "handleLine hash io line se s = (r, se1, s1)" using prod_cases3 by blast
  have sim: "plain hash s1" "session_inv se1" "\<not> so_readOnly s1"
      "proto_step (session_abs hash se s) (parse line) r (session_abs hash se1 s1)"
    using handleLine_sim[OF Cons.prems(1,2), of line io] Cons.prems(3) h by (simp_all add: line_sim_def refused_def)
  show ?case
  proof (cases r)
    case (Inl e)
    with Cons.prems(4) l h sim show ?thesis by (auto intro: r_throw)
  next
    case (Inr x)
    obtain rs1 se2 s2 where t: "handleLines hash ls se1 s1 = (rs1, se2, s2)" using prod_cases3 by blast
    have rs: "rs = Inr x # rs1" and t': "handleLines hash ls se1 s1 = (rs1, se', s')"
      using Cons.prems(4) l h t Inr by simp_all
    with Cons.IH[OF sim(1-3) t'] sim(4) Inr l show ?thesis by (auto intro: r_cons)
  qed
qed


text \<open>A store without a log, and a client on it, for the examples.\<close>

definition demo_line_io :: line_io where
  "demo_line_io =
     \<lparr>li_writes = [], li_sync = True,
      li_compact = \<lparr>co_statBefore = True, co_open = True, co_writes = [], co_sync = True, co_rename = True,
                    co_unlink = True, co_statAfter = True, co_strerror = ''EIO''\<rparr>,
      li_reopen = True, li_seek = True, li_replStats = ''repl=follower''\<rparr>"

lemma demo_store:
  obtains m where "newShardedMap Sharded 4 0 = Some m" "plain hash (freshStore m [] ro)"
    "sview hash (freshStore m [] ro) = Map.empty" "so_readOnly (freshStore m [] ro) = ro"
proof -
  obtain m where m: "newShardedMap Sharded 4 0 = Some m"
    using newShardedMap_returns[of 4 Sharded 0] by auto
  from newShardedMap_inv[OF m, of hash] m that show ?thesis
    by (simp add: plain_def sview_def freshStore_def)
qed

inductive_cases proto_run_ConsE: "proto_run p (c # cs) rs p'"
inductive_cases proto_run_NilE: "proto_run p [] rs p'"
inductive_cases proto_stepE: "proto_step p c r p'"

lemma proto_step_fixed:
  "proto_step (f, None) c r p' \<Longrightarrow> pc_type c = Begin \<Longrightarrow> r = Inr (reply_ok, False) \<and> p' = (f, Some [])"
  "proto_step (f, Some mus) c r p' \<Longrightarrow> pc_type c = Set \<Longrightarrow> r = Inr (reply_ok, False) \<and>
     p' = (f, Some (mus @ [\<lparr>erase = False, key = pc_key c, val = pc_value c\<rparr>]))"
  "proto_step p c r p' \<Longrightarrow> pc_type c = Get \<Longrightarrow> r = Inr (get_reply (pview p (pc_key c)), False) \<and> p' = p"
  by (erule proto_stepE; simp)+

lemma proto_run_fixed:
  assumes "proto_run p (c # cs) rs p'" and "\<And>r q. proto_step p c r q \<Longrightarrow> r = Inr x \<and> q = p1"
  shows "\<exists>rs'. rs = Inr x # rs' \<and> proto_run p1 cs rs' p'"
  using assms(1) by (rule proto_run_ConsE) (auto dest!: assms(2))

lemma parse_demo:
  "parse ''SET a 1'' = \<lparr>pc_type = Set, pc_key = ''a'', pc_value = ''1'', pc_error = []\<rparr>"
  "parse ''begin'' = \<lparr>pc_type = Begin, pc_key = [], pc_value = [], pc_error = []\<rparr>"
  "parse '' get  a'' = \<lparr>pc_type = Get, pc_key = ''a'', pc_value = [], pc_error = []\<rparr>"
  by code_simp+



subsection \<open>Replicas\<close>

text \<open>On a replica no transaction ever holds a write.\<close>

definition no_writes :: "session \<Rightarrow> bool" where
  "no_writes se \<longleftrightarrow> (case se_txn se of None \<Rightarrow> True | Some t \<Rightarrow> tx_mutations t = [])"

lemma replica_line:
  assumes "plain hash s" "session_inv se" "so_readOnly s" "no_writes se" "handleLine hash io line se s = (r, se', s')"
  shows "plain hash s' \<and> session_inv se' \<and> so_readOnly s' \<and> no_writes se' \<and> sview hash s' = sview hash s \<and>
    so_log s' = so_log s \<and> (\<exists>x. r = Inr x)"
proof (cases "refused s (parse line)")
  case True
  from handleLine_refused[OF this, of hash io se] assms show ?thesis by auto
next
  case False
  have sim: "plain hash s'" "session_inv se'" "so_readOnly s'"
    using handleLine_sim[OF assms(1,2) False, of io] assms(3,5) by (simp_all add: line_sim_def)
  have "no_writes se' \<and> sview hash s' = sview hash s \<and> so_log s' = so_log s \<and> (\<exists>x. r = Inr x)"
  proof (cases "pc_type (parse line)")
    case Get
    from handleLine_Get[OF assms(1,2) this, of io] assms(4,5) show ?thesis by (metis prod.inject)
  next
    case Begin
    with assms(4,5) newTransaction_active[of s] show ?thesis
      by (auto simp: handleLine_def Let_def no_writes_def split_beta split: option.splits)
  next
    case Commit
    show ?thesis
    proof (cases "se_txn se")
      case None
      with Commit assms(4,5) show ?thesis by (auto simp: handleLine_def Let_def)
    next
      case (Some t)
      with assms(2,4) have t: "tx_active t" "tx_mutations t = []" by (simp_all add: session_inv_def no_writes_def)
      obtain b t' s1 where c: "txn_commit hash (li_writes io) (li_sync io) t s = (b, t', s1)" using prod_cases3 by blast
      note f = txn_commit_plain[OF assms(1) c t(1)]
      from f t Some Commit assms(4,5) c show ?thesis
        by (cases b) (auto simp: handleLine_def Let_def no_writes_def txn_destroy_def)
    qed
  next
    case Rollback
    with assms(2,4,5) show ?thesis
      by (auto simp: handleLine_def Let_def no_writes_def txn_rollback_def txn_destroy_def session_inv_def
          split: option.splits)
  qed (use False assms(3-5) in \<open>auto simp: refused_def handleLine_def Let_def\<close>)
  with sim show ?thesis by simp
qed

lemma replica_lines:
  assumes "plain hash s" "session_inv se" "so_readOnly s" "no_writes se" "handleLines hash ls se s = (rs, se', s')"
  shows "sview hash s' = sview hash s \<and> so_log s' = so_log s \<and> length rs = length ls"
  using assms
proof (induction ls arbitrary: se s rs)
  case (Cons l ls)
  obtain io line where l: "l = (io, line)" by fastforce
  obtain r se1 s1 where h: "handleLine hash io line se s = (r, se1, s1)" using prod_cases3 by blast
  obtain rs1 se2 s2 where t: "handleLines hash ls se1 s1 = (rs1, se2, s2)" using prod_cases3 by blast
  note k = replica_line[OF Cons.prems(1-4) h]
  with Cons.prems(5) l h t have "rs = r # rs1" and t': "handleLines hash ls se1 s1 = (rs1, se', s')" by auto
  with k Cons.IH[OF _ _ _ _ t'] show ?case by simp
qed simp

text \<open>
  C29. A replica takes no writes from clients: whatever lines a client sends, transactions
  included, every line gets a reply, and neither the map nor the log changes.
\<close>

theorem replica_refuses_writes:
  assumes "plain hash s" and "so_readOnly s" and "handleLines hash ls newSession s = (rs, se', s')"
  shows "sm_abs hash (so_map s') = sm_abs hash (so_map s) \<and> so_log s' = so_log s \<and> length rs = length ls"
  using replica_lines[OF assms(1) _ assms(2) _ assms(3)]
  by (simp add: session_inv_def no_writes_def newSession_def sview_def)

theorem replica_refuses_writes_witness:
  "\<exists>m rs se' s'. newShardedMap Sharded 4 0 = Some m \<and>
     handleLines (\<lambda>k. 0) [(demo_line_io, ''begin''), (demo_line_io, ''SET a 1''), (demo_line_io, ''COMMIT'')]
       newSession (freshStore m [] True) = (rs, se', s') \<and>
     sm_abs (\<lambda>k. 0) (so_map s') = Map.empty \<and> length rs = 3"
proof -
  obtain m where m: "newShardedMap Sharded 4 0 = Some m" and p: "plain (\<lambda>k. 0) (freshStore m [] True)"
    and v: "sview (\<lambda>k. 0) (freshStore m [] True) = Map.empty" "so_readOnly (freshStore m [] True)"
    using demo_store[of "\<lambda>k. 0" True] by auto
  obtain rs se' s' where h: "handleLines (\<lambda>k. 0)
      [(demo_line_io, ''begin''), (demo_line_io, ''SET a 1''), (demo_line_io, ''COMMIT'')]
      newSession (freshStore m [] True) = (rs, se', s')"
    using prod_cases3 by blast
  from replica_refuses_writes[OF p v(2) h] v(1) m h show ?thesis by (auto simp: sview_def)
qed


subsection \<open>One reply line per command line\<close>

abbreviation no_eol :: "string \<Rightarrow> bool" where
  "no_eol s \<equiv> CHR 0x0A \<notin> set s"

definition one_line :: "string \<Rightarrow> bool" where
  "one_line s \<longleftrightarrow> s \<noteq> [] \<and> last s = CHR 0x0A \<and> no_eol (butlast s)"

text \<open>No stored or buffered value holds a line end.\<close>

definition clean :: "proto_state \<Rightarrow> bool" where
  "clean p \<longleftrightarrow> (\<forall>k v. fst p k = Some v \<longrightarrow> no_eol v) \<and>
     (\<forall>mu \<in> set (case snd p of None \<Rightarrow> [] | Some mus \<Rightarrow> mus). no_eol (val mu))"

lemma one_line_eol [simp]: "one_line (b @ eol) \<longleftrightarrow> no_eol b"
  by (simp add: one_line_def)

lemma to_string_no_eol [simp]: "no_eol (to_string n)"
  using to_string_digits[of n] by (auto simp: is_digit_def)

lemma clean_muts:
  "(\<forall>k v. f k = Some v \<longrightarrow> no_eol v) \<Longrightarrow> (\<forall>mu \<in> set mus. no_eol (val mu)) \<Longrightarrow>
   foldl mut_apply f mus k = Some v \<Longrightarrow> no_eol v"
  by (auto simp: mut_apply_last_index dest!: last_index_less nth_mem split: option.splits if_splits)

lemma clean_view: "clean p \<Longrightarrow> pview p k = Some v \<Longrightarrow> no_eol v"
  unfolding clean_def pview_def by (rule clean_muts) auto

lemma upper_no_eol [simp]: "no_eol (upper s) \<longleftrightarrow> no_eol s"
proof (induction s)
  case (Cons c s)
  have "to_upper c = CHR 0x0A \<longleftrightarrow> c = CHR 0x0A"
  proof (cases "97 \<le> (of_char c :: nat) \<and> (of_char c :: nat) \<le> 122")
    case True
    then have "(of_char c - 32 :: nat) < 256" by auto
    with True have "(of_char (to_upper c) :: nat) = of_char c - 32" by (simp only: to_upper_def simp_thms if_True of_char_of mod_less)
    with True show ?thesis by auto
  qed (auto simp: to_upper_def)
  with Cons show ?case by auto
qed simp

lemma words_no_eol:
  assumes "no_eol s"
  shows "no_eol (first_word s)" and "no_eol (after_word s)" and "no_eol (dropWhile sp s)"
  using assms by (auto simp: first_word_def after_word_def dest: set_takeWhileD set_dropWhileD)

lemma parse_no_eol:
  assumes "no_eol line"
  shows "no_eol (pc_key (parse line)) \<and> no_eol (pc_value (parse line)) \<and> no_eol (pc_error (parse line))"
proof -
  note w = words_no_eol[OF assms]
  note a = words_no_eol[OF w(2)]
  note v = words_no_eol(3)[OF a(2)]
  show ?thesis
    using w(1) a(1) v
    by (auto simp: parse_eq parse_words_def Let_def invalid_def parsedCommand_def split: option.split)
qed

lemma step_one_line:
  assumes "proto_step p c r p'" "clean p" "no_eol (pc_value c)" "no_eol (pc_error c)" "pc_type c \<notin> {Stats, Compact}"
    and "r = Inr (reply, q)"
  shows "one_line reply"
  using assms(1)
proof cases
  case p_get
  then show ?thesis
    using assms(6) clean_view[OF assms(2), of "pc_key c"]
    by (cases "pview p (pc_key c)") (auto simp: get_reply_def one_line_def)
qed (use assms in \<open>auto simp: one_line_def\<close>)

lemma step_clean:
  assumes "proto_step p c r p'" "clean p" "no_eol (pc_value c)"
  shows "clean p'"
  using assms(1)
proof cases
  case (p_commit f mus)
  then show ?thesis using assms(2) clean_muts[of f mus] by (auto simp: clean_def)
qed (use assms in \<open>auto simp: clean_def split: if_splits\<close>)

definition io_clean :: "line_io \<Rightarrow> bool" where
  "io_clean io \<longleftrightarrow> no_eol (li_replStats io) \<and> no_eol (co_strerror (li_compact io))"

lemma statsLine_no_eol: "no_eol replStats \<Longrightarrow> no_eol (statsLine replStats s)"
  by (cases "sm_mode (so_map s)"; cases "so_log s"; cases "wal_mode (the (so_log s))")
    (simp_all add: statsLine_def Let_def)

lemma compact_no_eol:
  "store_compact io ro so s = (Inr res, s') \<Longrightarrow> no_eol (co_strerror io) \<Longrightarrow> no_eol (cr_error res)"
  by (auto simp: store_compact_def rewrite_def Let_def split: option.splits prod.splits sum.splits if_splits)

definition good_result :: "line_result \<Rightarrow> bool" where
  "good_result r = (case r of Inl e \<Rightarrow> True | Inr x \<Rightarrow> one_line (fst x))"

lemma compact_reply:
  assumes "pc_type (parse line) = Compact" "\<not> refused s (parse line)" "io_clean io"
    and "handleLine hash io line se s = (r, se', s')"
  shows "good_result r"
proof -
  obtain r0 s1 where c: "store_compact (li_compact io) (li_reopen io) (li_seek io) s = (r0, s1)" by fastforce
  show ?thesis
  proof (cases r0)
    case (Inl e)
    with c assms show ?thesis by (auto simp: handleLine_def Let_def good_result_def refused_def)
  next
    case (Inr res)
    with c compact_no_eol[of "li_compact io" "li_reopen io" "li_seek io" s res s1] assms(3)
    have "no_eol (cr_error res)" by (simp add: io_clean_def)
    with c Inr assms show ?thesis
      by (cases "cr_ok res") (auto simp: handleLine_def Let_def good_result_def refused_def one_line_def butlast_append)
  qed
qed

lemma line_one_line:
  assumes "plain hash s" "session_inv se" "clean (session_abs hash se s)" "io_clean io" "no_eol line"
    and "handleLine hash io line se s = (r, se', s')"
  shows "plain hash s' \<and> session_inv se' \<and> clean (session_abs hash se' s') \<and> good_result r"
proof (cases "refused s (parse line)")
  case True
  from handleLine_refused[OF this, of hash io se] assms show ?thesis by (auto simp: good_result_def one_line_def)
next
  case False
  note sim = handleLine_sim[OF assms(1,2) False, of io, unfolded assms(6) line_sim_def prod.case]
  note c = parse_no_eol[OF assms(5)]
  have "good_result r"
  proof (cases "pc_type (parse line) \<in> {Stats, Compact}")
    case False
    with sim c assms(3) show ?thesis
      by (cases r) (auto simp: good_result_def intro: step_one_line)
  next
    case True
    then show ?thesis
    proof (elim insertE emptyE)
      assume "pc_type (parse line) = Stats"
      with assms(4,6) statsLine_no_eol[of "li_replStats io" s] show ?thesis
        by (auto simp: handleLine_def Let_def good_result_def io_clean_def one_line_def butlast_append)
    next
      assume "pc_type (parse line) = Compact"
      with assms(4,6) False compact_reply show ?thesis by auto
    qed
  qed
  with sim c assms(3) show ?thesis using step_clean by blast
qed

lemma lines_one_line:
  assumes "plain hash s" "session_inv se" "clean (session_abs hash se s)"
    and "\<forall>(io, line) \<in> set ls. io_clean io \<and> no_eol line"
    and "handleLines hash ls se s = (rs, se', s')"
  shows "\<forall>r \<in> set rs. good_result r"
  using assms
proof (induction ls arbitrary: se s rs)
  case (Cons l ls)
  obtain io line where l: "l = (io, line)" by fastforce
  obtain r se1 s1 where h: "handleLine hash io line se s = (r, se1, s1)" using prod_cases3 by blast
  have k: "plain hash s1" "session_inv se1" "clean (session_abs hash se1 s1)" "good_result r"
    using line_one_line[OF Cons.prems(1-3) _ _ h] Cons.prems(4) l by auto
  obtain rs1 se2 s2 where t: "handleLines hash ls se1 s1 = (rs1, se2, s2)" using prod_cases3 by blast
  show ?case
  proof (cases r)
    case (Inl e)
    with Cons.prems(5) l h k show ?thesis by auto
  next
    case (Inr x)
    with Cons.prems(5) l h t have rs: "rs = r # rs1" and t': "handleLines hash ls se1 s1 = (rs1, se', s')" by auto
    with k Cons.IH[OF k(1-3) _ t'] Cons.prems(4) show ?thesis by simp
  qed
qed simp

text \<open>
  Replies are framed: when the command lines, the stored values and the texts that come from
  outside hold no line end, every reply is one line, ended by its only line end, so that a
  client that pipelines commands can match replies to them.
\<close>

theorem replies_are_lines:
  assumes "plain hash s" and "\<forall>k v. sm_abs hash (so_map s) k = Some v \<longrightarrow> no_eol v"
    and "\<forall>(io, line) \<in> set ls. io_clean io \<and> no_eol line"
    and "handleLines hash ls newSession s = (rs, se', s')" and "Inr (reply, q) \<in> set rs"
  shows "\<exists>body. reply = body @ eol \<and> no_eol body"
proof -
  have "good_result (Inr (reply, q))"
    using lines_one_line[OF assms(1) _ _ assms(3,4)] assms(2,5)
    by (auto simp: session_inv_def newSession_def session_abs_def clean_def sview_def)
  then show ?thesis
    using append_butlast_last_id[of reply]
    by (intro exI[of _ "butlast reply"]) (auto simp: good_result_def one_line_def)
qed

theorem replies_are_lines_witness:
  "\<exists>m reply se' s'. newShardedMap Sharded 4 0 = Some m \<and>
     handleLines (\<lambda>k. 0) [(demo_line_io, ''STATS'')] newSession (freshStore m [] False) = ([Inr (reply, False)], se', s') \<and>
     (\<exists>body. reply = body @ eol \<and> no_eol body)"
proof -
  obtain m where m: "newShardedMap Sharded 4 0 = Some m" and p: "plain (\<lambda>k. 0) (freshStore m [] False)"
    and v: "sview (\<lambda>k. 0) (freshStore m [] False) = Map.empty" "\<not> so_readOnly (freshStore m [] False)"
    using demo_store[of "\<lambda>k. 0" False] by auto
  have c: "pc_type (parse ''STATS'') = Stats" by code_simp
  let ?reply = "''$'' @ statsLine (li_replStats demo_line_io) (freshStore m [] False) @ eol"
  have h: "handleLines (\<lambda>k. 0) [(demo_line_io, ''STATS'')] newSession (freshStore m [] False)
      = ([Inr (?reply, False)], newSession, freshStore m [] False)"
    using c v(2) by (simp add: handleLine_def)
  have "\<forall>(io, line) \<in> set [(demo_line_io, ''STATS'')]. io_clean io \<and> no_eol line"
    by (simp add: io_clean_def demo_line_io_def)
  from replies_are_lines[OF p _ this h, of ?reply False] v(1) m h show ?thesis by (auto simp: sview_def)
qed

end
