(* ===== verification/TaskQueue.thy ===== *)
theory TaskQueue
  imports Prelude "HOL-Library.Multiset"
begin

text \<open>
  The task queues of the thread pool, \<open>src/src/pool/task_queue.cpp\<close> and the queue headers beside
  it: first come first served, strict priority with optional aging, and round robin, behind one
  interface.  Shown here: each of them keeps every task until it is popped, the contract the
  pool relies on; the order each one serves in; that aging bounds the wait of low priority
  tasks; and that it does not bound the wait of normal ones.
\<close>

subsection \<open>Definitions\<close>

datatype TaskPriority = High | Normal | Low

definition kPriorityLevels :: nat where
  "kPriorityLevels = 3"

fun taskPriorityName :: "TaskPriority \<Rightarrow> string" where
  "taskPriorityName High = ''high''"
| "taskPriorityName Normal = ''normal''"
| "taskPriorityName Low = ''low''"

text \<open>The function of a task is a parameter: its type is a type variable.\<close>

record 'j task =
  tk_run :: 'j
  tk_priority :: TaskPriority
  tk_sequence :: u64

datatype SchedulingPolicy = Fcfs | Priority | RoundRobin

definition parseSchedulingPolicy :: "string \<Rightarrow> SchedulingPolicy option" where
  "parseSchedulingPolicy text =
     (if text = ''fcfs'' then Some Fcfs
      else if text = ''priority'' then Some Priority
      else if text = ''rr'' \<or> text = ''round-robin'' then Some RoundRobin
      else None)"

fun schedulingPolicyName :: "SchedulingPolicy \<Rightarrow> string" where
  "schedulingPolicyName Fcfs = ''fcfs''"
| "schedulingPolicyName Priority = ''priority''"
| "schedulingPolicyName RoundRobin = ''round-robin''"

record 'j fcfs_queue =
  fq_tasks :: "'j task list"
  fq_nextSequence :: u64

definition newFcfs :: "'j fcfs_queue" where
  "newFcfs = \<lparr>fq_tasks = [], fq_nextSequence = 0\<rparr>"

definition fcfs_push :: "'j task \<Rightarrow> 'j fcfs_queue \<Rightarrow> 'j fcfs_queue" where
  "fcfs_push t q =
     q\<lparr>fq_tasks := fq_tasks q @ [t\<lparr>tk_sequence := fq_nextSequence q\<rparr>],
       fq_nextSequence := fq_nextSequence q + 1\<rparr>"

definition fcfs_pop :: "'j fcfs_queue \<Rightarrow> 'j task option \<times> 'j fcfs_queue" where
  "fcfs_pop q =
     (case fq_tasks q of
        [] \<Rightarrow> (None, q)
      | t # ts \<Rightarrow> (Some t, q\<lparr>fq_tasks := ts\<rparr>))"

record 'j priority_queue =
  pq_levels :: "'j task list list"
  pq_aging :: bool
  pq_agingThreshold :: u64
  pq_count :: nat
  pq_nextSequence :: u64
  pq_served :: u64
  pq_promotions :: u64
  pq_serves :: u64

definition newPriority :: "bool \<Rightarrow> u64 \<Rightarrow> 'j priority_queue" where
  "newPriority aging agingThreshold =
     \<lparr>pq_levels = replicate kPriorityLevels [], pq_aging = aging,
      pq_agingThreshold = (if agingThreshold = 0 then 1 else agingThreshold),
      pq_count = 0, pq_nextSequence = 0, pq_served = 0, pq_promotions = 0, pq_serves = 0\<rparr>"

fun plevel :: "TaskPriority \<Rightarrow> nat" where
  "plevel High = 0"
| "plevel Normal = 1"
| "plevel Low = 2"

definition priority_push :: "'j task \<Rightarrow> 'j priority_queue \<Rightarrow> 'j priority_queue" where
  "priority_push t q =
     (let q' = q\<lparr>pq_nextSequence := pq_nextSequence q + 1\<rparr>;
          task = t\<lparr>tk_sequence := pq_nextSequence q'\<rparr>;
          level = plevel (tk_priority task)
      in q'\<lparr>pq_levels := (pq_levels q')[level := pq_levels q' ! level @ [task]],
            pq_count := pq_count q' + 1\<rparr>)"

text \<open>The two loops of \<open>pop\<close> look for the first nonempty level in an order.\<close>

fun first_level :: "'a list list \<Rightarrow> nat list \<Rightarrow> nat option" where
  "first_level levels [] = None"
| "first_level levels (l # ls) = (if levels ! l = [] then first_level levels ls else Some l)"

definition take_front :: "nat \<Rightarrow> 'j priority_queue \<Rightarrow> 'j task \<times> 'j priority_queue" where
  "take_front level q =
     (hd (pq_levels q ! level),
      q\<lparr>pq_levels := (pq_levels q)[level := tl (pq_levels q ! level)], pq_count := pq_count q - 1,
        pq_served := pq_served q + 1\<rparr>)"

definition priority_pop :: "'j priority_queue \<Rightarrow> 'j task option \<times> 'j priority_queue" where
  "priority_pop q =
     (if pq_count q = 0 then (None, q)
      else case (if pq_aging q \<and> pq_agingThreshold q \<le> pq_serves q
                 then first_level (pq_levels q) [2, 1] else None) of
        Some level \<Rightarrow>
          (let (t, q') = take_front level q
           in (Some t, q'\<lparr>pq_promotions := pq_promotions q' + 1, pq_serves := 0\<rparr>))
      | None \<Rightarrow>
          (case first_level (pq_levels q) [0, 1, 2] of
             Some level \<Rightarrow>
               (let (t, q') = take_front level q in (Some t, q'\<lparr>pq_serves := pq_serves q' + 1\<rparr>))
           | None \<Rightarrow> (None, q)))"

record 'j rr_queue =
  rq_tasks :: "'j task list"
  rq_nextSequence :: u64
  rq_requeues :: u64

definition newRoundRobin :: "'j rr_queue" where
  "newRoundRobin = \<lparr>rq_tasks = [], rq_nextSequence = 0, rq_requeues = 0\<rparr>"

definition rr_push :: "'j task \<Rightarrow> 'j rr_queue \<Rightarrow> 'j rr_queue" where
  "rr_push t q =
     (let q1 = (if tk_sequence t \<noteq> 0 then q\<lparr>rq_requeues := rq_requeues q + 1\<rparr> else q);
          q2 = q1\<lparr>rq_nextSequence := rq_nextSequence q1 + 1\<rparr>
      in q2\<lparr>rq_tasks := rq_tasks q2 @ [t\<lparr>tk_sequence := rq_nextSequence q2\<rparr>]\<rparr>)"

definition rr_pop :: "'j rr_queue \<Rightarrow> 'j task option \<times> 'j rr_queue" where
  "rr_pop q =
     (case rq_tasks q of
        [] \<Rightarrow> (None, q)
      | t # ts \<Rightarrow> (Some t, q\<lparr>rq_tasks := ts\<rparr>))"

text \<open>The virtual interface.\<close>

datatype 'j TaskQueue =
  FcfsQueue "'j fcfs_queue" | PriorityQueue "'j priority_queue" | RoundRobinQueue "'j rr_queue"

definition makeTaskQueue :: "SchedulingPolicy \<Rightarrow> bool \<Rightarrow> u64 \<Rightarrow> 'j TaskQueue" where
  "makeTaskQueue policy aging agingThreshold =
     (case policy of
        Priority \<Rightarrow> PriorityQueue (newPriority aging agingThreshold)
      | RoundRobin \<Rightarrow> RoundRobinQueue newRoundRobin
      | Fcfs \<Rightarrow> FcfsQueue newFcfs)"

fun push :: "'j task \<Rightarrow> 'j TaskQueue \<Rightarrow> 'j TaskQueue" where
  "push t (FcfsQueue q) = FcfsQueue (fcfs_push t q)"
| "push t (PriorityQueue q) = PriorityQueue (priority_push t q)"
| "push t (RoundRobinQueue q) = RoundRobinQueue (rr_push t q)"

fun pop :: "'j TaskQueue \<Rightarrow> 'j task option \<times> 'j TaskQueue" where
  "pop (FcfsQueue q) = (case fcfs_pop q of (r, q') \<Rightarrow> (r, FcfsQueue q'))"
| "pop (PriorityQueue q) = (case priority_pop q of (r, q') \<Rightarrow> (r, PriorityQueue q'))"
| "pop (RoundRobinQueue q) = (case rr_pop q of (r, q') \<Rightarrow> (r, RoundRobinQueue q'))"

fun queue_size :: "'j TaskQueue \<Rightarrow> nat" where
  "queue_size (FcfsQueue q) = length (fq_tasks q)"
| "queue_size (PriorityQueue q) = pq_count q"
| "queue_size (RoundRobinQueue q) = length (rq_tasks q)"

fun queue_empty :: "'j TaskQueue \<Rightarrow> bool" where
  "queue_empty (FcfsQueue q) \<longleftrightarrow> fq_tasks q = []"
| "queue_empty (PriorityQueue q) \<longleftrightarrow> pq_count q = 0"
| "queue_empty (RoundRobinQueue q) \<longleftrightarrow> rq_tasks q = []"

fun queue_name :: "'j TaskQueue \<Rightarrow> string" where
  "queue_name (FcfsQueue q) = ''fcfs''"
| "queue_name (PriorityQueue q) = (if pq_aging q then ''priority+aging'' else ''priority'')"
| "queue_name (RoundRobinQueue q) = ''round-robin''"


subsection \<open>The contract of a queue\<close>

text \<open>A task without its sequence number, which \<open>push\<close> overwrites.\<close>

definition job :: "'j task \<Rightarrow> 'j \<times> TaskPriority" where
  "job t = (tk_run t, tk_priority t)"

lemma job_sequence [simp]: "job (t\<lparr>tk_sequence := n\<rparr>) = job t"
  by (simp add: job_def)

fun pops :: "('q \<Rightarrow> 'j task option \<times> 'q) \<Rightarrow> nat \<Rightarrow> 'q \<Rightarrow> 'j task list \<times> 'q" where
  "pops p 0 q = ([], q)"
| "pops p (Suc n) q =
     (case p q of
        (None, q') \<Rightarrow> ([], q')
      | (Some t, q') \<Rightarrow> (let (ts, q'') = pops p n q' in (t # ts, q'')))"

locale task_store =
  fixes q_push :: "'j task \<Rightarrow> 'q \<Rightarrow> 'q"
    and q_pop :: "'q \<Rightarrow> 'j task option \<times> 'q"
    and q_size :: "'q \<Rightarrow> nat"
    and invar :: "'q \<Rightarrow> bool"
    and contents :: "'q \<Rightarrow> ('j \<times> TaskPriority) multiset"
  assumes push_contents: "invar q \<Longrightarrow> contents (q_push t q) = add_mset (job t) (contents q)"
    and pop_none: "invar q \<Longrightarrow> q_pop q = (None, q') \<Longrightarrow> contents q = {#} \<and> q' = q"
    and pop_some: "invar q \<Longrightarrow> q_pop q = (Some t, q') \<Longrightarrow> contents q = add_mset (job t) (contents q')"
    and size_contents: "invar q \<Longrightarrow> q_size q = size (contents q)"
    and invar_push: "invar q \<Longrightarrow> invar (q_push t q)"
    and invar_pop: "invar q \<Longrightarrow> q_pop q = (r, q') \<Longrightarrow> invar q'"
begin

lemma pop_iff: "invar q \<Longrightarrow> fst (q_pop q) = None \<longleftrightarrow> contents q = {#}"
  by (cases "q_pop q"; cases "fst (q_pop q)") (auto dest: pop_none pop_some)

text \<open>Popping as often as there are tasks gives every task once.\<close>

lemma pops_all:
  "invar q \<Longrightarrow> n = size (contents q) \<Longrightarrow>
   mset (map job (fst (pops q_pop n q))) = contents q \<and> contents (snd (pops q_pop n q)) = {#}"
proof (induction n arbitrary: q)
  case (Suc n)
  then have "contents q \<noteq> {#}" by auto
  with pop_iff[OF Suc.prems(1)] obtain t q' where p: "q_pop q = (Some t, q')"
    by (cases "q_pop q"; cases "fst (q_pop q)") auto
  note c = pop_some[OF Suc.prems(1) p]
  have "n = size (contents q')" using Suc.prems(2) c by simp
  from Suc.IH[OF invar_pop[OF Suc.prems(1) p] this] c p show ?case
    by (simp add: split_beta Let_def)
qed simp

lemma pops_invar: "invar q \<Longrightarrow> invar (snd (pops q_pop n q))"
proof (induction n arbitrary: q)
  case (Suc n)
  obtain r q' where p: "q_pop q = (r, q')" by fastforce
  with Suc.IH[of q'] invar_pop[OF Suc.prems p] show ?case by (cases r) (simp_all add: split_beta Let_def)
qed simp

lemma pushes_contents:
  "invar q \<Longrightarrow> invar (fold q_push ts q) \<and> contents (fold q_push ts q) = contents q + mset (map job ts)"
  by (induction ts arbitrary: q) (simp_all add: invar_push push_contents)

end


subsection \<open>The three queues keep the contract\<close>

definition fcfs_contents :: "'j fcfs_queue \<Rightarrow> ('j \<times> TaskPriority) multiset" where
  "fcfs_contents q = mset (map job (fq_tasks q))"

interpretation fcfs: task_store fcfs_push fcfs_pop "\<lambda>q. length (fq_tasks q)" "\<lambda>q. True" fcfs_contents
  by unfold_locales (auto simp: fcfs_contents_def fcfs_push_def fcfs_pop_def split: list.splits)

definition rr_contents :: "'j rr_queue \<Rightarrow> ('j \<times> TaskPriority) multiset" where
  "rr_contents q = mset (map job (rq_tasks q))"

interpretation rr: task_store rr_push rr_pop "\<lambda>q. length (rq_tasks q)" "\<lambda>q. True" rr_contents
  by unfold_locales (auto simp: rr_contents_def rr_push_def rr_pop_def Let_def split: list.splits)

definition pq_inv :: "'j priority_queue \<Rightarrow> bool" where
  "pq_inv q \<longleftrightarrow> length (pq_levels q) = 3 \<and> pq_count q = length (concat (pq_levels q)) \<and>
     (\<forall>l < 3. \<forall>t \<in> set (pq_levels q ! l). plevel (tk_priority t) = l) \<and> pq_agingThreshold q \<noteq> 0"

definition pq_contents :: "'j priority_queue \<Rightarrow> ('j \<times> TaskPriority) multiset" where
  "pq_contents q = mset (map job (concat (pq_levels q)))"

lemma all_less_3: "(\<forall>l < (3 :: nat). P l) \<longleftrightarrow> P 0 \<and> P 1 \<and> P 2"
  by (auto simp: numeral_3_eq_3 numeral_2_eq_2 less_Suc_eq)

lemma three_levels:
  assumes "length xs = (3 :: nat)"
  obtains a b c where "xs = [a, b, c]"
  using assms by (auto simp: numeral_3_eq_3 length_Suc_conv)

lemma plevel_less [simp]: "plevel p < 3"
  by (cases p) auto

lemma pq_inv_push: "pq_inv q \<Longrightarrow> pq_inv (priority_push t q)"
  and pq_contents_push: "pq_inv q \<Longrightarrow> pq_contents (priority_push t q) = add_mset (job t) (pq_contents q)"
proof -
  assume inv: "pq_inv q"
  then obtain a b c where l: "pq_levels q = [a, b, c]" by (auto simp: pq_inv_def elim: three_levels)
  show "pq_inv (priority_push t q)"
    using inv l by (cases "tk_priority t") (auto simp: pq_inv_def priority_push_def Let_def all_less_3)
  show "pq_contents (priority_push t q) = add_mset (job t) (pq_contents q)"
    using l by (cases "tk_priority t") (auto simp: pq_contents_def priority_push_def Let_def)
qed

text \<open>Which level a pop serves.\<close>

definition pq_choice :: "'j priority_queue \<Rightarrow> nat option" where
  "pq_choice q =
     (case (if pq_aging q \<and> pq_agingThreshold q \<le> pq_serves q then first_level (pq_levels q) [2, 1] else None) of
        Some l \<Rightarrow> Some l
      | None \<Rightarrow> first_level (pq_levels q) [0, 1, 2])"

definition pq_promotes :: "'j priority_queue \<Rightarrow> bool" where
  "pq_promotes q \<longleftrightarrow> pq_aging q \<and> pq_agingThreshold q \<le> pq_serves q \<and> first_level (pq_levels q) [2, 1] \<noteq> None"

lemma first_level_Some: "first_level levels ls = Some l \<Longrightarrow> l \<in> set ls \<and> levels ! l \<noteq> []"
  by (induction ls) (auto split: if_splits)

lemma first_level_None: "first_level levels ls = None \<longleftrightarrow> (\<forall>l \<in> set ls. levels ! l = [])"
  by (induction ls) auto

lemma pq_choice_None: "pq_inv q \<Longrightarrow> pq_choice q = None \<longleftrightarrow> pq_count q = 0"
proof -
  assume inv: "pq_inv q"
  then obtain a b c where l: "pq_levels q = [a, b, c]" by (auto simp: pq_inv_def elim: three_levels)
  with inv show ?thesis by (auto simp: pq_choice_def pq_inv_def split: option.splits if_splits)
qed

lemma pq_choice_Some: "pq_inv q \<Longrightarrow> pq_choice q = Some l \<Longrightarrow> l < 3 \<and> pq_levels q ! l \<noteq> []"
  by (auto simp: pq_choice_def dest!: first_level_Some split: option.splits if_splits)

lemma priority_pop_choice:
  assumes "pq_inv q"
  shows "pq_choice q = None \<Longrightarrow> priority_pop q = (None, q)"
    and "pq_choice q = Some l \<Longrightarrow> \<exists>q'. priority_pop q = (Some (hd (pq_levels q ! l)), q') \<and>
      pq_levels q' = (pq_levels q)[l := tl (pq_levels q ! l)] \<and> pq_count q' = pq_count q - 1 \<and>
      pq_aging q' = pq_aging q \<and> pq_agingThreshold q' = pq_agingThreshold q \<and>
      pq_serves q' = (if pq_promotes q then 0 else pq_serves q + 1)"
  using pq_choice_None[OF assms]
  by (auto simp: priority_pop_def pq_choice_def pq_promotes_def take_front_def Let_def split: option.splits if_splits)

lemma priority_pop_cases:
  assumes "pq_inv q" and "priority_pop q = (r, q')"
  obtains "pq_choice q = None" "r = None" "q' = q" "pq_count q = 0"
  | l where "pq_choice q = Some l" "r = Some (hd (pq_levels q ! l))" "l < 3" "pq_levels q ! l \<noteq> []"
    "pq_levels q' = (pq_levels q)[l := tl (pq_levels q ! l)]" "pq_count q' = pq_count q - 1"
    "pq_aging q' = pq_aging q" "pq_agingThreshold q' = pq_agingThreshold q"
    "pq_serves q' = (if pq_promotes q then 0 else pq_serves q + 1)"
proof (cases "pq_choice q")
  case None
  with priority_pop_choice(1)[OF assms(1)] pq_choice_None[OF assms(1)] assms(2) that(1) show ?thesis by simp
next
  case (Some l)
  with priority_pop_choice(2)[OF assms(1) Some] pq_choice_Some[OF assms(1) Some] assms(2) that(2) show ?thesis by auto
qed

lemma less_3: "l < (3 :: nat) \<Longrightarrow> l = 0 \<or> l = 1 \<or> l = 2"
  by auto

lemma pq_pop_effect:
  assumes "pq_inv q" and "priority_pop q = (Some t, q')"
  shows "pq_contents q = add_mset (job t) (pq_contents q')" and "pq_inv q'"
proof -
  from assms obtain l where l: "l < 3" "pq_levels q ! l \<noteq> []" "t = hd (pq_levels q ! l)"
      "pq_levels q' = (pq_levels q)[l := tl (pq_levels q ! l)]" "pq_count q' = pq_count q - 1"
      "pq_agingThreshold q' = pq_agingThreshold q"
    by (elim priority_pop_cases) auto
  from assms(1) obtain a b c where abc: "pq_levels q = [a, b, c]" by (auto simp: pq_inv_def elim: three_levels)
  obtain u us where u: "pq_levels q ! l = u # us" using l(2) by (cases "pq_levels q ! l") auto
  show "pq_contents q = add_mset (job t) (pq_contents q')"
    using less_3[OF l(1)] l(3,4) u abc by (auto simp: pq_contents_def)
  show "pq_inv q'"
    using less_3[OF l(1)] l(3-6) u abc assms(1) by (auto simp: pq_inv_def all_less_3)
qed

lemma pq_empty:
  assumes "pq_inv q" and "priority_pop q = (None, q')"
  shows "pq_contents q = {#} \<and> q' = q"
  using assms(1) priority_pop_cases[OF assms] by (auto simp: pq_inv_def pq_contents_def)

lemma pq_size: "pq_inv q \<Longrightarrow> pq_count q = size (pq_contents q)"
  by (simp add: pq_inv_def pq_contents_def)

interpretation pq: task_store priority_push priority_pop pq_count pq_inv pq_contents
proof unfold_locales
  fix q q' :: "'a priority_queue" and r
  assume inv: "pq_inv q" and p: "priority_pop q = (r, q')"
  show "pq_inv q'"
  proof (cases r)
    case None
    with pq_empty[OF inv] p inv show ?thesis by simp
  next
    case (Some t)
    with pq_pop_effect(2)[OF inv] p show ?thesis by simp
  qed
qed (simp_all add: pq_contents_push pq_inv_push pq_empty pq_pop_effect(1) pq_size)

fun tq_inv :: "'j TaskQueue \<Rightarrow> bool" where
  "tq_inv (FcfsQueue q) = True"
| "tq_inv (PriorityQueue q) = pq_inv q"
| "tq_inv (RoundRobinQueue q) = True"

fun tq_contents :: "'j TaskQueue \<Rightarrow> ('j \<times> TaskPriority) multiset" where
  "tq_contents (FcfsQueue q) = fcfs_contents q"
| "tq_contents (PriorityQueue q) = pq_contents q"
| "tq_contents (RoundRobinQueue q) = rr_contents q"

lemma tq_pop_none: "tq_inv q \<Longrightarrow> pop q = (None, q') \<Longrightarrow> tq_contents q = {#} \<and> q' = q"
  by (cases q) (auto dest: fcfs.pop_none[OF TrueI] pq.pop_none rr.pop_none[OF TrueI] split: prod.splits)

lemma tq_pop_some: "tq_inv q \<Longrightarrow> pop q = (Some t, q') \<Longrightarrow> tq_contents q = add_mset (job t) (tq_contents q')"
  by (cases q) (auto dest: fcfs.pop_some[OF TrueI] pq.pop_some rr.pop_some[OF TrueI] split: prod.splits)

lemma tq_inv_pop: "tq_inv q \<Longrightarrow> pop q = (r, q') \<Longrightarrow> tq_inv q'"
  by (cases q) (auto dest: pq.invar_pop split: prod.splits)

lemma tq_make: "tq_inv (makeTaskQueue policy aging n)" "tq_contents (makeTaskQueue policy aging n) = {#}"
  by (cases policy; simp add: makeTaskQueue_def newPriority_def kPriorityLevels_def pq_inv_def pq_contents_def
      fcfs_contents_def rr_contents_def newFcfs_def newRoundRobin_def numeral_3_eq_3 less_Suc_eq)+

lemma tq_empty: "tq_inv q \<Longrightarrow> queue_empty q \<longleftrightarrow> tq_contents q = {#}"
  by (cases q) (auto simp: fcfs_contents_def rr_contents_def pq.size_contents)

interpretation tq: task_store push pop queue_size tq_inv tq_contents
proof unfold_locales
  fix q :: "'a TaskQueue" and t
  show "tq_inv q \<Longrightarrow> tq_contents (push t q) = add_mset (job t) (tq_contents q)"
    by (cases q) (simp_all add: fcfs.push_contents pq.push_contents rr.push_contents)
  show "tq_inv q \<Longrightarrow> queue_size q = size (tq_contents q)"
    by (cases q) (simp_all add: fcfs.size_contents pq.size_contents rr.size_contents)
  show "tq_inv q \<Longrightarrow> tq_inv (push t q)" by (cases q) (simp_all add: pq.invar_push)
qed (erule (1) tq_pop_none tq_pop_some tq_inv_pop)+


subsection \<open>Properties\<close>

text \<open>
  No queue loses or doubles a task: whatever the policy, after any pushes, popping as often
  as the queue's size says hands out exactly the pushed tasks, each once, and empties it.
\<close>

theorem queue_conserves_tasks:
  fixes policy aging n and ts :: "'j task list"
  defines "q \<equiv> fold push ts (makeTaskQueue policy aging n)"
  shows "queue_size q = length ts \<and> mset (map job (fst (pops pop (length ts) q))) = mset (map job ts) \<and>
    queue_empty (snd (pops pop (length ts) q))"
proof -
  have q: "tq_inv q" "tq_contents q = mset (map job ts)"
    using tq.pushes_contents[OF tq_make(1), of ts policy aging n] by (simp_all add: q_def tq_make(2))
  have n: "length ts = size (tq_contents q)" unfolding q(2) by simp
  have sz: "queue_size q = length ts" unfolding tq.size_contents[OF q(1)] n ..
  note tq_empty[OF tq.pops_invar[OF q(1)], of "length ts"]
  with tq.pops_all[OF q(1) n] sz show ?thesis unfolding q(2) by blast
qed

lemma fcfs_pops:
  "map job (fst (pops fcfs_pop n q)) = take n (map job (fq_tasks q)) \<and>
   fq_tasks (snd (pops fcfs_pop n q)) = drop n (fq_tasks q)"
  by (induction n arbitrary: q) (auto simp: fcfs_pop_def Let_def split_beta split: list.split)

lemma rr_pops:
  "map job (fst (pops rr_pop n q)) = take n (map job (rq_tasks q)) \<and>
   rq_tasks (snd (pops rr_pop n q)) = drop n (rq_tasks q)"
  by (induction n arbitrary: q) (auto simp: rr_pop_def Let_def split_beta split: list.split)

lemma fcfs_pushes: "map job (fq_tasks (fold fcfs_push ts q)) = map job (fq_tasks q) @ map job ts"
  by (induction ts arbitrary: q) (simp_all add: fcfs_push_def)

lemma rr_pushes: "map job (rq_tasks (fold rr_push ts q)) = map job (rq_tasks q) @ map job ts"
  by (induction ts arbitrary: q) (simp_all add: rr_push_def Let_def)

text \<open>
  First come first served and round robin hand out the tasks in the order of the pushes.
\<close>

lemma fifo_order:
  "map job (fst (pops fcfs_pop n (fold fcfs_push ts newFcfs))) = take n (map job ts) \<and>
   map job (fst (pops rr_pop n (fold rr_push ts newRoundRobin))) = take n (map job ts)"
  by (simp add: fcfs_pops rr_pops fcfs_pushes rr_pushes newFcfs_def newRoundRobin_def)

lemma first_level_least:
  "first_level levels [0, 1, 2] = Some l \<Longrightarrow> \<forall>k < l. levels ! k = []"
  by (auto simp: less_Suc_eq numeral_2_eq_2 split: if_splits)

lemma no_promotion_choice: "\<not> pq_promotes q \<Longrightarrow> pq_choice q = first_level (pq_levels q) [0, 1, 2]"
  by (auto simp: pq_promotes_def pq_choice_def split: option.splits)

text \<open>
  Strict priority: unless aging promotes, a pop hands out a task of the best priority that
  waits, the oldest one of its level.
\<close>

theorem strict_priority:
  assumes "pq_inv q" and "\<not> pq_promotes q" and "priority_pop q = (Some t, q')"
  shows "(\<exists>ts. pq_levels q ! plevel (tk_priority t) = t # ts) \<and>
    (\<forall>u \<in> set (concat (pq_levels q)). plevel (tk_priority t) \<le> plevel (tk_priority u))"
proof -
  from assms obtain l where l: "pq_choice q = Some l" "t = hd (pq_levels q ! l)" "l < 3" "pq_levels q ! l \<noteq> []"
    by (elim priority_pop_cases) auto
  then have t: "t \<in> set (pq_levels q ! l)" by simp
  with assms(1) l(3) have lt: "plevel (tk_priority t) = l" by (simp add: pq_inv_def)
  have empty: "\<forall>k < l. pq_levels q ! k = []"
    using l(1) unfolding no_promotion_choice[OF assms(2)] by (rule first_level_least)
  have "l \<le> plevel (tk_priority u)" if u: "u \<in> set (concat (pq_levels q))" for u
  proof -
    from u obtain ts where "ts \<in> set (pq_levels q)" "u \<in> set ts" by auto
    then obtain k where k: "k < 3" "u \<in> set (pq_levels q ! k)"
      using assms(1) by (metis in_set_conv_nth pq_inv_def)
    with assms(1) have "plevel (tk_priority u) = k" by (simp add: pq_inv_def)
    moreover have "\<not> k < l" using empty k(2) by auto
    ultimately show ?thesis by simp
  qed
  with l lt show ?thesis by (metis list.collapse)
qed

definition demo_task :: "TaskPriority \<Rightarrow> nat \<Rightarrow> nat task" where
  "demo_task p j = \<lparr>tk_run = j, tk_priority = p, tk_sequence = 0\<rparr>"

definition demo_pq :: "bool \<Rightarrow> u64 \<Rightarrow> nat priority_queue" where
  "demo_pq aging threshold =
     fold priority_push [demo_task Low 1, demo_task Normal 2, demo_task High 3] (newPriority aging threshold)"

lemma demo_pq_levels:
  "pq_levels (demo_pq aging threshold) =
     [[(demo_task High 3)\<lparr>tk_sequence := 3\<rparr>], [(demo_task Normal 2)\<lparr>tk_sequence := 2\<rparr>],
      [(demo_task Low 1)\<lparr>tk_sequence := 1\<rparr>]]"
  "pq_serves (demo_pq aging threshold) = 0" "pq_aging (demo_pq aging threshold) = aging"
  "pq_agingThreshold (demo_pq aging threshold) = (if threshold = 0 then 1 else threshold)"
  "pq_count (demo_pq aging threshold) = 3"
  by (simp_all add: demo_pq_def demo_task_def newPriority_def priority_push_def kPriorityLevels_def Let_def
      numeral_3_eq_3)

lemma demo_pq_inv: "pq_inv (demo_pq aging threshold)"
proof -
  have "pq_inv (newPriority aging threshold :: nat priority_queue)"
    using tq_make(1)[of Priority aging threshold] by (simp add: makeTaskQueue_def)
  then show ?thesis by (simp add: demo_pq_def pq.invar_push)
qed

theorem strict_priority_witness:
  "\<exists>t q'. priority_pop (demo_pq False 32) = (Some t, q') \<and> tk_run t = 3 \<and>
     (\<forall>u \<in> set (concat (pq_levels (demo_pq False 32))). plevel (tk_priority t) \<le> plevel (tk_priority u))"
proof -
  have n: "\<not> pq_promotes (demo_pq False 32)" by (simp add: pq_promotes_def demo_pq_levels)
  obtain q' where p: "priority_pop (demo_pq False 32) = (Some ((demo_task High 3)\<lparr>tk_sequence := 3\<rparr>), q')"
    by (simp add: priority_pop_def demo_pq_levels take_front_def Let_def)
  from strict_priority[OF demo_pq_inv n p] p show ?thesis
    by (intro exI[of _ "(demo_task High 3)\<lparr>tk_sequence := 3\<rparr>"] exI[of _ q']) (simp add: demo_task_def)
qed


subsection \<open>Waiting under aging\<close>

datatype 'j qop = Push "'j task" | Pop

fun qrun :: "'j qop list \<Rightarrow> 'j priority_queue \<Rightarrow> 'j task list" where
  "qrun [] q = []"
| "qrun (Push t # xs) q = qrun xs (priority_push t q)"
| "qrun (Pop # xs) q =
     (case priority_pop q of (None, q') \<Rightarrow> qrun xs q' | (Some t, q') \<Rightarrow> t # qrun xs q')"

fun pop_count :: "'j qop list \<Rightarrow> nat" where
  "pop_count [] = 0"
| "pop_count (Push t # xs) = pop_count xs"
| "pop_count (Pop # xs) = Suc (pop_count xs)"

text \<open>
  The pops a low priority task with \<open>d\<close> others before it may still have to wait: one round of the
  aging threshold for each, counted from the serves since the last promotion.
\<close>

definition wait_bound :: "'j priority_queue \<Rightarrow> nat \<Rightarrow> nat" where
  "wait_bound q d = d * (unat (pq_agingThreshold q) + 1) +
     (unat (pq_agingThreshold q) - unat (pq_serves q)) + 1"

lemma push_low:
  assumes "pq_inv q" and "pq_levels q ! 2 = pre @ x # xs"
  shows "\<exists>xs'. pq_levels (priority_push t q) ! 2 = pre @ x # xs'"
    and "pq_aging (priority_push t q) = pq_aging q" and "wait_bound (priority_push t q) d = wait_bound q d"
proof -
  from assms(1) obtain a b c where "pq_levels q = [a, b, c]" by (auto simp: pq_inv_def elim: three_levels)
  with assms(2) show "\<exists>xs'. pq_levels (priority_push t q) ! 2 = pre @ x # xs'"
    by (cases "tk_priority t") (auto simp: priority_push_def Let_def)
qed (simp_all add: priority_push_def Let_def wait_bound_def)

lemma pop_low:
  assumes "pq_inv q" and "pq_aging q" and "pq_levels q ! 2 = pre @ x # xs"
  shows "\<exists>t q'. priority_pop q = (Some t, q') \<and> pq_inv q' \<and> pq_aging q' \<and>
    (t = x \<or> (\<exists>pre'. pq_levels q' ! 2 = pre' @ x # xs \<and> wait_bound q' (length pre') < wait_bound q (length pre)))"
proof -
  let ?T = "pq_agingThreshold q"
  have ne: "pq_levels q ! 2 \<noteq> []" using assms(3) by simp
  then have "pq_choice q \<noteq> None" by (auto simp: pq_choice_def split: option.splits)
  then obtain t q' l where p: "priority_pop q = (Some t, q')" and l: "pq_choice q = Some l" "t = hd (pq_levels q ! l)"
      "l < 3" "pq_levels q' = (pq_levels q)[l := tl (pq_levels q ! l)]" "pq_aging q' = pq_aging q"
      "pq_agingThreshold q' = ?T" "pq_serves q' = (if pq_promotes q then 0 else pq_serves q + 1)"
    using priority_pop_cases[OF assms(1) prod.collapse[symmetric]] by (metis prod.collapse)
  have inv': "pq_inv q'" by (rule pq_pop_effect(2)[OF assms(1) p])
  have len: "length (pq_levels q) = 3" and T: "?T \<noteq> 0" using assms(1) by (simp_all add: pq_inv_def)
  show ?thesis
  proof (cases "?T \<le> pq_serves q")
    case True
    then have pr: "pq_promotes q" and l2: "l = 2" using assms(2) ne l(1) by (auto simp: pq_promotes_def pq_choice_def)
    show ?thesis
    proof (cases pre)
      case Nil
      with l l2 assms(3) p inv' assms(2) show ?thesis by auto
    next
      case (Cons y pre')
      have "pq_levels q' ! 2 = pre' @ x # xs" using l(4) l2 Cons assms(3) len by simp
      moreover have "wait_bound q' (length pre') < wait_bound q (length pre)"
        using True Cons l(6,7) pr T by (simp add: wait_bound_def word_le_nat_alt)
      ultimately show ?thesis using p inv' l(5) assms(2) by auto
    qed
  next
    case False
    then have less: "unat (pq_serves q) < unat ?T" by (simp add: word_le_nat_alt)
    have "unat ?T < 2 ^ LENGTH(64)" by (rule unsigned_less)
    with less have "unat (pq_serves q + 1) = Suc (unat (pq_serves q))" by (simp add: unat_word_ariths)
    moreover have "\<not> pq_promotes q" using False by (simp add: pq_promotes_def)
    ultimately have b: "wait_bound q' d < wait_bound q d" for d
      using less l(6,7) by (simp add: wait_bound_def)
    show ?thesis
    proof (cases "l = 2")
      case False
      then have "pq_levels q' ! 2 = pre @ x # xs" using l(4) assms(3) by simp
      with b p inv' l(5) assms(2) show ?thesis by auto
    next
      case l2: True
      show ?thesis
      proof (cases pre)
        case Nil
        with l l2 assms(3) p inv' assms(2) show ?thesis by auto
      next
        case (Cons y pre')
        have "pq_levels q' ! 2 = pre' @ x # xs" using l(4) l2 Cons assms(3) len by simp
        moreover have "wait_bound q' (length pre') \<le> wait_bound q' (length pre)"
          using Cons by (simp add: wait_bound_def)
        ultimately show ?thesis using b[of "length pre"] p inv' l(5) assms(2) by (metis le_less_trans)
      qed
    qed
  qed
qed

lemma low_served:
  "pq_inv q \<Longrightarrow> pq_aging q \<Longrightarrow> pq_levels q ! 2 = pre @ x # xs \<Longrightarrow> wait_bound q (length pre) \<le> pop_count ops \<Longrightarrow>
   x \<in> set (qrun ops q)"
proof (induction ops q arbitrary: pre xs rule: qrun.induct)
  case (1 q)
  then show ?case by (simp add: wait_bound_def)
next
  case (2 t ops q)
  then show ?case using push_low[OF 2(2,4), of t] pq.invar_push[OF 2(2), of t] by auto
next
  case (3 ops q)
  obtain t q' where p: "priority_pop q = (Some t, q')" "pq_inv q'" "pq_aging q'"
    and c: "t = x \<or> (\<exists>pre'. pq_levels q' ! 2 = pre' @ x # xs \<and> wait_bound q' (length pre') < wait_bound q (length pre))"
    using pop_low[OF 3(3-5)] by blast
  from c show ?case
  proof
    assume "t = x"
    with p show ?thesis by simp
  next
    assume "\<exists>pre'. pq_levels q' ! 2 = pre' @ x # xs \<and> wait_bound q' (length pre') < wait_bound q (length pre)"
    then obtain pre' where "pq_levels q' ! 2 = pre' @ x # xs" "wait_bound q' (length pre') \<le> pop_count ops"
      using 3(6) by auto
    with 3(2)[OF p(1)[symmetric] refl p(2,3)] p(1) show ?thesis by simp
  qed
qed

text \<open>
  C30. Aging bounds the wait of low priority tasks: a low task with \<open>d\<close> others before it in its
  level is handed out within \<open>(d + 1) * (threshold + 1)\<close> pops, whatever is pushed in between.
\<close>

theorem aging_bounds_low_wait:
  assumes "pq_inv q" and "pq_aging q" and "pq_levels q ! 2 = pre @ x # xs"
    and "(length pre + 1) * (unat (pq_agingThreshold q) + 1) \<le> pop_count ops"
  shows "x \<in> set (qrun ops q)"
proof -
  have "wait_bound q (length pre) \<le> (length pre + 1) * (unat (pq_agingThreshold q) + 1)"
    by (simp add: wait_bound_def)
  with assms(4) low_served[OF assms(1-3), of ops] show ?thesis by (meson order.trans)
qed

theorem aging_bounds_low_wait_witness:
  "(demo_task Low 1)\<lparr>tk_sequence := 1\<rparr> \<in>
     set (qrun [Push (demo_task High 4), Pop, Push (demo_task High 5), Pop, Pop] (demo_pq True 2))"
proof -
  have "pq_levels (demo_pq True 2) ! 2 = [] @ (demo_task Low 1)\<lparr>tk_sequence := 1\<rparr> # []"
    by (simp add: demo_pq_levels)
  from aging_bounds_low_wait[OF demo_pq_inv _ this,
      of "[Push (demo_task High 4), Pop, Push (demo_task High 5), Pop, Pop]"]
  show ?thesis by (simp add: demo_pq_levels)
qed

text \<open>A scheduler that refills the level it served.\<close>

definition refill :: "'j priority_queue \<Rightarrow> 'j priority_queue" where
  "refill q = (case priority_pop q of (None, q') \<Rightarrow> q' | (Some t, q') \<Rightarrow> priority_push t q')"

definition all_waiting :: "'j task list \<Rightarrow> 'j priority_queue \<Rightarrow> bool" where
  "all_waiting ns q \<longleftrightarrow> pq_inv q \<and> pq_levels q ! 0 \<noteq> [] \<and> pq_levels q ! 1 = ns \<and> pq_levels q ! 2 \<noteq> []"

lemma refill_keeps:
  assumes "all_waiting ns q"
  shows "all_waiting ns (refill q) \<and> (\<exists>t. fst (priority_pop q) = Some t \<and> tk_priority t \<noteq> Normal)"
proof -
  have inv: "pq_inv q" and ne: "pq_levels q ! 0 \<noteq> []" "pq_levels q ! 2 \<noteq> []" "pq_levels q ! 1 = ns"
    using assms by (simp_all add: all_waiting_def)
  have ch: "pq_choice q = Some 0 \<or> pq_choice q = Some 2" using ne by (auto simp: pq_choice_def)
  then obtain l where l: "pq_choice q = Some l" "l = 0 \<or> l = 2" by auto
  from priority_pop_choice(2)[OF inv l(1)] obtain q' where p: "priority_pop q = (Some (hd (pq_levels q ! l)), q')"
    and q': "pq_levels q' = (pq_levels q)[l := tl (pq_levels q ! l)]" by blast
  let ?t = "hd (pq_levels q ! l)"
  have "?t \<in> set (pq_levels q ! l)" using l(2) ne by auto
  with inv l(2) have pl: "plevel (tk_priority ?t) = l" by (auto simp: pq_inv_def)
  have "pq_inv (priority_push ?t q')" by (rule pq_inv_push[OF pq_pop_effect(2)[OF inv p]])
  moreover have "length (pq_levels q) = 3" using inv by (simp add: pq_inv_def)
  ultimately have "all_waiting ns (priority_push ?t q')"
    using l(2) ne q' pl by (auto simp: all_waiting_def priority_push_def Let_def)
  moreover have "tk_priority ?t \<noteq> Normal" using pl l(2) by auto
  ultimately show ?thesis using p by (simp add: refill_def)
qed

text \<open>
  C38. Aging does not help tasks of normal priority: a promotion takes the lowest level first, so
  while high and low tasks keep coming, in the same measure as they are served, no pop ever
  hands out a normal one, for any threshold.
\<close>

theorem aging_starves_normal:
  "pq_levels ((refill ^^ n) (demo_pq True threshold)) ! 1 = [(demo_task Normal 2)\<lparr>tk_sequence := 2\<rparr>] \<and>
   (\<exists>t. fst (priority_pop ((refill ^^ n) (demo_pq True threshold))) = Some t \<and> tk_priority t \<noteq> Normal)"
proof -
  have "all_waiting [(demo_task Normal 2)\<lparr>tk_sequence := 2\<rparr>] ((refill ^^ n) (demo_pq True threshold))"
  proof (induction n)
    case 0
    then show ?case by (simp add: all_waiting_def demo_pq_levels demo_pq_inv)
  next
    case (Suc n)
    from refill_keeps[OF Suc] show ?case by simp
  qed
  with refill_keeps[OF this] show ?thesis by (simp add: all_waiting_def)
qed

lemma schedulingPolicy_names: "parseSchedulingPolicy (schedulingPolicyName p) = Some p"
  by (cases p) (simp_all add: parseSchedulingPolicy_def)

end
