(* ===== verification/ThreadPool.thy ===== *)
theory ThreadPool
  imports TaskQueue
begin

text \<open>
  The thread pool, \<open>src/src/pool/thread_pool.cpp\<close>.  Each critical section under \<open>mutex_\<close> is one
  function on the state, and the interleavings of the workers, the submitters and the shutdown
  are the runs of a step relation.  Running a task is one step: whether it returned true
  (finished; an exception counts as that) or false is the step's choice.  Shown here: no task is
  lost or run to completion twice, in any interleaving; a shutdown that has joined its workers
  has finished every accepted task; and it cannot get stuck or run on for ever while tasks
  finish.
\<close>

subsection \<open>Definitions\<close>

text \<open>
  Where a worker is in \<open>workerLoop\<close>: at the wait, outside the lock with a task, about to push a
  task that yielded, or returned.
\<close>

datatype 'j worker = Waiting | Running "'j task" | Requeueing "'j task" | Exited

record 'j thread_pool =
  tp_queue :: "'j TaskQueue"
  tp_stopping :: bool
  tp_workers :: "'j worker list"
  tp_executed :: u64
  tp_yields :: u64

text \<open>\<^const>\<open>None\<close> is the exception for a pool without threads.\<close>

definition newThreadPool :: "nat \<Rightarrow> SchedulingPolicy \<Rightarrow> bool \<Rightarrow> u64 \<Rightarrow> 'j thread_pool option" where
  "newThreadPool threadCount policy aging agingThreshold =
     (if threadCount = 0 then None
      else Some \<lparr>tp_queue = makeTaskQueue policy aging agingThreshold, tp_stopping = False,
                 tp_workers = replicate threadCount Waiting, tp_executed = 0, tp_yields = 0\<rparr>)"

definition submit :: "'j \<Rightarrow> TaskPriority \<Rightarrow> 'j thread_pool \<Rightarrow> bool \<times> 'j thread_pool" where
  "submit fn priority p =
     (if tp_stopping p then (False, p)
      else (True, p\<lparr>tp_queue := push \<lparr>tk_run = fn, tk_priority = priority, tk_sequence = 0\<rparr> (tp_queue p)\<rparr>))"

text \<open>\<open>shutdown\<close> up to the joins, and after them.\<close>

definition shutdown_begin :: "'j thread_pool \<Rightarrow> 'j thread_pool" where
  "shutdown_begin p = (if tp_stopping p then p else p\<lparr>tp_stopping := True\<rparr>)"

definition shutdown_joined :: "'j thread_pool \<Rightarrow> 'j thread_pool option" where
  "shutdown_joined p =
     (if tp_stopping p \<and> (\<forall>w \<in> set (tp_workers p). w = Exited) then Some (p\<lparr>tp_workers := []\<rparr>) else None)"

text \<open>The first critical section of the loop; \<^const>\<open>None\<close> while the wait blocks.\<close>

definition worker_take :: "nat \<Rightarrow> 'j thread_pool \<Rightarrow> 'j thread_pool option" where
  "worker_take i p =
     (if \<not> (tp_stopping p \<or> \<not> queue_empty (tp_queue p)) then None
      else if tp_stopping p \<and> queue_empty (tp_queue p) then
        Some (p\<lparr>tp_workers := (tp_workers p)[i := Exited]\<rparr>)
      else case pop (tp_queue p) of
        (None, q) \<Rightarrow> Some (p\<lparr>tp_queue := q\<rparr>)
      | (Some task, q) \<Rightarrow> Some (p\<lparr>tp_queue := q, tp_workers := (tp_workers p)[i := Running task]\<rparr>))"

definition worker_ran :: "nat \<Rightarrow> 'j task \<Rightarrow> bool \<Rightarrow> 'j thread_pool \<Rightarrow> 'j thread_pool" where
  "worker_ran i task finished p =
     (let p' = p\<lparr>tp_executed := tp_executed p + 1\<rparr>
      in if \<not> finished
         then p'\<lparr>tp_yields := tp_yields p' + 1, tp_workers := (tp_workers p')[i := Requeueing task]\<rparr>
         else p'\<lparr>tp_workers := (tp_workers p')[i := Waiting]\<rparr>)"

definition worker_requeue :: "nat \<Rightarrow> 'j task \<Rightarrow> 'j thread_pool \<Rightarrow> 'j thread_pool" where
  "worker_requeue i task p =
     p\<lparr>tp_queue := push task (tp_queue p), tp_workers := (tp_workers p)[i := Waiting]\<rparr>"

datatype 'j event = Accepted "'j \<times> TaskPriority" | Completed "'j \<times> TaskPriority" | Yielded | Silent

inductive worker_step :: "'j thread_pool \<Rightarrow> 'j event \<Rightarrow> 'j thread_pool \<Rightarrow> bool" where
  take: "i < length (tp_workers p) \<Longrightarrow> tp_workers p ! i = Waiting \<Longrightarrow> worker_take i p = Some p' \<Longrightarrow>
    worker_step p Silent p'"
| ran: "i < length (tp_workers p) \<Longrightarrow> tp_workers p ! i = Running task \<Longrightarrow>
    worker_step p (Completed (job task)) (worker_ran i task True p)"
| yielded: "i < length (tp_workers p) \<Longrightarrow> tp_workers p ! i = Running task \<Longrightarrow>
    worker_step p Yielded (worker_ran i task False p)"
| requeue: "i < length (tp_workers p) \<Longrightarrow> tp_workers p ! i = Requeueing task \<Longrightarrow>
    worker_step p Silent (worker_requeue i task p)"

inductive pool_step :: "'j thread_pool \<Rightarrow> 'j event \<Rightarrow> 'j thread_pool \<Rightarrow> bool" where
  worker: "worker_step p e p' \<Longrightarrow> pool_step p e p'"
| accepted: "submit fn priority p = (True, p') \<Longrightarrow> pool_step p (Accepted (fn, priority)) p'"
| rejected: "submit fn priority p = (False, p') \<Longrightarrow> pool_step p Silent p'"
| stop: "pool_step p Silent (shutdown_begin p)"
| joined: "shutdown_joined p = Some p' \<Longrightarrow> pool_step p Silent p'"

inductive pool_run :: "'j thread_pool \<Rightarrow> 'j event list \<Rightarrow> 'j thread_pool \<Rightarrow> bool" where
  run_nil: "pool_run p [] p"
| run_snoc: "pool_run p es p' \<Longrightarrow> pool_step p' e p'' \<Longrightarrow> pool_run p (es @ [e]) p''"

inductive_cases worker_stepE: "worker_step p e p'"
inductive_cases pool_stepE: "pool_step p e p'"


subsection \<open>Conservation\<close>

fun held :: "'j worker \<Rightarrow> ('j \<times> TaskPriority) multiset" where
  "held (Running t) = {#job t#}"
| "held (Requeueing t) = {#job t#}"
| "held w = {#}"

definition in_pool :: "'j thread_pool \<Rightarrow> ('j \<times> TaskPriority) multiset" where
  "in_pool p = tq_contents (tp_queue p) + sum_list (map held (tp_workers p))"

definition accepted_of :: "'j event list \<Rightarrow> ('j \<times> TaskPriority) multiset" where
  "accepted_of es = sum_list (map (\<lambda>e. case e of Accepted x \<Rightarrow> {#x#} | _ \<Rightarrow> {#}) es)"

definition completed_of :: "'j event list \<Rightarrow> ('j \<times> TaskPriority) multiset" where
  "completed_of es = sum_list (map (\<lambda>e. case e of Completed x \<Rightarrow> {#x#} | _ \<Rightarrow> {#}) es)"

lemma history_snoc [simp]:
  "accepted_of [] = {#}" "completed_of [] = {#}"
  "accepted_of (es @ [e]) = accepted_of es + (case e of Accepted x \<Rightarrow> {#x#} | _ \<Rightarrow> {#})"
  "completed_of (es @ [e]) = completed_of es + (case e of Completed x \<Rightarrow> {#x#} | _ \<Rightarrow> {#})"
  by (simp_all add: accepted_of_def completed_of_def)

text \<open>Once every worker has returned there is nothing left in the queue.\<close>

definition pool_inv :: "'j thread_pool \<Rightarrow> bool" where
  "pool_inv p \<longleftrightarrow> tq_inv (tp_queue p) \<and>
     ((\<exists>w \<in> set (tp_workers p). w = Exited) \<or> tp_workers p = [] \<longrightarrow> tp_stopping p) \<and>
     ((\<forall>w \<in> set (tp_workers p). w = Exited) \<longrightarrow> queue_empty (tp_queue p))"

lemma held_update:
  assumes "i < length ws"
  shows "sum_list (map held (ws[i := w])) + held (ws ! i) = sum_list (map held ws) + held w"
  using assms
proof (induction ws arbitrary: i)
  case (Cons v ws)
  show ?case
  proof (cases i)
    case (Suc n)
    with Cons.IH[of n] Cons.prems show ?thesis by (simp add: add.assoc)
  qed simp
qed simp

text \<open>A worker that changes its place without returning.\<close>

lemma workers_update:
  assumes "i < length ws" and "w \<noteq> Exited"
  shows "\<not> (\<forall>v \<in> set (ws[i := w]). v = Exited)" and "ws[i := w] \<noteq> []"
    and "(\<exists>v \<in> set (ws[i := w]). v = Exited) \<longrightarrow> (\<exists>v \<in> set ws. v = Exited)"
proof -
  have "w \<in> set (ws[i := w])" using assms(1) by (simp add: set_update_memI)
  with assms show "\<not> (\<forall>v \<in> set (ws[i := w]). v = Exited)" and "ws[i := w] \<noteq> []" by auto
  show "(\<exists>v \<in> set (ws[i := w]). v = Exited) \<longrightarrow> (\<exists>v \<in> set ws. v = Exited)"
    using set_update_subset_insert[of ws i w] assms(2) by auto
qed

lemma pool_inv_worker:
  assumes "pool_inv p" and "i < length (tp_workers p)" and "w \<noteq> Exited" and "tq_inv q"
    and "tp_workers p' = (tp_workers p)[i := w]" and "tp_queue p' = q" and "tp_stopping p' = tp_stopping p"
  shows "pool_inv p'"
  using workers_update[OF assms(2,3)] assms by (auto simp: pool_inv_def)

lemma in_pool_worker:
  assumes "i < length (tp_workers p)" and "tp_workers p' = (tp_workers p)[i := w]"
  shows "in_pool p' + held (tp_workers p ! i) + tq_contents (tp_queue p) = in_pool p + held w + tq_contents (tp_queue p')"
  using held_update[OF assms(1), of w] unfolding in_pool_def assms(2) by (simp add: ac_simps)

lemma take_cases:
  assumes "worker_take i p = Some p'" and "tq_inv (tp_queue p)"
  obtains "tp_stopping p" "queue_empty (tp_queue p)" "p' = p\<lparr>tp_workers := (tp_workers p)[i := Exited]\<rparr>"
  | task q where "pop (tp_queue p) = (Some task, q)"
      "p' = p\<lparr>tp_queue := q, tp_workers := (tp_workers p)[i := Running task]\<rparr>"
proof (cases "tp_stopping p \<and> queue_empty (tp_queue p)")
  case True
  with assms(1) that(1) show ?thesis by (simp add: worker_take_def)
next
  case False
  with assms(1) have ne: "\<not> queue_empty (tp_queue p)" by (auto simp: worker_take_def split: if_splits)
  obtain r q where pq: "pop (tp_queue p) = (r, q)" by fastforce
  have "r \<noteq> None" using tq.pop_none[OF assms(2), of q] pq ne by (auto simp: tq_empty[OF assms(2)])
  with pq False ne assms(1) that(2) show ?thesis by (auto simp: worker_take_def)
qed

lemma worker_step_inv:
  assumes "worker_step p e p'" and "pool_inv p"
  shows "pool_inv p' \<and> in_pool p' + (case e of Completed x \<Rightarrow> {#x#} | _ \<Rightarrow> {#}) = in_pool p \<and> (\<forall>x. e \<noteq> Accepted x)"
  using assms(1)
proof cases
  case (take i)
  have q: "tq_inv (tp_queue p)" using assms(2) by (simp add: pool_inv_def)
  from take(4) q show ?thesis
  proof (cases rule: take_cases)
    case 1
    have "pool_inv p'" using assms(2) 1 take(2) by (auto simp: pool_inv_def)
    moreover have "in_pool p' = in_pool p" using in_pool_worker[of i p p' Exited] take 1 by simp
    ultimately show ?thesis using take(1) by simp
  next
    case (2 task q)
    have "pool_inv p'"
      by (rule pool_inv_worker[OF assms(2) take(2) _ tq.invar_pop[OF q 2(1)]]) (simp_all add: 2(2))
    moreover have "in_pool p' = in_pool p"
      using in_pool_worker[of i p p' "Running task"] take(2,3) 2(2) tq.pop_some[OF q 2(1)] by simp
    ultimately show ?thesis using take(1) by simp
  qed
next
  case (ran i task)
  have "pool_inv p'"
    by (rule pool_inv_worker[OF assms(2) ran(3), of Waiting "tp_queue p"])
      (use assms(2) in \<open>simp_all add: ran(2) worker_ran_def pool_inv_def\<close>)
  moreover have "in_pool p' + {#job task#} = in_pool p"
    using in_pool_worker[of i p p' Waiting] ran by (simp add: worker_ran_def)
  ultimately show ?thesis using ran(1) by simp
next
  case (yielded i task)
  have "pool_inv p'"
    by (rule pool_inv_worker[OF assms(2) yielded(3), of "Requeueing task" "tp_queue p"])
      (use assms(2) in \<open>simp_all add: yielded(2) worker_ran_def pool_inv_def\<close>)
  moreover have "in_pool p' = in_pool p"
    using in_pool_worker[of i p p' "Requeueing task"] yielded by (simp add: worker_ran_def)
  ultimately show ?thesis using yielded(1) by simp
next
  case (requeue i task)
  have q: "tq_inv (tp_queue p)" using assms(2) by (simp add: pool_inv_def)
  have "pool_inv p'"
    by (rule pool_inv_worker[OF assms(2) requeue(3), of Waiting "push task (tp_queue p)"])
      (simp_all add: requeue(2) worker_requeue_def tq.invar_push[OF q])
  moreover have "in_pool p' = in_pool p"
    using in_pool_worker[of i p p' Waiting] requeue tq.push_contents[OF q, of task] by (simp add: worker_requeue_def)
  ultimately show ?thesis using requeue(1) by simp
qed

lemma exited_hold: "\<forall>w \<in> set ws. w = Exited \<Longrightarrow> sum_list (map held ws) = {#}"
  by (induction ws) auto

lemma pool_step_inv:
  assumes "pool_step p e p'" and "pool_inv p"
  shows "pool_inv p' \<and>
    in_pool p' + (case e of Completed x \<Rightarrow> {#x#} | _ \<Rightarrow> {#}) = in_pool p + (case e of Accepted x \<Rightarrow> {#x#} | _ \<Rightarrow> {#})"
  using assms(1)
proof cases
  case worker
  from worker_step_inv[OF this assms(2)] show ?thesis by (cases e) auto
next
  case (accepted fn priority)
  have q: "tq_inv (tp_queue p)" using assms(2) by (simp add: pool_inv_def)
  have p': "\<not> tp_stopping p"
      "p' = p\<lparr>tp_queue := push \<lparr>tk_run = fn, tk_priority = priority, tk_sequence = 0\<rparr> (tp_queue p)\<rparr>"
    using accepted(2) by (auto simp: submit_def split: if_splits)
  have "\<exists>w \<in> set (tp_workers p). w \<noteq> Exited" using assms(2) p'(1) by (cases "tp_workers p") (auto simp: pool_inv_def)
  with assms(2) p' accepted(1) q show ?thesis
    by (auto simp: pool_inv_def tq.invar_push in_pool_def tq.push_contents job_def)
next
  case (rejected fn priority)
  with assms(2) show ?thesis by (auto simp: submit_def split: if_splits)
next
  case stop
  with assms(2) show ?thesis by (auto simp: shutdown_begin_def pool_inv_def in_pool_def)
next
  case joined
  then have p': "tp_stopping p" "\<forall>w \<in> set (tp_workers p). w = Exited" "p' = p\<lparr>tp_workers := []\<rparr>"
    by (auto simp: shutdown_joined_def split: if_splits)
  note exited_hold[OF p'(2)]
  with p' joined(1) assms(2) show ?thesis by (auto simp: pool_inv_def in_pool_def)
qed

lemma pool_run_inv:
  "pool_run p es p' \<Longrightarrow> pool_inv p \<Longrightarrow>
   pool_inv p' \<and> in_pool p' + completed_of es = in_pool p + accepted_of es"
proof (induction rule: pool_run.induct)
  case (run_snoc p es p' e p'')
  from run_snoc(3)[OF run_snoc(4)] have "pool_inv p'" and eq: "in_pool p' + completed_of es = in_pool p + accepted_of es"
    by simp_all
  from pool_step_inv[OF run_snoc(2) this(1)] have "pool_inv p''"
    and "in_pool p'' + (case e of Completed x \<Rightarrow> {#x#} | _ \<Rightarrow> {#}) = in_pool p' + (case e of Accepted x \<Rightarrow> {#x#} | _ \<Rightarrow> {#})"
    by simp_all
  with eq show ?case by (simp add: ac_simps)
qed simp

lemma new_pool_inv:
  assumes "newThreadPool n policy aging threshold = Some p"
  shows "pool_inv p" and "in_pool p = {#}" and "n \<noteq> 0"
proof -
  have p: "n \<noteq> 0" "tp_queue p = makeTaskQueue policy aging threshold" "tp_workers p = replicate n Waiting" "\<not> tp_stopping p"
    using assms by (auto simp: newThreadPool_def split: if_splits)
  show "n \<noteq> 0" by (rule p(1))
  show "pool_inv p" using p tq_make(1)[of policy aging threshold] by (cases n) (auto simp: pool_inv_def)
  have "sum_list (map held (replicate n (Waiting :: 'a worker))) = {#}" by (induction n) simp_all
  with p tq_make(2)[of policy aging threshold] show "in_pool p = {#}" by (simp add: in_pool_def)
qed

text \<open>
  C5. The pool loses no task and completes none twice: at every moment of every interleaving,
  the accepted tasks are the completed ones together with those in the queue or in the hands of
  a worker.  Once all workers have returned, all accepted tasks are completed.
\<close>

theorem pool_completes_every_task:
  assumes "newThreadPool n policy aging threshold = Some p0" and "pool_run p0 es p"
  shows "accepted_of es = completed_of es + in_pool p \<and>
    ((\<forall>w \<in> set (tp_workers p). w = Exited) \<longrightarrow> accepted_of es = completed_of es)"
proof -
  note inv = pool_run_inv[OF assms(2) new_pool_inv(1)[OF assms(1)], unfolded new_pool_inv(2)[OF assms(1)]]
  then have "accepted_of es = completed_of es + in_pool p" by (simp add: ac_simps)
  moreover have "in_pool p = {#}" if "\<forall>w \<in> set (tp_workers p). w = Exited"
    using inv that exited_hold[OF that] tq_empty[of "tp_queue p"] by (simp add: pool_inv_def in_pool_def)
  ultimately show ?thesis by auto
qed

text \<open>A pool with one worker that runs one task and is shut down meanwhile.\<close>

lemma one_task_run:
  "\<exists>p. pool_run (the (newThreadPool 1 Fcfs False 32)) [Accepted (fn, pr), Silent, Silent, Completed (fn, pr), Silent] p \<and>
     tp_workers p = [Exited]"
proof -
  let ?p0 = "the (newThreadPool 1 Fcfs False 32) :: 'a thread_pool"
  let ?t = "\<lparr>tk_run = fn, tk_priority = pr, tk_sequence = 0\<rparr>"
  let ?q = "\<lparr>fq_tasks = [], fq_nextSequence = 1\<rparr>"
  let ?p1 = "?p0\<lparr>tp_queue := FcfsQueue (?q\<lparr>fq_tasks := [?t]\<rparr>)\<rparr>"
  let ?p2 = "?p1\<lparr>tp_queue := FcfsQueue ?q, tp_workers := [Running ?t]\<rparr>"
  let ?p3 = "shutdown_begin ?p2"
  let ?p4 = "worker_ran 0 ?t True ?p3"
  let ?p5 = "?p4\<lparr>tp_workers := [Exited]\<rparr>"
  have w: "tp_workers ?p0 = [Waiting]" "\<not> tp_stopping ?p0" "tp_queue ?p0 = FcfsQueue newFcfs"
    by (simp_all add: newThreadPool_def makeTaskQueue_def)
  have s1: "pool_step ?p0 (Accepted (fn, pr)) ?p1"
    using w by (intro accepted) (simp add: submit_def newFcfs_def fcfs_push_def)
  have s2: "pool_step ?p1 Silent ?p2"
    using w by (intro worker take[of 0]) (simp_all add: worker_take_def fcfs_pop_def)
  have s3: "pool_step ?p2 Silent ?p3" by (rule stop)
  have s4: "pool_step ?p3 (Completed (fn, pr)) ?p4"
    using worker[OF ran[of 0 ?p3 ?t]] w by (simp add: shutdown_begin_def job_def)
  have s5: "pool_step ?p4 Silent ?p5"
    using w by (intro worker take[of 0]) (simp_all add: worker_take_def worker_ran_def shutdown_begin_def)
  from run_snoc[OF run_snoc[OF run_snoc[OF run_snoc[OF run_snoc[OF run_nil s1] s2] s3] s4] s5] show ?thesis
    by (intro exI[of _ ?p5]) simp
qed

definition demo_pool :: "nat thread_pool" where
  "demo_pool = the (newThreadPool 1 Fcfs False 32)"

lemma demo_pool_new: "newThreadPool 1 Fcfs False 32 = Some demo_pool"
  by (simp add: demo_pool_def newThreadPool_def)

theorem pool_completes_every_task_witness:
  "\<exists>p. pool_run demo_pool [Accepted (7, Normal), Silent, Silent, Completed (7, Normal), Silent] p \<and>
     (\<forall>w \<in> set (tp_workers p). w = Exited) \<and> in_pool p = {#}"
proof -
  obtain p where p: "pool_run demo_pool [Accepted (7, Normal), Silent, Silent, Completed (7, Normal), Silent] p"
      "tp_workers p = [Exited]"
    using one_task_run[of 7 Normal] unfolding demo_pool_def by blast
  from pool_completes_every_task[OF demo_pool_new p(1)] p show ?thesis
    by (intro exI[of _ p]) (simp add: accepted_of_def completed_of_def)
qed


subsection \<open>Shutdown\<close>

fun worker_work :: "'j worker \<Rightarrow> nat" where
  "worker_work Waiting = 1"
| "worker_work (Running t) = 3"
| "worker_work (Requeueing t) = 5"
| "worker_work Exited = 0"

definition pool_work :: "'j thread_pool \<Rightarrow> nat" where
  "pool_work p = 3 * queue_size (tp_queue p) + sum_list (map worker_work (tp_workers p))"

lemma work_update:
  "i < length ws \<Longrightarrow> sum_list (map worker_work (ws[i := w])) + worker_work (ws ! i) = sum_list (map worker_work ws) + worker_work w"
proof (induction ws arbitrary: i)
  case (Cons v ws)
  then show ?case by (cases i) auto
qed simp

lemma step_less_work:
  assumes "worker_step p e p'" and "e \<noteq> Yielded" and "pool_inv p"
  shows "pool_work p' < pool_work p"
  using assms(1)
proof cases
  case (take i)
  have q: "tq_inv (tp_queue p)" using assms(3) by (simp add: pool_inv_def)
  from take(4) q show ?thesis
  proof (cases rule: take_cases)
    case 1
    with work_update[OF take(2), of Exited] take(3) show ?thesis by (simp add: pool_work_def)
  next
    case (2 task q')
    have "queue_size (tp_queue p) = Suc (queue_size q')"
      using tq.pop_some[OF q 2(1)] tq.size_contents[OF q] tq.size_contents[OF tq.invar_pop[OF q 2(1)]] by simp
    with work_update[OF take(2), of "Running task"] take(3) 2 show ?thesis by (simp add: pool_work_def)
  qed
next
  case (ran i task)
  with work_update[OF ran(3), of Waiting] show ?thesis by (simp add: pool_work_def worker_ran_def)
next
  case (requeue i task)
  have q: "tq_inv (tp_queue p)" using assms(3) by (simp add: pool_inv_def)
  have "queue_size (push task (tp_queue p)) = Suc (queue_size (tp_queue p))"
    using tq.push_contents[OF q, of task] tq.size_contents[OF q] tq.size_contents[OF tq.invar_push[OF q, of task]] by simp
  with work_update[OF requeue(3), of Waiting] requeue show ?thesis by (simp add: pool_work_def worker_requeue_def)
qed (use assms(2) in simp)

lemma stopping_stays: "worker_step p e p' \<Longrightarrow> tp_stopping p' = tp_stopping p"
  by (erule worker_stepE) (auto simp: worker_take_def worker_ran_def worker_requeue_def Let_def
      split: if_splits prod.splits option.splits)

lemma stopping_progress:
  assumes "tp_stopping p" and "i < length (tp_workers p)" and "tp_workers p ! i \<noteq> Exited"
  shows "\<exists>e p'. worker_step p e p' \<and> e \<noteq> Yielded"
proof (cases "tp_workers p ! i")
  case Waiting
  have "\<exists>p'. worker_take i p = Some p'" using assms(1) by (auto simp: worker_take_def split: option.split prod.split)
  with take[OF assms(2) Waiting] show ?thesis by blast
next
  case (Running task)
  from ran[OF assms(2) this] show ?thesis by blast
next
  case (Requeueing task)
  from requeue[OF assms(2) this] show ?thesis by blast
qed (use assms(3) in simp)

text \<open>Worker steps in which no task yields.\<close>

inductive drains :: "'j thread_pool \<Rightarrow> nat \<Rightarrow> 'j thread_pool \<Rightarrow> bool" where
  drain_nil: "drains p 0 p"
| drain_step: "drains p n p' \<Longrightarrow> worker_step p' e p'' \<Longrightarrow> e \<noteq> Yielded \<Longrightarrow> drains p (Suc n) p''"

lemma drains_bound:
  "drains p n p' \<Longrightarrow> pool_inv p \<Longrightarrow> pool_inv p' \<and> pool_work p' + n \<le> pool_work p \<and> tp_stopping p' = tp_stopping p"
proof (induction rule: drains.induct)
  case (drain_step p n p' e p'')
  from drain_step.IH[OF drain_step.prems] have "pool_inv p'" "pool_work p' + n \<le> pool_work p" "tp_stopping p' = tp_stopping p"
    by simp_all
  with worker_step_inv[OF drain_step(2) this(1)] step_less_work[OF drain_step(2,3) this(1)] stopping_stays[OF drain_step(2)]
  show ?case by simp
qed simp

text \<open>
  A shutdown ends: from any reachable state in which \<open>stopping_\<close> is set, the workers make at
  most \<open>pool_work\<close> steps while tasks finish, in any interleaving, and where no step is left every
  worker has returned, so that the joins go through.
\<close>

theorem shutdown_terminates:
  assumes "newThreadPool n policy aging threshold = Some p0" and "pool_run p0 es p" and "tp_stopping p"
    and "drains p k p'"
  shows "k \<le> pool_work p \<and>
    (\<not> (\<exists>e p''. worker_step p' e p'' \<and> e \<noteq> Yielded) \<longrightarrow> shutdown_joined p' = Some (p'\<lparr>tp_workers := []\<rparr>))"
proof -
  have inv: "pool_inv p" using pool_run_inv[OF assms(2) new_pool_inv(1)[OF assms(1)]] by simp
  note d = drains_bound[OF assms(4) inv]
  with assms(3) stopping_progress[of p'] show ?thesis
    by (auto simp: shutdown_joined_def in_set_conv_nth)
qed

theorem shutdown_terminates_witness:
  "\<exists>p p'. pool_run demo_pool [Silent] p \<and> drains p 1 p' \<and> 1 \<le> pool_work p \<and>
     shutdown_joined p' = Some (p'\<lparr>tp_workers := []\<rparr>)"
proof -
  let ?p = "shutdown_begin demo_pool"
  let ?p' = "?p\<lparr>tp_workers := [Exited]\<rparr>"
  have w: "tp_workers ?p = [Waiting]" "tp_stopping ?p" "tp_queue ?p = FcfsQueue newFcfs"
    by (simp_all add: demo_pool_def newThreadPool_def makeTaskQueue_def shutdown_begin_def)
  have run: "pool_run demo_pool [Silent] ?p" using run_snoc[OF run_nil stop, of demo_pool] by simp
  have step: "worker_step ?p Silent ?p'"
    using w by (intro take[of 0]) (simp_all add: worker_take_def newFcfs_def)
  have d: "drains ?p 1 ?p'" using drain_step[OF drain_nil step] by simp
  have "\<not> (\<exists>e p''. worker_step ?p' e p'' \<and> e \<noteq> Yielded)" by (auto elim: worker_stepE)
  with shutdown_terminates[OF demo_pool_new run w(2) d] run d show ?thesis by blast
qed

end
