(* ===== verification/Connection.thy ===== *)
theory Connection
  imports Session
begin

text \<open>
  A client connection served by a thread of the pool, \<open>src/src/net/connection.cpp\<close>: bytes in,
  lines to the session, replies out.  Shown here: how the incoming bytes are cut into chunks
  makes no difference, the bytes written are the replies to the lines in order, and the input
  buffer stays bounded.
\<close>

subsection \<open>Lines\<close>

text \<open>
  \<open>find('\n')\<close>, \<open>substr\<close>, \<open>erase\<close> and the dropped carriage return, as in the loops of
  \<open>Connection::run\<close> and \<open>EventLoop::processInput\<close>.
\<close>

definition take_line :: "string \<Rightarrow> (string \<times> string) option" where
  "take_line buf =
     (case find_from buf CHR 0x0A 0 of
        None \<Rightarrow> None
      | Some newline \<Rightarrow> Some (strip_cr (substr_to buf 0 (Some newline)), drop (newline + 1) buf))"

lemma take_line_shorter: "take_line buf = Some (line, rest) \<Longrightarrow> length rest < length buf"
  by (auto simp: take_line_def find_from_def dest: index_of_Some split: option.splits)

lemma take_line_None: "take_line buf = None \<longleftrightarrow> CHR 0x0A \<notin> set buf"
  using index_of_None[of "CHR 0x0A" buf] by (cases "index_of CHR 0x0A buf") (simp_all add: take_line_def find_from_def)

function split_lines :: "string \<Rightarrow> string list \<times> string" where
  "split_lines buf =
     (case take_line buf of
        None \<Rightarrow> ([], buf)
      | Some (line, rest) \<Rightarrow> (let (ls, r) = split_lines rest in (line # ls, r)))"
  by auto
termination by (relation "measure length") (auto dest: take_line_shorter)

declare split_lines.simps [simp del]

lemma take_line_append: "take_line a = Some (line, rest) \<Longrightarrow> take_line (a @ b) = Some (line, rest @ b)"
proof -
  assume a: "take_line a = Some (line, rest)"
  then obtain n where n: "index_of CHR 0x0A a = Some n" "line = strip_cr (take n a)" "rest = drop (n + 1) a"
    by (auto simp: take_line_def find_from_def substr_to_def split: option.splits)
  note i = index_of_Some[OF n(1)]
  have "index_of CHR 0x0A (a @ b) = Some n"
  proof -
    have "a @ b = take n a @ CHR 0x0A # (drop (Suc n) a @ b)"
      using index_of_split[OF n(1)] by (metis append.assoc append_Cons)
    moreover have "length (take n a) = n" using i by simp
    ultimately show ?thesis using index_of_append[of "CHR 0x0A" "take n a"] i by metis
  qed
  with i n show ?thesis by (simp add: take_line_def find_from_def substr_to_def)
qed

lemma split_lines_append:
  "split_lines (a @ b) =
     (fst (split_lines a) @ fst (split_lines (snd (split_lines a) @ b)), snd (split_lines (snd (split_lines a) @ b)))"
proof (induction a rule: split_lines.induct)
  case (1 a)
  show ?case
  proof (cases "take_line a")
    case None
    then show ?thesis by (simp add: split_lines.simps[of a])
  next
    case (Some lr)
    obtain line rest where lr: "lr = (line, rest)" by fastforce
    note ih = 1[OF Some lr[symmetric]]
    from Some lr have "split_lines a = (line # fst (split_lines rest), snd (split_lines rest))"
      by (simp add: split_lines.simps[of a] split_beta Let_def)
    moreover from take_line_append[of a line rest b] Some lr
    have "split_lines (a @ b) = (line # fst (split_lines (rest @ b)), snd (split_lines (rest @ b)))"
      by (simp add: split_lines.simps[of "a @ b"] split_beta Let_def)
    ultimately show ?thesis using ih by simp
  qed
qed

lemma split_lines_rest: "CHR 0x0A \<notin> set (snd (split_lines a))"
proof (induction a rule: split_lines.induct)
  case (1 a)
  show ?case
  proof (cases "take_line a")
    case None
    with take_line_None[of a] show ?thesis by (simp add: split_lines.simps[of a])
  next
    case (Some lr)
    with 1[of lr "fst lr" "snd lr"] show ?thesis by (simp add: split_lines.simps[of a] split_beta Let_def)
  qed
qed


subsection \<open>Definitions\<close>

definition kMaxLineLength :: nat where
  "kMaxLineLength = 64 * 1024"

definition kReadChunk :: nat where
  "kReadChunk = 4096"

text \<open>
  \<open>cn_out\<close> is what the kernel took from the writes so far; \<open>cn_count\<close> counts the lines handled,
  and picks the answers the next one meets.
\<close>

record connection =
  cn_inbuf :: string
  cn_session :: session
  cn_out :: string
  cn_count :: nat

type_synonym conn_env = "nat \<Rightarrow> line_io \<times> write_ans list"

definition newConnection :: connection where
  "newConnection = \<lparr>cn_inbuf = [], cn_session = newSession, cn_out = [], cn_count = 0\<rparr>"

datatype ReadResult = Data string | Timeout | Closed | Error

text \<open>The answers of \<open>poll\<close> (\<^const>\<open>None\<close>: it timed out) and of \<open>read\<close>.\<close>

datatype sys_ans = SysOk | SysEintr | SysErr

definition readMore :: "sys_ans option \<Rightarrow> sys_ans \<Rightarrow> string \<Rightarrow> ReadResult" where
  "readMore pollAns readAns bytes =
     (case pollAns of
        Some SysEintr \<Rightarrow> Timeout
      | Some SysErr \<Rightarrow> Error
      | None \<Rightarrow> Timeout
      | Some SysOk \<Rightarrow>
          (case readAns of
             SysEintr \<Rightarrow> Timeout
           | SysErr \<Rightarrow> Error
           | SysOk \<Rightarrow> if bytes = [] then Closed else Data (take kReadChunk bytes)))"

text \<open>How the connection stands: open, returned from \<open>run\<close>, or left by an exception.\<close>

datatype conn_state = Open | Returned | Thrown syscall_error

definition conn_write :: "write_ans list \<Rightarrow> string \<Rightarrow> connection \<Rightarrow> bool \<times> connection" where
  "conn_write as data c = (let (sent, ok) = write_loop as data in (ok, c\<lparr>cn_out := cn_out c @ sent\<rparr>))"

text \<open>The inner loop of \<open>run\<close>.\<close>

function conn_lines ::
  "(string \<Rightarrow> u64) \<Rightarrow> conn_env \<Rightarrow> connection \<Rightarrow> store \<Rightarrow> conn_state \<times> connection \<times> store" where
  "conn_lines hash env c s =
     (case take_line (cn_inbuf c) of
        None \<Rightarrow> (Open, c, s)
      | Some (line, rest) \<Rightarrow>
          (case handleLine hash (fst (env (cn_count c))) line (cn_session c) s of
             (Inl e, se, s') \<Rightarrow> (Thrown e, c\<lparr>cn_inbuf := rest, cn_session := se\<rparr>, s')
           | (Inr (response, quit), se, s') \<Rightarrow>
               (case conn_write (snd (env (cn_count c))) response
                       (c\<lparr>cn_inbuf := rest, cn_session := se, cn_count := cn_count c + 1\<rparr>) of
                  (False, c') \<Rightarrow> (Returned, c', s')
                | (True, c') \<Rightarrow> if quit then (Returned, c', s') else conn_lines hash env c' s')))"
  by auto
termination
  by (relation "measure (\<lambda>(hash, env, c, s). length (cn_inbuf c))")
    (auto simp: conn_write_def split_beta Let_def dest!: take_line_shorter)

declare conn_lines.simps [simp del]

record conn_input =
  ci_shuttingDown :: bool
  ci_writes :: "write_ans list"
  ci_read :: ReadResult

fun conn_run ::
  "(string \<Rightarrow> u64) \<Rightarrow> conn_env \<Rightarrow> conn_input list \<Rightarrow> connection \<Rightarrow> store \<Rightarrow> conn_state \<times> connection \<times> store" where
  "conn_run hash env [] c s = (Open, c, s)"
| "conn_run hash env (i # is) c s =
     (case conn_lines hash env c s of
        (Open, c', s') \<Rightarrow>
          if length (cn_inbuf c') > kMaxLineLength then
            (Returned, snd (conn_write (ci_writes i) (''-ERR line too long'' @ eol) c'), s')
          else if ci_shuttingDown i then
            (Returned, snd (conn_write (ci_writes i) (''-ERR server shutting down'' @ eol) c'), s')
          else (case ci_read i of
                  Closed \<Rightarrow> (Returned, c', s')
                | Error \<Rightarrow> (Returned, c', s')
                | Timeout \<Rightarrow> conn_run hash env is c' s'
                | Data bytes \<Rightarrow> conn_run hash env is (c'\<lparr>cn_inbuf := cn_inbuf c' @ bytes\<rparr>) s')
      | (st, c', s') \<Rightarrow> (st, c', s'))"


subsection \<open>Replies in order, whatever the chunks\<close>

fun with_env :: "conn_env \<Rightarrow> nat \<Rightarrow> string list \<Rightarrow> (line_io \<times> string) list" where
  "with_env env n [] = []"
| "with_env env n (l # ls) = (fst (env n), l) # with_env env (n + 1) ls"

text \<open>No line threw or asked to quit.\<close>

definition all_plain :: "line_result list \<Rightarrow> bool" where
  "all_plain rs \<longleftrightarrow> (\<forall>r \<in> set rs. \<exists>x. r = Inr (x, False))"

definition replies :: "line_result list \<Rightarrow> string" where
  "replies rs = concat (map (\<lambda>r. case r of Inl e \<Rightarrow> [] | Inr x \<Rightarrow> fst x) rs)"

definition writes_fine :: "conn_env \<Rightarrow> bool" where
  "writes_fine env \<longleftrightarrow> (\<forall>n. WErr \<notin> set (snd (env n)))"

lemma with_env_append: "with_env env n (xs @ ys) = with_env env n xs @ with_env env (n + length xs) ys"
  by (induction xs arbitrary: n) simp_all

lemma replies_simps [simp]:
  "replies [] = []" "replies (Inr x # rs) = fst x @ replies rs" "replies (xs @ ys) = replies xs @ replies ys"
  by (simp_all add: replies_def)

lemma all_plain_simps [simp]:
  "all_plain []" "all_plain (Inr (x, q) # rs) \<longleftrightarrow> \<not> q \<and> all_plain rs" "\<not> all_plain (Inl e # rs)"
  "all_plain (xs @ ys) \<longleftrightarrow> all_plain xs \<and> all_plain ys"
  by (auto simp: all_plain_def)

lemma handleLines_append:
  assumes "handleLines hash (xs @ ys) se s = (rs, se', s')" and "all_plain rs"
  shows "\<exists>rs1 rs2 se1 s1. handleLines hash xs se s = (rs1, se1, s1) \<and> handleLines hash ys se1 s1 = (rs2, se', s') \<and>
    rs = rs1 @ rs2 \<and> length rs1 = length xs"
  using assms
proof (induction xs arbitrary: se s rs)
  case (Cons x xs)
  obtain io line where x: "x = (io, line)" by fastforce
  obtain r se1 s1 where h: "handleLine hash io line se s = (r, se1, s1)" using prod_cases3 by blast
  obtain rs1 se2 s2 where t: "handleLines hash (xs @ ys) se1 s1 = (rs1, se2, s2)" using prod_cases3 by blast
  have "\<exists>z. r = Inr z" using Cons.prems x h by (cases r) auto
  then obtain z where r: "r = Inr z" by blast
  have t': "handleLines hash (xs @ ys) se1 s1 = (rs1, se', s')" and rs: "rs = Inr z # rs1"
    using Cons.prems(1) x h t r by simp_all
  have "all_plain rs1" using Cons.prems(2) rs by (cases z) simp
  from Cons.IH[OF t' this] h r rs x show ?case by fastforce
qed simp

lemma conn_lines_replies:
  assumes "writes_fine env"
    and "handleLines hash (with_env env (cn_count c) (fst (split_lines (cn_inbuf c)))) (cn_session c) s = (rs, se', s')"
    and "all_plain rs"
  shows "conn_lines hash env c s =
    (Open, c\<lparr>cn_inbuf := snd (split_lines (cn_inbuf c)), cn_session := se', cn_out := cn_out c @ replies rs,
             cn_count := cn_count c + length rs\<rparr>, s')"
  using assms(2,3)
proof (induction "length (cn_inbuf c)" arbitrary: c s rs rule: less_induct)
  case less
  show ?case
  proof (cases "take_line (cn_inbuf c)")
    case None
    then have "split_lines (cn_inbuf c) = ([], cn_inbuf c)" by (simp add: split_lines.simps[of "cn_inbuf c"])
    moreover from this less.prems(1) have "rs = []" "se' = cn_session c" "s' = s" by simp_all
    ultimately show ?thesis using None by (simp add: conn_lines.simps[of hash env c s])
  next
    case (Some lr)
    obtain line rest where lr: "lr = (line, rest)" by fastforce
    let ?n = "cn_count c"
    have sl: "split_lines (cn_inbuf c) = (line # fst (split_lines rest), snd (split_lines rest))"
      using Some lr by (simp add: split_lines.simps[of "cn_inbuf c"] split_beta Let_def)
    obtain r se1 s1 where h: "handleLine hash (fst (env ?n)) line (cn_session c) s = (r, se1, s1)"
      using prod_cases3 by blast
    obtain rs1 se2 s2 where t: "handleLines hash (with_env env (?n + 1) (fst (split_lines rest))) se1 s1 = (rs1, se2, s2)"
      using prod_cases3 by blast
    have "\<exists>x. r = Inr (x, False)" using less.prems sl h t by (cases r) (auto simp: split_beta)
    then obtain x where r: "r = Inr (x, False)" by blast
    have rs: "rs = Inr (x, False) # rs1" and t': "se2 = se'" "s2 = s'" using less.prems(1) sl h t r by simp_all
    let ?c = "c\<lparr>cn_inbuf := rest, cn_session := se1, cn_out := cn_out c @ x, cn_count := ?n + 1\<rparr>"
    have w: "conn_write (snd (env ?n)) x (c\<lparr>cn_inbuf := rest, cn_session := se1, cn_count := ?n + 1\<rparr>) = (True, ?c)"
      using assms(1) write_loop_no_error[of "snd (env ?n)" x] by (simp add: writes_fine_def conn_write_def)
    have "conn_lines hash env c s = conn_lines hash env ?c s1"
      using Some lr h r w by (simp add: conn_lines.simps[of hash env c s])
    also have "\<dots> = (Open, ?c\<lparr>cn_inbuf := snd (split_lines (cn_inbuf ?c)), cn_session := se',
        cn_out := cn_out ?c @ replies rs1, cn_count := cn_count ?c + length rs1\<rparr>, s')"
      using take_line_shorter[of "cn_inbuf c" line rest] Some lr t t' less.prems(2) rs
      by (intro less.hyps) simp_all
    finally show ?thesis using sl rs by simp
  qed
qed

definition data_in :: "string \<Rightarrow> conn_input" where
  "data_in d = \<lparr>ci_shuttingDown = False, ci_writes = [], ci_read = Data d\<rparr>"

definition idle_in :: conn_input where
  "idle_in = \<lparr>ci_shuttingDown = False, ci_writes = [], ci_read = Timeout\<rparr>"

lemma conn_run_replies:
  assumes "writes_fine env"
    and "\<forall>k. length (snd (split_lines (cn_inbuf c @ concat (take k ds)))) \<le> kMaxLineLength"
    and "handleLines hash (with_env env (cn_count c) (fst (split_lines (cn_inbuf c @ concat ds)))) (cn_session c) s
      = (rs, se', s')"
    and "all_plain rs"
  shows "conn_run hash env (map data_in ds @ [idle_in]) c s =
    (Open, c\<lparr>cn_inbuf := snd (split_lines (cn_inbuf c @ concat ds)), cn_session := se', cn_out := cn_out c @ replies rs,
             cn_count := cn_count c + length rs\<rparr>, s')"
  using assms(2-4)
proof (induction ds arbitrary: c s rs)
  case Nil
  have "length (snd (split_lines (cn_inbuf c))) \<le> kMaxLineLength" using Nil.prems(1) by simp
  with conn_lines_replies[OF assms(1), of hash c s rs se' s'] Nil.prems show ?case by (simp add: idle_in_def)
next
  case (Cons d ds)
  let ?r = "snd (split_lines (cn_inbuf c))"
  have split: "split_lines (cn_inbuf c @ d @ x) =
      (fst (split_lines (cn_inbuf c)) @ fst (split_lines (?r @ d @ x)), snd (split_lines (?r @ d @ x)))" for x
    by (rule split_lines_append)
  obtain rs1 rs2 se1 s1 where
    h1: "handleLines hash (with_env env (cn_count c) (fst (split_lines (cn_inbuf c)))) (cn_session c) s = (rs1, se1, s1)"
    and h2: "handleLines hash (with_env env (cn_count c + length (fst (split_lines (cn_inbuf c))))
        (fst (split_lines (?r @ d @ concat ds)))) se1 s1 = (rs2, se', s')"
    and rs: "rs = rs1 @ rs2" and "length rs1 = length (with_env env (cn_count c) (fst (split_lines (cn_inbuf c))))"
    using handleLines_append[of hash "with_env env (cn_count c) (fst (split_lines (cn_inbuf c)))"
        "with_env env (cn_count c + length (fst (split_lines (cn_inbuf c)))) (fst (split_lines (?r @ d @ concat ds)))"
        "cn_session c" s rs se' s'] Cons.prems(2,3) split[of "concat ds"]
    by (auto simp: with_env_append)
  moreover have "length (with_env env n ls) = length ls" for n ls by (induction ls arbitrary: n) simp_all
  ultimately have n: "length rs1 = length (fst (split_lines (cn_inbuf c)))" by simp
  have plain: "all_plain rs1" "all_plain rs2" using Cons.prems(3) rs by simp_all
  let ?c = "c\<lparr>cn_session := se1, cn_out := cn_out c @ replies rs1, cn_count := cn_count c + length rs1, cn_inbuf := ?r @ d\<rparr>"
  have len: "length ?r \<le> kMaxLineLength" using Cons.prems(1)[rule_format, of 0] by simp
  have "conn_run hash env (map data_in (d # ds) @ [idle_in]) c s = conn_run hash env (map data_in ds @ [idle_in]) ?c s1"
    using conn_lines_replies[OF assms(1) h1 plain(1)] len by (simp add: data_in_def)
  also have "\<dots> = (Open, ?c\<lparr>cn_inbuf := snd (split_lines (cn_inbuf ?c @ concat ds)), cn_session := se',
      cn_out := cn_out ?c @ replies rs2, cn_count := cn_count ?c + length rs2\<rparr>, s')"
  proof (rule Cons.IH)
    show "\<forall>k. length (snd (split_lines (cn_inbuf ?c @ concat (take k ds)))) \<le> kMaxLineLength"
    proof
      fix k
      from Cons.prems(1)[rule_format, of "Suc k"] split[of "concat (take k ds)"]
      show "length (snd (split_lines (cn_inbuf ?c @ concat (take k ds)))) \<le> kMaxLineLength" by simp
    qed
  qed (use h2 n plain in simp_all)
  finally show ?case using rs split[of "concat ds"] by (simp add: add.assoc)
qed


lemma split_lines_length: "length (snd (split_lines a)) \<le> length a"
proof (induction a rule: split_lines.induct)
  case (1 a)
  show ?case
  proof (cases "take_line a")
    case None
    then show ?thesis by (simp add: split_lines.simps[of a])
  next
    case (Some lr)
    with 1[of lr "fst lr" "snd lr"] take_line_shorter[of a "fst lr" "snd lr"] show ?thesis
      by (simp add: split_lines.simps[of a] split_beta Let_def)
  qed
qed

lemma length_concat_take: "length (concat (take k ds)) \<le> length (concat ds)"
  by (metis append_take_drop_id concat_append le_add1 length_append)



subsection \<open>The input buffer\<close>

lemma readMore_chunk: "readMore pollAns readAns bytes = Data d \<Longrightarrow> d \<noteq> [] \<and> length d \<le> kReadChunk"
  by (auto simp: readMore_def kReadChunk_def split: option.splits sys_ans.splits if_splits)

lemma conn_run_bounded:
  assumes "conn_run hash env is c s = (Open, c', s')" and "length (cn_inbuf c) \<le> kMaxLineLength + kReadChunk"
    and "\<forall>i \<in> set is. \<forall>d. ci_read i = Data d \<longrightarrow> length d \<le> kReadChunk"
  shows "length (cn_inbuf c') \<le> kMaxLineLength + kReadChunk"
  using assms
proof (induction "is" arbitrary: c s)
  case (Cons i "is")
  obtain st c1 s1 where l: "conn_lines hash env c s = (st, c1, s1)" using prod_cases3 by blast
  from Cons.prems(1) l have st: "st = Open" "length (cn_inbuf c1) \<le> kMaxLineLength"
    by (auto split: conn_state.splits if_splits)
  show ?case
  proof (cases "ci_read i")
    case (Data d)
    then have "length d \<le> kReadChunk" using Cons.prems(3) by simp
    with Data st l Cons.prems Cons.IH[of "c1\<lparr>cn_inbuf := cn_inbuf c1 @ d\<rparr>" s1] show ?thesis by (simp split: if_splits)
  next
    case Timeout
    with st l Cons.prems Cons.IH[of c1 s1] show ?thesis by (simp split: if_splits)
  qed (use st l Cons.prems(1) in \<open>simp_all split: if_splits\<close>)
qed simp

end
