(* ===== verification/Poller.thy ===== *)
theory Poller
  imports Prelude
begin

text \<open>
  The readiness pollers, \<open>src/src/net/poller.cpp\<close>.  \<open>PollPoller\<close> keeps an array of descriptors
  with an index into it, and removes an entry by moving the last one into its slot;
  \<open>EpollPoller\<close> leaves the set to the kernel, whose answers to \<open>epoll_ctl\<close> and \<open>epoll_wait\<close> are
  arguments.  The interface \<open>Poller\<close> is the locale \<open>readiness_set\<close>.  Shown here: both backends
  implement it, the array and the index of the first stay consistent, and its wait reports
  every ready descriptor once.
\<close>

subsection \<open>Definitions\<close>

record ReadyEvent =
  ev_fd :: int
  ev_readable :: bool
  ev_writable :: bool
  ev_closed :: bool

text \<open>The bits of \<open><poll.h>\<close> and \<open><sys/epoll.h>\<close>.\<close>

definition POLLIN :: u16 where "POLLIN = 1"
definition POLLOUT :: u16 where "POLLOUT = 4"
definition POLLERR :: u16 where "POLLERR = 8"
definition POLLHUP :: u16 where "POLLHUP = 16"
definition POLLNVAL :: u16 where "POLLNVAL = 32"
definition EPOLLIN :: u32 where "EPOLLIN = 1"
definition EPOLLOUT :: u32 where "EPOLLOUT = 4"
definition EPOLLERR :: u32 where "EPOLLERR = 8"
definition EPOLLHUP :: u32 where "EPOLLHUP = 16"
definition EPOLLRDHUP :: u32 where "EPOLLRDHUP = 8192"

lemmas poll_bits = POLLIN_def POLLOUT_def POLLERR_def POLLHUP_def POLLNVAL_def
lemmas epoll_bits = EPOLLIN_def EPOLLOUT_def EPOLLERR_def EPOLLHUP_def EPOLLRDHUP_def

record pollfd =
  pf_fd :: int
  pf_events :: u16
  pf_revents :: u16

record poll_poller =
  pp_fds :: "pollfd list"
  pp_index :: "(int, nat) umap"

definition poll_eventsFor :: "bool \<Rightarrow> bool \<Rightarrow> u16" where
  "poll_eventsFor wantRead wantWrite =
     (let events = 0;
          events = (if wantRead then events OR POLLIN else events);
          events = (if wantWrite then events OR POLLOUT else events)
      in events)"

definition newPollPoller :: poll_poller where
  "newPollPoller = \<lparr>pp_fds = [], pp_index = []\<rparr>"

definition poll_add :: "int \<Rightarrow> bool \<Rightarrow> bool \<Rightarrow> poll_poller \<Rightarrow> bool \<times> poll_poller" where
  "poll_add fd wantRead wantWrite p =
     (if map_of (pp_index p) fd \<noteq> None then (False, p)
      else let entry = \<lparr>pf_fd = fd, pf_events = poll_eventsFor wantRead wantWrite, pf_revents = 0\<rparr>
        in (True, p\<lparr>pp_index := AList.update fd (length (pp_fds p)) (pp_index p), pp_fds := pp_fds p @ [entry]\<rparr>))"

definition poll_modify :: "int \<Rightarrow> bool \<Rightarrow> bool \<Rightarrow> poll_poller \<Rightarrow> bool \<times> poll_poller" where
  "poll_modify fd wantRead wantWrite p =
     (case map_of (pp_index p) fd of
        None \<Rightarrow> (False, p)
      | Some slot \<Rightarrow>
          (True, p\<lparr>pp_fds := (pp_fds p)[slot := (pp_fds p ! slot)\<lparr>pf_events := poll_eventsFor wantRead wantWrite\<rparr>]\<rparr>))"

definition poll_remove :: "int \<Rightarrow> poll_poller \<Rightarrow> bool \<times> poll_poller" where
  "poll_remove fd p =
     (case map_of (pp_index p) fd of
        None \<Rightarrow> (False, p)
      | Some slot \<Rightarrow>
          (let last = length (pp_fds p) - 1;
               p' = (if slot \<noteq> last
                     then p\<lparr>pp_fds := (pp_fds p)[slot := pp_fds p ! last],
                            pp_index := AList.update (pf_fd (pp_fds p ! last)) slot (pp_index p)\<rparr>
                     else p)
           in (True, p'\<lparr>pp_fds := butlast (pp_fds p'), pp_index := AList.delete fd (pp_index p')\<rparr>)))"

text \<open>The answer of \<open>poll\<close>: an error, or the number of ready descriptors with their events by slot.\<close>

datatype poll_ans = PollEintr | PollErr | PollReady nat "u16 list"

definition poll_event :: "pollfd \<Rightarrow> ReadyEvent" where
  "poll_event e =
     \<lparr>ev_fd = pf_fd e, ev_readable = (pf_revents e AND POLLIN \<noteq> 0), ev_writable = (pf_revents e AND POLLOUT \<noteq> 0),
      ev_closed = (pf_revents e AND (POLLHUP OR POLLERR OR POLLNVAL) \<noteq> 0)\<rparr>"

text \<open>The loop that collects events until it has \<open>ready\<close> of them.\<close>

fun collect_ready :: "nat \<Rightarrow> ReadyEvent list \<Rightarrow> pollfd list \<Rightarrow> ReadyEvent list" where
  "collect_ready ready out [] = out"
| "collect_ready ready out (e # es) =
     (if pf_revents e = 0 then collect_ready ready out es
      else let out' = out @ [poll_event e]
        in if length out' = ready then out' else collect_ready ready out' es)"

definition poll_wait :: "poll_ans \<Rightarrow> poll_poller \<Rightarrow> (int \<times> ReadyEvent list) \<times> poll_poller" where
  "poll_wait ans p =
     (if pp_fds p = [] then ((0, []), p)
      else case ans of
        PollEintr \<Rightarrow> ((0, []), p)
      | PollErr \<Rightarrow> ((-1, []), p)
      | PollReady ready revents \<Rightarrow>
          (let p' = p\<lparr>pp_fds := map2 (\<lambda>e r. e\<lparr>pf_revents := r\<rparr>) (pp_fds p) revents\<rparr>
           in if ready = 0 then ((0, []), p')
              else let out = collect_ready ready [] (pp_fds p') in ((int (length out), out), p')))"

text \<open>
  \<open>ep_told\<close> is the kernel's side of \<open>epollFd_\<close>, the interests it holds; \<open>ep_calls\<close> counts the
  calls of \<open>epoll_ctl\<close> and picks the answer \<open>ctl\<close> of the next one.
\<close>

record epoll_poller =
  ep_registered :: nat
  ep_told :: "(int, u32) umap"
  ep_calls :: nat

definition newEpollPoller :: "bool \<Rightarrow> epoll_poller option" where
  "newEpollPoller createOk = (if createOk then Some \<lparr>ep_registered = 0, ep_told = [], ep_calls = 0\<rparr> else None)"

definition epoll_eventsFor :: "bool \<Rightarrow> bool \<Rightarrow> u32" where
  "epoll_eventsFor wantRead wantWrite =
     (let events = 0;
          events = (if wantRead then events OR (EPOLLIN OR EPOLLRDHUP) else events);
          events = (if wantWrite then events OR EPOLLOUT else events)
      in events)"

text \<open>
  \<open>epoll_ctl\<close>: adding fails where the descriptor is there already, modifying and deleting where
  it is not, and each for reasons of the kernel's own.  An \<open>EPOLL_CTL_DEL\<close> has no events.
\<close>

datatype ctl_op = CtlAdd u32 | CtlMod u32 | CtlDel

definition epoll_ctl :: "(nat \<Rightarrow> bool) \<Rightarrow> ctl_op \<Rightarrow> int \<Rightarrow> epoll_poller \<Rightarrow> bool \<times> epoll_poller" where
  "epoll_ctl ctl op fd p =
     (let p' = p\<lparr>ep_calls := ep_calls p + 1\<rparr>
      in if \<not> ctl (ep_calls p) then (False, p')
         else case op of
           CtlAdd events \<Rightarrow>
             if map_of (ep_told p) fd = None then (True, p'\<lparr>ep_told := AList.update fd events (ep_told p)\<rparr>) else (False, p')
         | CtlMod events \<Rightarrow>
             if map_of (ep_told p) fd \<noteq> None then (True, p'\<lparr>ep_told := AList.update fd events (ep_told p)\<rparr>) else (False, p')
         | CtlDel \<Rightarrow>
             if map_of (ep_told p) fd \<noteq> None then (True, p'\<lparr>ep_told := AList.delete fd (ep_told p)\<rparr>) else (False, p'))"

definition epoll_add :: "(nat \<Rightarrow> bool) \<Rightarrow> int \<Rightarrow> bool \<Rightarrow> bool \<Rightarrow> epoll_poller \<Rightarrow> bool \<times> epoll_poller" where
  "epoll_add ctl fd wantRead wantWrite p =
     (let events = epoll_eventsFor wantRead wantWrite
      in case epoll_ctl ctl (CtlAdd events) fd p of
           (False, p') \<Rightarrow> (False, p')
         | (True, p') \<Rightarrow> (True, p'\<lparr>ep_registered := ep_registered p' + 1\<rparr>))"

definition epoll_modify :: "(nat \<Rightarrow> bool) \<Rightarrow> int \<Rightarrow> bool \<Rightarrow> bool \<Rightarrow> epoll_poller \<Rightarrow> bool \<times> epoll_poller" where
  "epoll_modify ctl fd wantRead wantWrite p =
     (let events = epoll_eventsFor wantRead wantWrite in epoll_ctl ctl (CtlMod events) fd p)"

definition epoll_remove :: "(nat \<Rightarrow> bool) \<Rightarrow> int \<Rightarrow> epoll_poller \<Rightarrow> bool \<times> epoll_poller" where
  "epoll_remove ctl fd p =
     (case epoll_ctl ctl CtlDel fd p of
        (False, p') \<Rightarrow> (False, p')
      | (True, p') \<Rightarrow>
          (True, if 0 < ep_registered p' then p'\<lparr>ep_registered := ep_registered p' - 1\<rparr> else p'))"

definition epoll_event :: "int \<times> u32 \<Rightarrow> ReadyEvent" where
  "epoll_event source =
     (let (fd, events) = source;
          event = \<lparr>ev_fd = fd, ev_readable = (events AND EPOLLIN \<noteq> 0), ev_writable = (events AND EPOLLOUT \<noteq> 0),
                   ev_closed = (events AND (EPOLLHUP OR EPOLLERR) \<noteq> 0)\<rparr>
      in if events AND EPOLLRDHUP \<noteq> 0 then event\<lparr>ev_readable := True\<rparr> else event)"

text \<open>The answer of \<open>epoll_wait\<close>: an error, or the ready descriptors with their events.\<close>

datatype epoll_ans = EpollEintr | EpollErr | EpollReady "(int \<times> u32) list"

definition epoll_wait :: "epoll_ans \<Rightarrow> int \<times> ReadyEvent list" where
  "epoll_wait ans =
     (case ans of
        EpollEintr \<Rightarrow> (0, [])
      | EpollErr \<Rightarrow> (-1, [])
      | EpollReady events \<Rightarrow> (int (length events), map epoll_event events))"

datatype PollerKind = PkAuto | PkPoll | PkEpoll

definition parsePollerKind :: "string \<Rightarrow> PollerKind option" where
  "parsePollerKind text =
     (if text = ''auto'' then Some PkAuto
      else if text = ''poll'' then Some PkPoll
      else if text = ''epoll'' then Some PkEpoll
      else None)"

fun pollerKindName :: "PollerKind \<Rightarrow> string" where
  "pollerKindName PkAuto = ''auto''"
| "pollerKindName PkPoll = ''poll''"
| "pollerKindName PkEpoll = ''epoll''"

lemma pollerKind_names: "parsePollerKind (pollerKindName k) = Some k"
  by (cases k) (simp_all add: parsePollerKind_def)

text \<open>The backend of \<open>makePoller\<close>; \<open>linux\<close> is the preprocessor's choice, \<^const>\<open>None\<close> the exception.\<close>

datatype poller = PollPoller poll_poller | EpollPoller epoll_poller

definition epollAvailable :: "bool \<Rightarrow> bool" where
  "epollAvailable linux = linux"

definition makePoller :: "bool \<Rightarrow> bool \<Rightarrow> PollerKind \<Rightarrow> poller option" where
  "makePoller linux createOk kind =
     (if kind = PkEpoll \<and> \<not> epollAvailable linux then None
      else if linux \<and> (kind = PkAuto \<or> kind = PkEpoll) then map_option EpollPoller (newEpollPoller createOk)
      else Some (PollPoller newPollPoller))"

fun poller_add :: "(nat \<Rightarrow> bool) \<Rightarrow> int \<Rightarrow> bool \<Rightarrow> bool \<Rightarrow> poller \<Rightarrow> bool \<times> poller" where
  "poller_add ctl fd r w (PollPoller p) = map_prod id PollPoller (poll_add fd r w p)"
| "poller_add ctl fd r w (EpollPoller p) = map_prod id EpollPoller (epoll_add ctl fd r w p)"

fun poller_modify :: "(nat \<Rightarrow> bool) \<Rightarrow> int \<Rightarrow> bool \<Rightarrow> bool \<Rightarrow> poller \<Rightarrow> bool \<times> poller" where
  "poller_modify ctl fd r w (PollPoller p) = map_prod id PollPoller (poll_modify fd r w p)"
| "poller_modify ctl fd r w (EpollPoller p) = map_prod id EpollPoller (epoll_modify ctl fd r w p)"

fun poller_remove :: "(nat \<Rightarrow> bool) \<Rightarrow> int \<Rightarrow> poller \<Rightarrow> bool \<times> poller" where
  "poller_remove ctl fd (PollPoller p) = map_prod id PollPoller (poll_remove fd p)"
| "poller_remove ctl fd (EpollPoller p) = map_prod id EpollPoller (epoll_remove ctl fd p)"

fun poller_size :: "poller \<Rightarrow> nat" where
  "poller_size (PollPoller p) = length (pp_fds p)"
| "poller_size (EpollPoller p) = ep_registered p"

fun poller_name :: "poller \<Rightarrow> string" where
  "poller_name (PollPoller p) = ''poll''"
| "poller_name (EpollPoller p) = ''epoll''"


subsection \<open>The interface\<close>

text \<open>What the event loop relies on: a poller is a map from descriptors to the two wishes.\<close>

locale readiness_set =
  fixes inv :: "'p \<Rightarrow> bool"
    and told :: "'p \<Rightarrow> int \<rightharpoonup> bool \<times> bool"
    and add :: "int \<Rightarrow> bool \<Rightarrow> bool \<Rightarrow> 'p \<Rightarrow> bool \<times> 'p"
    and modify :: "int \<Rightarrow> bool \<Rightarrow> bool \<Rightarrow> 'p \<Rightarrow> bool \<times> 'p"
    and remove :: "int \<Rightarrow> 'p \<Rightarrow> bool \<times> 'p"
  assumes add_inv: "inv p \<Longrightarrow> inv (snd (add fd r w p))"
    and add_told: "inv p \<Longrightarrow> fst (add fd r w p) = (told p fd = None) \<and>
      told (snd (add fd r w p)) = (if told p fd = None then (told p)(fd \<mapsto> (r, w)) else told p)"
    and modify_inv: "inv p \<Longrightarrow> inv (snd (modify fd r w p))"
    and modify_told: "inv p \<Longrightarrow> fst (modify fd r w p) = (told p fd \<noteq> None) \<and>
      told (snd (modify fd r w p)) = (if told p fd = None then told p else (told p)(fd \<mapsto> (r, w)))"
    and remove_inv: "inv p \<Longrightarrow> inv (snd (remove fd p))"
    and remove_told: "inv p \<Longrightarrow> fst (remove fd p) = (told p fd \<noteq> None) \<and> told (snd (remove fd p)) = (told p)(fd := None)"

datatype poll_op = PollAdd int bool bool | PollModify int bool bool | PollRemove int

text \<open>A sequence of calls on a poller, and the same calls on a map.\<close>

fun calls_run ::
  "(int \<Rightarrow> bool \<Rightarrow> bool \<Rightarrow> 'p \<Rightarrow> bool \<times> 'p) \<Rightarrow> (int \<Rightarrow> bool \<Rightarrow> bool \<Rightarrow> 'p \<Rightarrow> bool \<times> 'p) \<Rightarrow> (int \<Rightarrow> 'p \<Rightarrow> bool \<times> 'p) \<Rightarrow>
   poll_op list \<Rightarrow> 'p \<Rightarrow> bool list \<times> 'p" where
  "calls_run add modify remove [] p = ([], p)"
| "calls_run add modify remove (x # xs) p =
     (let (b, p') = (case x of PollAdd fd r w \<Rightarrow> add fd r w p | PollModify fd r w \<Rightarrow> modify fd r w p
                      | PollRemove fd \<Rightarrow> remove fd p);
          (bs, p'') = calls_run add modify remove xs p'
      in (b # bs, p''))"

fun wishes_run :: "poll_op list \<Rightarrow> (int \<rightharpoonup> bool \<times> bool) \<Rightarrow> bool list \<times> (int \<rightharpoonup> bool \<times> bool)" where
  "wishes_run [] f = ([], f)"
| "wishes_run (x # xs) f =
     (let (b, f') = (case x of
            PollAdd fd r w \<Rightarrow> if f fd = None then (True, f(fd \<mapsto> (r, w))) else (False, f)
          | PollModify fd r w \<Rightarrow> if f fd = None then (False, f) else (True, f(fd \<mapsto> (r, w)))
          | PollRemove fd \<Rightarrow> (f fd \<noteq> None, f(fd := None)));
          (bs, f'') = wishes_run xs f'
      in (b # bs, f''))"

context readiness_set
begin

lemma told_exact:
  "inv p \<Longrightarrow> calls_run add modify remove xs p = (bs, p') \<Longrightarrow> inv p' \<and> wishes_run xs (told p) = (bs, told p')"
proof (induction xs arbitrary: p bs)
  case (Cons x xs)
  let ?s = "case x of PollAdd fd r w \<Rightarrow> add fd r w p | PollModify fd r w \<Rightarrow> modify fd r w p | PollRemove fd \<Rightarrow> remove fd p"
  obtain b p1 where s: "?s = (b, p1)" by fastforce
  obtain bs1 p2 where r: "calls_run add modify remove xs p1 = (bs1, p2)" by fastforce
  have "inv p1"
    using s add_inv[OF Cons.prems(1)] modify_inv[OF Cons.prems(1)] remove_inv[OF Cons.prems(1)]
    by (cases x; simp; metis snd_conv)
  moreover have "(case x of
            PollAdd fd r w \<Rightarrow> if told p fd = None then (True, (told p)(fd \<mapsto> (r, w))) else (False, told p)
          | PollModify fd r w \<Rightarrow> if told p fd = None then (False, told p) else (True, (told p)(fd \<mapsto> (r, w)))
          | PollRemove fd \<Rightarrow> (told p fd \<noteq> None, (told p)(fd := None))) = (b, told p1)"
    using s add_told[OF Cons.prems(1)] modify_told[OF Cons.prems(1)] remove_told[OF Cons.prems(1)]
    by (cases x) (auto simp: prod_eq_iff)
  ultimately show ?case using Cons.IH[of p1 bs1] Cons.prems(2) s r by simp
qed simp

text \<open>A call on one descriptor leaves the others alone.\<close>

lemma told_other:
  assumes "inv p" and "k \<noteq> fd"
  shows "told (snd (add fd r w p)) k = told p k" and "told (snd (modify fd r w p)) k = told p k"
    and "told (snd (remove fd p)) k = told p k"
  using add_told[OF assms(1), of fd r w] modify_told[OF assms(1), of fd r w] remove_told[OF assms(1), of fd] assms(2)
  by simp_all

end


subsection \<open>The array and its index\<close>

text \<open>Slot and descriptor point at each other.\<close>

definition pp_inv :: "poll_poller \<Rightarrow> bool" where
  "pp_inv p \<longleftrightarrow> um_wf (pp_index p) \<and>
     (\<forall>fd i. map_of (pp_index p) fd = Some i \<longleftrightarrow> i < length (pp_fds p) \<and> pf_fd (pp_fds p ! i) = fd)"

definition interest :: "poll_poller \<Rightarrow> int \<rightharpoonup> u16" where
  "interest p fd = map_option (\<lambda>i. pf_events (pp_fds p ! i)) (map_of (pp_index p) fd)"

lemma pp_inv_distinct:
  assumes "pp_inv p" and "i < length (pp_fds p)" and "j < length (pp_fds p)" and "pf_fd (pp_fds p ! i) = pf_fd (pp_fds p ! j)"
  shows "i = j"
proof -
  from assms have "map_of (pp_index p) (pf_fd (pp_fds p ! i)) = Some i" "map_of (pp_index p) (pf_fd (pp_fds p ! i)) = Some j"
    unfolding pp_inv_def by metis+
  then show ?thesis by simp
qed

lemma pp_inv_slot: "pp_inv p \<Longrightarrow> i < length (pp_fds p) \<Longrightarrow> map_of (pp_index p) (pf_fd (pp_fds p ! i)) = Some i"
  by (simp add: pp_inv_def)

lemma pp_inv_index: "pp_inv p \<Longrightarrow> map_of (pp_index p) fd = Some i \<Longrightarrow> i < length (pp_fds p) \<and> pf_fd (pp_fds p ! i) = fd"
  by (simp add: pp_inv_def)

lemma poll_add_spec:
  assumes "pp_inv p"
  shows "fst (poll_add fd r w p) \<longleftrightarrow> interest p fd = None" and "pp_inv (snd (poll_add fd r w p))"
    and "interest (snd (poll_add fd r w p)) =
      (if interest p fd = None then (interest p)(fd \<mapsto> poll_eventsFor r w) else interest p)"
proof -
  show "fst (poll_add fd r w p) \<longleftrightarrow> interest p fd = None" by (simp add: poll_add_def interest_def Let_def)
  show "pp_inv (snd (poll_add fd r w p))"
  proof (cases "map_of (pp_index p) fd")
    case None
    then have "pf_fd (pp_fds p ! i) \<noteq> fd" if "i < length (pp_fds p)" for i
      using pp_inv_slot[OF assms that] by auto
    with None assms show ?thesis
      by (auto simp: poll_add_def Let_def pp_inv_def nth_append less_Suc_eq)
  qed (use assms in \<open>simp add: poll_add_def\<close>)
  show "interest (snd (poll_add fd r w p)) =
      (if interest p fd = None then (interest p)(fd \<mapsto> poll_eventsFor r w) else interest p)"
  proof (cases "map_of (pp_index p) fd")
    case None
    show ?thesis
    proof
      fix k
      from None pp_inv_index[OF assms, of k] show "interest (snd (poll_add fd r w p)) k =
          (if interest p fd = None then (interest p)(fd \<mapsto> poll_eventsFor r w) else interest p) k"
        by (cases "map_of (pp_index p) k") (auto simp: poll_add_def interest_def Let_def nth_append)
    qed
  qed (simp add: poll_add_def interest_def)
qed

lemma poll_modify_spec:
  assumes "pp_inv p"
  shows "fst (poll_modify fd r w p) \<longleftrightarrow> interest p fd \<noteq> None" and "pp_inv (snd (poll_modify fd r w p))"
    and "interest (snd (poll_modify fd r w p)) =
      (if interest p fd = None then interest p else (interest p)(fd \<mapsto> poll_eventsFor r w))"
proof -
  show "fst (poll_modify fd r w p) \<longleftrightarrow> interest p fd \<noteq> None"
    by (auto simp: poll_modify_def interest_def split: option.split)
  show "pp_inv (snd (poll_modify fd r w p))"
    using assms pp_inv_index[OF assms, of fd]
    by (auto simp: poll_modify_def pp_inv_def nth_list_update split: option.split if_splits)
  show "interest (snd (poll_modify fd r w p)) =
      (if interest p fd = None then interest p else (interest p)(fd \<mapsto> poll_eventsFor r w))"
  proof
    fix k
    show "interest (snd (poll_modify fd r w p)) k =
        (if interest p fd = None then interest p else (interest p)(fd \<mapsto> poll_eventsFor r w)) k"
      using pp_inv_index[OF assms, of fd] pp_inv_index[OF assms, of k]
      by (cases "map_of (pp_index p) fd"; cases "map_of (pp_index p) k")
        (auto simp: poll_modify_def interest_def nth_list_update)
  qed
qed

text \<open>Removing by moving the last entry into the slot.\<close>

lemma swap_remove_inv:
  assumes "pp_inv p" and "map_of (pp_index p) fd = Some slot"
  defines "final \<equiv> length (pp_fds p) - 1"
  defines "p' \<equiv> snd (poll_remove fd p)"
  shows "length (pp_fds p') = final" and "slot \<le> final"
    and "\<And>i. i < final \<Longrightarrow> pp_fds p' ! i = (if i = slot then pp_fds p ! final else pp_fds p ! i)"
    and "map_of (pp_index p') =
      (if slot = final then (map_of (pp_index p))(fd := None)
       else (map_of (pp_index p))(pf_fd (pp_fds p ! final) \<mapsto> slot, fd := None))"
    and "um_wf (pp_index p')"
proof -
  have s: "slot < length (pp_fds p)" "pf_fd (pp_fds p ! slot) = fd" using pp_inv_index[OF assms(1,2)] by simp_all
  have wf: "um_wf (pp_index p)" using assms(1) by (simp add: pp_inv_def)
  show "slot \<le> final" using s by (simp add: final_def)
  show "length (pp_fds p') = final" "um_wf (pp_index p')"
    "map_of (pp_index p') = (if slot = final then (map_of (pp_index p))(fd := None)
       else (map_of (pp_index p))(pf_fd (pp_fds p ! final) \<mapsto> slot, fd := None))"
    using assms(2) wf by (simp_all add: p'_def poll_remove_def Let_def final_def)
  show "\<And>i. i < final \<Longrightarrow> pp_fds p' ! i = (if i = slot then pp_fds p ! final else pp_fds p ! i)"
    using assms(2) s by (auto simp: p'_def poll_remove_def Let_def final_def nth_butlast nth_list_update)
qed

lemma swap_remove_look:
  assumes "pp_inv p" and "map_of (pp_index p) fd = Some slot"
  defines "final \<equiv> length (pp_fds p) - 1"
  defines "p' \<equiv> snd (poll_remove fd p)"
  shows "map_of (pp_index p') k = (if k = fd then None
      else if slot \<noteq> final \<and> k = pf_fd (pp_fds p ! final) then Some slot else map_of (pp_index p) k)"
    and "i < final \<Longrightarrow> pf_fd (pp_fds p' ! i) = (if i = slot then pf_fd (pp_fds p ! final) else pf_fd (pp_fds p ! i))"
    and "slot \<noteq> final \<Longrightarrow> pf_fd (pp_fds p ! final) \<noteq> fd" and "final < length (pp_fds p)"
proof -
  note sr = swap_remove_inv[OF assms(1,2)]
  have s: "slot < length (pp_fds p)" "pf_fd (pp_fds p ! slot) = fd" using pp_inv_index[OF assms(1,2)] by simp_all
  then show last: "final < length (pp_fds p)" by (simp add: final_def)
  show "slot \<noteq> final \<Longrightarrow> pf_fd (pp_fds p ! final) \<noteq> fd"
    using pp_inv_distinct[OF assms(1) s(1) last] s(2) by auto
  show "map_of (pp_index p') k = (if k = fd then None
      else if slot \<noteq> final \<and> k = pf_fd (pp_fds p ! final) then Some slot else map_of (pp_index p) k)"
    using sr(4) by (auto simp: final_def p'_def)
  show "i < final \<Longrightarrow> pf_fd (pp_fds p' ! i) = (if i = slot then pf_fd (pp_fds p ! final) else pf_fd (pp_fds p ! i))"
    using sr(3)[of i] by (simp add: final_def p'_def)
qed

lemma swap_remove_index:
  assumes "pp_inv p" and "map_of (pp_index p) fd = Some slot"
  defines "final \<equiv> length (pp_fds p) - 1"
  defines "p' \<equiv> snd (poll_remove fd p)"
  shows "map_of (pp_index p') k = Some i \<longleftrightarrow> i < final \<and> pf_fd (pp_fds p' ! i) = k"
proof -
  note sr = swap_remove_inv(2)[OF assms(1,2), folded final_def]
  note look = swap_remove_look[OF assms(1,2), folded final_def p'_def]
  have s: "slot < length (pp_fds p)" "pf_fd (pp_fds p ! slot) = fd" using pp_inv_index[OF assms(1,2)] by simp_all
  show ?thesis
  proof
    assume l: "map_of (pp_index p') k = Some i"
    then have k: "k \<noteq> fd" using look(1)[of k] by auto
    show "i < final \<and> pf_fd (pp_fds p' ! i) = k"
    proof (cases "slot \<noteq> final \<and> k = pf_fd (pp_fds p ! final)")
      case True
      with l look(1)[of k] k sr look(2)[of slot] show ?thesis by simp
    next
      case False
      with l look(1)[of k] k have "map_of (pp_index p) k = Some i" by (simp split: if_splits)
      from pp_inv_index[OF assms(1) this] have i: "i < length (pp_fds p)" "pf_fd (pp_fds p ! i) = k" by simp_all
      then have "i \<noteq> slot" using s(2) k by auto
      moreover have "i \<noteq> final" using False i \<open>i \<noteq> slot\<close> by auto
      ultimately show ?thesis using i look(2)[of i] by (simp add: final_def)
    qed
  next
    assume r: "i < final \<and> pf_fd (pp_fds p' ! i) = k"
    show "map_of (pp_index p') k = Some i"
    proof (cases "i = slot")
      case True
      with r have "slot \<noteq> final" "k = pf_fd (pp_fds p ! final)" using look(2)[of i] by auto
      with True look(1)[of k] look(3) show ?thesis by simp
    next
      case False
      have il: "i < length (pp_fds p)" using r look(4) by linarith
      have k: "pf_fd (pp_fds p ! i) = k" using r look(2)[of i] False by simp
      have "k \<noteq> fd" using pp_inv_distinct[OF assms(1) il s(1)] k s(2) False by auto
      moreover have "k \<noteq> pf_fd (pp_fds p ! final)" using pp_inv_distinct[OF assms(1) il look(4)] k r by auto
      ultimately show ?thesis using look(1)[of k] pp_inv_slot[OF assms(1) il] k by simp
    qed
  qed
qed

lemma poll_remove_spec:
  assumes "pp_inv p"
  shows "fst (poll_remove fd p) \<longleftrightarrow> interest p fd \<noteq> None" and "pp_inv (snd (poll_remove fd p))"
    and "interest (snd (poll_remove fd p)) = (interest p)(fd := None)"
proof -
  let ?p' = "snd (poll_remove fd p)"
  show "fst (poll_remove fd p) \<longleftrightarrow> interest p fd \<noteq> None"
    by (auto simp: poll_remove_def interest_def Let_def split: option.split)
  have "pp_inv ?p' \<and> interest ?p' = (interest p)(fd := None)"
  proof (cases "map_of (pp_index p) fd")
    case None
    then show ?thesis using assms by (auto simp: poll_remove_def interest_def)
  next
    case (Some slot)
    note sr = swap_remove_inv[OF assms Some] and look = swap_remove_look[OF assms Some] and eq = swap_remove_index[OF assms Some]
    have s: "slot < length (pp_fds p)" "pf_fd (pp_fds p ! slot) = fd" using pp_inv_index[OF assms Some] by simp_all
    have inv: "pp_inv ?p'" unfolding pp_inv_def sr(1) using sr(5) eq by blast
    have "interest ?p' k = ((interest p)(fd := None)) k" for k
    proof (cases "map_of (pp_index ?p') k")
      case None
      with look(1)[of k] show ?thesis by (auto simp: interest_def split: if_splits)
    next
      case i: (Some i)
      with eq have il: "i < length (pp_fds p) - 1" by blast
      with i look(1)[of k] sr(3)[OF il] pp_inv_slot[OF assms look(4)] s look(3) show ?thesis
        by (auto simp: interest_def split: if_splits dest: pp_inv_index[OF assms])
    qed
    with inv show ?thesis by auto
  qed
  then show "pp_inv ?p'" "interest ?p' = (interest p)(fd := None)" by simp_all
qed

definition poll_told :: "poll_poller \<Rightarrow> int \<rightharpoonup> bool \<times> bool" where
  "poll_told p fd = map_option (\<lambda>e. (e AND POLLIN \<noteq> 0, e AND POLLOUT \<noteq> 0)) (interest p fd)"

lemma poll_eventsFor_bits [simp]:
  "poll_eventsFor r w AND POLLIN = 0 \<longleftrightarrow> \<not> r" "poll_eventsFor r w AND POLLOUT = 0 \<longleftrightarrow> \<not> w"
  by (cases r; cases w; simp add: poll_eventsFor_def poll_bits)+

interpretation pollset: readiness_set pp_inv poll_told poll_add poll_modify poll_remove
proof unfold_locales
  fix p :: poll_poller and fd r w
  assume inv: "pp_inv p"
  note specs = poll_add_spec[OF inv, of fd r w] poll_modify_spec[OF inv, of fd r w] poll_remove_spec[OF inv, of fd]
  show "pp_inv (snd (poll_add fd r w p))" "pp_inv (snd (poll_modify fd r w p))" "pp_inv (snd (poll_remove fd p))"
    using specs by simp_all
  show "fst (poll_add fd r w p) = (poll_told p fd = None) \<and>
      poll_told (snd (poll_add fd r w p)) = (if poll_told p fd = None then (poll_told p)(fd \<mapsto> (r, w)) else poll_told p)"
    "fst (poll_modify fd r w p) = (poll_told p fd \<noteq> None) \<and>
      poll_told (snd (poll_modify fd r w p)) = (if poll_told p fd = None then poll_told p else (poll_told p)(fd \<mapsto> (r, w)))"
    "fst (poll_remove fd p) = (poll_told p fd \<noteq> None) \<and> poll_told (snd (poll_remove fd p)) = (poll_told p)(fd := None)"
    using specs by (auto simp: poll_told_def fun_eq_iff)
qed


subsection \<open>The epoll backend\<close>

text \<open>As long as the kernel has no reason of its own to fail.\<close>

definition epoll_told :: "epoll_poller \<Rightarrow> int \<rightharpoonup> bool \<times> bool" where
  "epoll_told p fd = map_option (\<lambda>e. (e AND EPOLLIN \<noteq> 0, e AND EPOLLOUT \<noteq> 0)) (map_of (ep_told p) fd)"

lemma epoll_eventsFor_bits [simp]:
  "epoll_eventsFor r w AND EPOLLIN = 0 \<longleftrightarrow> \<not> r" "epoll_eventsFor r w AND EPOLLOUT = 0 \<longleftrightarrow> \<not> w"
  by (cases r; cases w; simp add: epoll_eventsFor_def epoll_bits)+

definition ep_inv :: "(nat \<Rightarrow> bool) \<Rightarrow> epoll_poller \<Rightarrow> bool" where
  "ep_inv ctl p \<longleftrightarrow> (\<forall>n. ctl n) \<and> um_wf (ep_told p) \<and> ep_registered p = card (dom (map_of (ep_told p)))"

lemma ep_inv_step:
  assumes "ep_inv ctl p"
  shows "ep_inv ctl (snd (epoll_add ctl fd r w p))" and "ep_inv ctl (snd (epoll_modify ctl fd r w p))"
    and "ep_inv ctl (snd (epoll_remove ctl fd p))"
proof -
  let ?d = "dom (map_of (ep_told p))"
  have fin: "finite ?d" by (rule finite_dom_map_of)
  have pos: "map_of (ep_told p) fd = Some e \<Longrightarrow> 0 < card ?d" for e by (auto simp: card_gt_0_iff fin)
  have same: "map_of (ep_told p) fd = Some e \<Longrightarrow> insert fd ?d = ?d" for e by auto
  show "ep_inv ctl (snd (epoll_add ctl fd r w p))" and "ep_inv ctl (snd (epoll_modify ctl fd r w p))"
    and "ep_inv ctl (snd (epoll_remove ctl fd p))"
    using assms pos same
    by (auto simp: epoll_add_def epoll_modify_def epoll_remove_def epoll_ctl_def ep_inv_def Let_def card_Diff_singleton domIff fin)
qed

interpretation epollset: readiness_set "ep_inv ctl" epoll_told "epoll_add ctl" "epoll_modify ctl" "epoll_remove ctl" for ctl
proof unfold_locales
  fix p :: epoll_poller and fd r w
  assume inv: "ep_inv ctl p"
  show "ep_inv ctl (snd (epoll_add ctl fd r w p))" "ep_inv ctl (snd (epoll_modify ctl fd r w p))"
    "ep_inv ctl (snd (epoll_remove ctl fd p))"
    by (fact ep_inv_step[OF inv])+
  show "fst (epoll_add ctl fd r w p) = (epoll_told p fd = None) \<and>
      epoll_told (snd (epoll_add ctl fd r w p)) = (if epoll_told p fd = None then (epoll_told p)(fd \<mapsto> (r, w)) else epoll_told p)"
    "fst (epoll_modify ctl fd r w p) = (epoll_told p fd \<noteq> None) \<and>
      epoll_told (snd (epoll_modify ctl fd r w p)) = (if epoll_told p fd = None then epoll_told p else (epoll_told p)(fd \<mapsto> (r, w)))"
    "fst (epoll_remove ctl fd p) = (epoll_told p fd \<noteq> None) \<and> epoll_told (snd (epoll_remove ctl fd p)) = (epoll_told p)(fd := None)"
    using inv
    by (cases "map_of (ep_told p) fd"; simp add: epoll_told_def epoll_add_def epoll_modify_def epoll_remove_def epoll_ctl_def
        ep_inv_def Let_def fun_eq_iff del: map_of_eq_Some_iff)+
qed


subsection \<open>Either backend\<close>

fun told :: "poller \<Rightarrow> int \<rightharpoonup> bool \<times> bool" where
  "told (PollPoller p) = poll_told p"
| "told (EpollPoller p) = epoll_told p"

fun poller_ok :: "(nat \<Rightarrow> bool) \<Rightarrow> poller \<Rightarrow> bool" where
  "poller_ok ctl (PollPoller p) = pp_inv p"
| "poller_ok ctl (EpollPoller p) = ep_inv ctl p"

interpretation anyset: readiness_set "poller_ok ctl" told "poller_add ctl" "poller_modify ctl" "poller_remove ctl" for ctl
proof unfold_locales
  fix p :: poller and fd r w
  assume ok: "poller_ok ctl p"
  show "poller_ok ctl (snd (poller_add ctl fd r w p))" "poller_ok ctl (snd (poller_modify ctl fd r w p))"
    "poller_ok ctl (snd (poller_remove ctl fd p))"
    using ok pollset.add_inv pollset.modify_inv pollset.remove_inv epollset.add_inv epollset.modify_inv epollset.remove_inv
    by (cases p; simp)+
  show "fst (poller_add ctl fd r w p) = (told p fd = None) \<and>
      told (snd (poller_add ctl fd r w p)) = (if told p fd = None then (told p)(fd \<mapsto> (r, w)) else told p)"
    using ok pollset.add_told epollset.add_told by (cases p) simp_all
  show "fst (poller_modify ctl fd r w p) = (told p fd \<noteq> None) \<and>
      told (snd (poller_modify ctl fd r w p)) = (if told p fd = None then told p else (told p)(fd \<mapsto> (r, w)))"
    using ok pollset.modify_told epollset.modify_told by (cases p) simp_all
  show "fst (poller_remove ctl fd p) = (told p fd \<noteq> None) \<and> told (snd (poller_remove ctl fd p)) = (told p)(fd := None)"
    using ok pollset.remove_told epollset.remove_told by (cases p) simp_all
qed

lemma makePoller_ok:
  assumes "makePoller linux createOk kind = Some p" and "kind = PkPoll \<or> \<not> linux \<or> (\<forall>n. ctl n)"
  shows "poller_ok ctl p" and "told p = Map.empty"
  using assms
  by (auto simp: makePoller_def epollAvailable_def newEpollPoller_def newPollPoller_def ep_inv_def pp_inv_def epoll_told_def
      poll_told_def interest_def split: if_splits)


subsection \<open>Waiting\<close>

lemma newPollPoller_inv: "pp_inv newPollPoller" "interest newPollPoller = Map.empty"
  by (auto simp: pp_inv_def newPollPoller_def interest_def)

lemma collect_ready_all:
  "length out + length (filter (\<lambda>e. pf_revents e \<noteq> 0) es) = ready \<Longrightarrow>
   collect_ready ready out es = out @ map poll_event (filter (\<lambda>e. pf_revents e \<noteq> 0) es)"
proof (induction es arbitrary: out)
  case (Cons e es)
  show ?case
  proof (cases "length out + 1 = ready")
    case True
    with Cons.prems have "pf_revents e \<noteq> 0 \<Longrightarrow> filter (\<lambda>e. pf_revents e \<noteq> 0) es = []" by auto
    with Cons True show ?thesis by (auto simp: Let_def)
  next
    case False
    with Cons show ?thesis by (auto simp: Let_def)
  qed
qed simp

text \<open>No descriptor is reported twice.\<close>

lemma collect_ready_distinct:
  "distinct (map ev_fd out @ map pf_fd es) \<Longrightarrow> distinct (map ev_fd (collect_ready ready out es))"
  by (induction ready out es rule: collect_ready.induct) (auto simp: Let_def poll_event_def)

lemma poll_wait_distinct:
  assumes "pp_inv p"
  shows "distinct (map ev_fd (snd (fst (poll_wait ans p))))"
proof -
  have "map pf_fd (map2 (\<lambda>e r. e\<lparr>pf_revents := r\<rparr>) es rs) = take (length rs) (map pf_fd es)" for es :: "pollfd list" and rs
    by (induction es rs rule: list_induct2') auto
  moreover have "distinct (map pf_fd (pp_fds p))"
    using assms pp_inv_distinct[of p] by (auto simp: distinct_conv_nth)
  ultimately show ?thesis
    using collect_ready_distinct[of "[]"] by (auto simp: poll_wait_def Let_def distinct_take split: poll_ans.splits)
qed

lemma poll_wait_events:
  assumes "length revents = length (pp_fds p)" and "ready = length (filter (\<lambda>r. r \<noteq> 0) revents)"
    and "pp_fds p \<noteq> []" and "ready \<noteq> 0"
  shows "snd (fst (poll_wait (PollReady ready revents) p)) =
    map (\<lambda>(e, r). poll_event (e\<lparr>pf_revents := r\<rparr>)) (filter (\<lambda>(e, r). r \<noteq> 0) (zip (pp_fds p) revents))"
proof -
  let ?es = "map2 (\<lambda>e r. e\<lparr>pf_revents := r\<rparr>) (pp_fds p) revents"
  have f: "filter (\<lambda>e. pf_revents e \<noteq> 0) (map2 (\<lambda>e r. e\<lparr>pf_revents := r\<rparr>) es rs)
      = map (\<lambda>(e, r). e\<lparr>pf_revents := r\<rparr>) (filter (\<lambda>(e, r). r \<noteq> 0) (zip es rs))" for es :: "pollfd list" and rs
    by (induction es rs rule: list_induct2') auto
  have "length (filter (\<lambda>(e, r). r \<noteq> 0) (zip es rs)) = length (filter (\<lambda>r. r \<noteq> 0) rs)"
    if "length rs = length es" for es :: "pollfd list" and rs :: "u16 list"
    using that by (induction rs es rule: list_induct2) auto
  with f assms(1,2) have "length (filter (\<lambda>e. pf_revents e \<noteq> 0) ?es) = ready" by simp
  from collect_ready_all[of "[]" ?es, OF _] this f[of "pp_fds p" revents] assms(3,4)
  show ?thesis by (simp add: poll_wait_def Let_def split_beta)
qed

text \<open>
  C31. Either poller is a map from descriptors to the wishes of reading and writing under any
  sequence of calls: the poll backend, whose array is indexed and loses entries by moving the
  last one into the gap, and the epoll backend as long as the kernel takes every sensible
  change.  The array of the poll backend never holds a descriptor twice.
\<close>

theorem poller_exact:
  assumes "makePoller linux createOk kind = Some p0" and "kind = PkPoll \<or> \<not> linux \<or> (\<forall>n. ctl n)"
    and "calls_run (poller_add ctl) (poller_modify ctl) (poller_remove ctl) xs p0 = (bs, p)"
  shows "wishes_run xs Map.empty = (bs, told p) \<and> poller_size p = card (dom (told p)) \<and>
    (\<forall>q. p = PollPoller q \<longrightarrow> distinct (map pf_fd (pp_fds q)))"
proof -
  note start = makePoller_ok[OF assms(1,2)]
  have run: "poller_ok ctl p" "wishes_run xs Map.empty = (bs, told p)"
    using anyset.told_exact[OF start(1) assms(3)] start(2) by simp_all
  have d: "distinct (map pf_fd (pp_fds q))" if "pp_inv q" for q
    using that pp_inv_distinct[of q] by (auto simp: distinct_conv_nth)
  have "poller_size p = card (dom (told p))"
  proof (cases p)
    case (PollPoller q)
    with run(1) have inv: "pp_inv q" by simp
    have "dom (poll_told q) = set (map pf_fd (pp_fds q))"
      using pp_inv_index[OF inv] pp_inv_slot[OF inv] by (force simp: poll_told_def interest_def in_set_conv_nth)
    with distinct_card[OF d[OF inv]] PollPoller show ?thesis by simp
  next
    case (EpollPoller q)
    moreover have "dom (epoll_told q) = dom (map_of (ep_told q))" by (auto simp: epoll_told_def)
    ultimately show ?thesis using run(1) by (simp add: ep_inv_def)
  qed
  with run d show ?thesis by auto
qed

theorem poller_exact_witness:
  "\<exists>q. calls_run (poller_add (\<lambda>n. True)) (poller_modify (\<lambda>n. True)) (poller_remove (\<lambda>n. True))
       [PollAdd 3 True False, PollAdd 4 True False, PollAdd 5 True True, PollRemove 3, PollAdd 4 False True]
       (PollPoller newPollPoller) = ([True, True, True, True, False], PollPoller q) \<and>
     poll_told q = [4 \<mapsto> (True, False), 5 \<mapsto> (True, True)] \<and> length (pp_fds q) = 2"
proof -
  let ?xs = "[PollAdd 3 True False, PollAdd 4 True False, PollAdd 5 True True, PollRemove 3, PollAdd 4 False True]"
  let ?q = "\<lparr>pp_fds = [\<lparr>pf_fd = 5, pf_events = 5, pf_revents = 0\<rparr>, \<lparr>pf_fd = 4, pf_events = 1, pf_revents = 0\<rparr>],
              pp_index = [(4, 1), (5, 0)]\<rparr>"
  have run: "calls_run (poller_add (\<lambda>n. True)) (poller_modify (\<lambda>n. True)) (poller_remove (\<lambda>n. True)) ?xs
      (PollPoller newPollPoller) = ([True, True, True, True, False], PollPoller ?q)"
    by code_simp
  have make: "makePoller False True PkPoll = Some (PollPoller newPollPoller)" by code_simp
  have "wishes_run ?xs Map.empty = ([True, True, True, True, False], told (PollPoller ?q))"
    by (rule conjunct1[OF poller_exact[OF make _ run]]) simp
  then have "poll_told ?q = [4 \<mapsto> (True, False), 5 \<mapsto> (True, True)]" by (auto simp: fun_eq_iff)
  with run show ?thesis by (intro exI[of _ ?q]) simp
qed

end
