(* ===== verification/EventLoop.thy ===== *)
theory EventLoop
  imports Connection Poller
begin

text \<open>
  The single-threaded event loop, \<open>src/src/net/event_loop.cpp\<close>, over the pollers and the
  sessions.  Reads and writes do not block; output that the kernel does not take waits in the
  client's buffer, and reading pauses while too much of it waits.  An exception of a session
  leaves the loop.  Shown here: what one call of each operation does to one client.
\<close>

subsection \<open>Definitions\<close>

definition kMaxAcceptsPerEvent :: nat where "kMaxAcceptsPerEvent = 64"
definition kMaxOutputBytes :: nat where "kMaxOutputBytes = 8 * 1024 * 1024"
definition kPauseReadingAboveBytes :: nat where "kPauseReadingAboveBytes = 1 * 1024 * 1024"
definition kLoopReadChunk :: nat where "kLoopReadChunk = 16 * 1024"

record client =
  cl_fd :: int
  cl_session :: session
  cl_inbuf :: string
  cl_outbuf :: string
  cl_outSent :: nat
  cl_wantsRead :: bool
  cl_wantsWrite :: bool
  cl_closeAfterFlush :: bool
  cl_readingPaused :: bool

definition newClient :: "int \<Rightarrow> client" where
  "newClient fd =
     \<lparr>cl_fd = fd, cl_session = newSession, cl_inbuf = [], cl_outbuf = [], cl_outSent = 0, cl_wantsRead = True,
      cl_wantsWrite = False, cl_closeAfterFlush = False, cl_readingPaused = False\<rparr>"

text \<open>\<open>el_wire\<close> records, for every descriptor, the bytes the kernel took.\<close>

record event_loop =
  el_listener :: int
  el_store :: store
  el_poller :: poller
  el_clients :: "(int, client) umap"
  el_pendingClose :: "int list"
  el_accepted :: u64
  el_commands :: u64
  el_shortWrites :: u64
  el_evicted :: u64
  el_wire :: "int \<Rightarrow> string"

text \<open>The answers of a non-blocking \<open>read\<close> and \<open>write\<close>.\<close>

datatype nb_read = NrData string | NrEof | NrEintr | NrAgain | NrErr
datatype nb_write = NwOk nat | NwEintr | NwAgain | NwErr

text \<open>
  \<open>le_line\<close> gives what the n-th command meets, \<open>le_ctl\<close> what the kernel answers to the n-th change
  of a descriptor's interest.
\<close>

record loop_env =
  le_line :: "u64 \<Rightarrow> line_io"
  le_ctl :: "nat \<Rightarrow> bool"

definition updateInterest :: "loop_env \<Rightarrow> client \<Rightarrow> event_loop \<Rightarrow> client \<times> event_loop" where
  "updateInterest env c l =
     (let wantWrite = (cl_outSent c < length (cl_outbuf c));
          wantRead = (\<not> cl_readingPaused c)
      in if wantWrite = cl_wantsWrite c \<and> wantRead = cl_wantsRead c then (c, l)
         else (c\<lparr>cl_wantsWrite := wantWrite, cl_wantsRead := wantRead\<rparr>,
               l\<lparr>el_poller := snd (poller_modify (le_ctl env) (cl_fd c) wantRead wantWrite (el_poller l))\<rparr>))"

function processInput ::
  "(string \<Rightarrow> u64) \<Rightarrow> loop_env \<Rightarrow> client \<Rightarrow> event_loop \<Rightarrow> syscall_error option \<times> client \<times> event_loop" where
  "processInput hash env c l =
     (if cl_closeAfterFlush c then (None, c, l)
      else case take_line (cl_inbuf c) of
        None \<Rightarrow>
          if length (cl_inbuf c) > kMaxLineLength then
            (None, c\<lparr>cl_outbuf := cl_outbuf c @ ''-ERR line too long'' @ eol, cl_closeAfterFlush := True\<rparr>, l)
          else (None, c, l)
      | Some (line, rest) \<Rightarrow>
          (case handleLine hash (le_line env (el_commands l)) line (cl_session c) (el_store l) of
             (Inl e, se, s) \<Rightarrow> (Some e, c\<lparr>cl_inbuf := rest, cl_session := se\<rparr>, l\<lparr>el_store := s\<rparr>)
           | (Inr (reply, quit), se, s) \<Rightarrow>
               (let c' = c\<lparr>cl_inbuf := rest, cl_session := se, cl_outbuf := cl_outbuf c @ reply\<rparr>;
                    l' = l\<lparr>el_store := s, el_commands := el_commands l + 1\<rparr>
                in if quit then (None, c'\<lparr>cl_closeAfterFlush := True\<rparr>, l')
                   else if length (cl_outbuf c') - cl_outSent c' > kPauseReadingAboveBytes then
                     (None, c'\<lparr>cl_readingPaused := True\<rparr>, l')
                   else processInput hash env c' l')))"
  by auto
termination
  by (relation "measure (\<lambda>(hash, env, c, l). length (cl_inbuf c))") (auto dest!: take_line_shorter)

declare processInput.simps [simp del]

text \<open>
  The write loop of \<open>flush\<close>: the bytes that went out and how it ended (\<^const>\<open>None\<close> for an
  error, else whether the kernel refused to take more).  When no answer is left the kernel
  takes the rest.
\<close>

fun flush_loop :: "nb_write list \<Rightarrow> string \<Rightarrow> nat \<Rightarrow> nat \<times> bool option" where
  "flush_loop as buf sent =
     (if sent < length buf then
        (case as of
           [] \<Rightarrow> (length buf, Some False)
         | NwOk n # as' \<Rightarrow> flush_loop as' buf (sent + min n (length buf - sent))
         | NwEintr # as' \<Rightarrow> flush_loop as' buf sent
         | NwAgain # as' \<Rightarrow> (sent, Some True)
         | NwErr # as' \<Rightarrow> (sent, None))
      else (sent, Some False))"

declare flush_loop.simps [simp del]

definition flush ::
  "(string \<Rightarrow> u64) \<Rightarrow> loop_env \<Rightarrow> nb_write list \<Rightarrow> client \<Rightarrow> event_loop \<Rightarrow>
   (syscall_error + bool) \<times> client \<times> event_loop" where
  "flush hash env as c l =
     (let (sent, ended) = flush_loop as (cl_outbuf c) (cl_outSent c);
          wired = l\<lparr>el_wire := (el_wire l)(cl_fd c :=
                     el_wire l (cl_fd c) @ take (sent - cl_outSent c) (drop (cl_outSent c) (cl_outbuf c)))\<rparr>;
          c1 = c\<lparr>cl_outSent := sent\<rparr>
      in case ended of
           None \<Rightarrow> (Inr False, c1, wired)
         | Some again \<Rightarrow>
             (let l1 = (if again then wired\<lparr>el_shortWrites := el_shortWrites wired + 1\<rparr> else wired);
                  (thrown, c2, l2) =
                    (if length (cl_outbuf c1) \<le> cl_outSent c1 then
                       (let c' = c1\<lparr>cl_outbuf := [], cl_outSent := 0\<rparr>
                        in if cl_readingPaused c' then processInput hash env (c'\<lparr>cl_readingPaused := False\<rparr>) l1
                           else (None, c', l1))
                     else if 0 < cl_outSent c1 \<and> length (cl_outbuf c1) div 2 < cl_outSent c1 then
                       (None, c1\<lparr>cl_outbuf := drop (cl_outSent c1) (cl_outbuf c1), cl_outSent := 0\<rparr>, l1)
                     else (None, c1, l1))
              in case thrown of
                   Some e \<Rightarrow> (Inl e, c2, l2)
                 | None \<Rightarrow>
                     if length (cl_outbuf c2) - cl_outSent c2 > kMaxOutputBytes then
                       (Inr False, c2, l2\<lparr>el_evicted := el_evicted l2 + 1\<rparr>)
                     else (let (c3, l3) = updateInterest env c2 l2 in (Inr True, c3, l3))))"

fun readFrom :: "nb_read list \<Rightarrow> client \<Rightarrow> bool \<times> bool \<times> client" where
  "readFrom as c =
     (if cl_readingPaused c then (True, False, c)
      else case as of
        [] \<Rightarrow> (True, False, c)
      | NrEintr # as' \<Rightarrow> readFrom as' c
      | NrAgain # as' \<Rightarrow> (True, False, c)
      | NrErr # as' \<Rightarrow> (False, False, c)
      | NrEof # as' \<Rightarrow> (True, True, c)
      | NrData bytes # as' \<Rightarrow> (True, False, c\<lparr>cl_inbuf := cl_inbuf c @ bytes\<rparr>))"

declare readFrom.simps [simp del]

text \<open>The answers one event meets: the first flush, the read, the second flush.\<close>

record event_io =
  ei_flush1 :: "nb_write list"
  ei_read :: "nb_read list"
  ei_flush2 :: "nb_write list"

text \<open>The result is the flag \<open>close\<close>.\<close>

definition handleClient ::
  "(string \<Rightarrow> u64) \<Rightarrow> loop_env \<Rightarrow> event_io \<Rightarrow> ReadyEvent \<Rightarrow> client \<Rightarrow> event_loop \<Rightarrow>
   (syscall_error + bool) \<times> client \<times> event_loop" where
  "handleClient hash env io event c l =
     (case (if ev_writable event then flush hash env (ei_flush1 io) c l else (Inr True, c, l)) of
        (Inl e, c1, l1) \<Rightarrow> (Inl e, c1, l1)
      | (Inr False, c1, l1) \<Rightarrow> (Inr True, c1, l1)
      | (Inr True, c1, l1) \<Rightarrow>
          (case (if ev_readable event then
                   (case readFrom (ei_read io) c1 of
                      (False, peerClosed, c2) \<Rightarrow> (Inr False, c2, l1)
                    | (True, peerClosed, c2) \<Rightarrow>
                        (case processInput hash env c2 l1 of
                           (Some e, c3, l3) \<Rightarrow> (Inl e, c3, l3)
                         | (None, c3, l3) \<Rightarrow>
                             (case flush hash env (ei_flush2 io) c3 l3 of
                                (Inr True, c4, l4) \<Rightarrow>
                                  (Inr True,
                                   if peerClosed then c4\<lparr>cl_closeAfterFlush := True, cl_readingPaused := True\<rparr> else c4,
                                   l4)
                              | r \<Rightarrow> r)))
                 else (Inr True, c1, l1)) of
             (Inl e, c5, l5) \<Rightarrow> (Inl e, c5, l5)
           | (Inr False, c5, l5) \<Rightarrow> (Inr True, c5, l5)
           | (Inr True, c5, l5) \<Rightarrow>
               if ev_closed event \<and> \<not> ev_readable event then (Inr True, c5, l5)
               else if cl_closeAfterFlush c5 \<and> length (cl_outbuf c5) \<le> cl_outSent c5 then (Inr True, c5, l5)
               else (let (c6, l6) = updateInterest env c5 l5 in (Inr False, c6, l6))))"

text \<open>The answers of one \<open>accept\<close> and of what follows it.\<close>

datatype accept_ans = AcceptThrew | AcceptNone | AcceptFd int bool

fun acceptNew :: "loop_env \<Rightarrow> nat \<Rightarrow> accept_ans list \<Rightarrow> event_loop \<Rightarrow> event_loop" where
  "acceptNew env 0 as l = l"
| "acceptNew env (Suc i) [] l = l"
| "acceptNew env (Suc i) (a # as) l =
     (case a of
        AcceptThrew \<Rightarrow> l
      | AcceptNone \<Rightarrow> l
      | AcceptFd fd nonBlockOk \<Rightarrow>
          if \<not> nonBlockOk then acceptNew env i as l
          else (case poller_add (le_ctl env) fd True False (el_poller l) of
                  (False, p) \<Rightarrow> acceptNew env i as (l\<lparr>el_poller := p\<rparr>)
                | (True, p) \<Rightarrow>
                    acceptNew env i as
                      (l\<lparr>el_poller := p,
                         el_clients := (if map_of (el_clients l) fd = None
                                        then AList.update fd (newClient fd) (el_clients l) else el_clients l),
                         el_accepted := el_accepted l + 1\<rparr>)))"

text \<open>Erasing a client destroys its session.\<close>

definition closeClient :: "loop_env \<Rightarrow> int \<Rightarrow> event_loop \<Rightarrow> event_loop" where
  "closeClient env fd l =
     (case map_of (el_clients l) fd of
        None \<Rightarrow> l
      | Some c \<Rightarrow>
          l\<lparr>el_poller := snd (poller_remove (le_ctl env) fd (el_poller l)),
            el_clients := AList.delete fd (el_clients l),
            el_store := session_destroy (cl_session c) (el_store l)\<rparr>)"

text \<open>The events of one wait, each with the answers it meets, until one throws.\<close>

record ready_io =
  ri_event :: ReadyEvent
  ri_accepts :: "accept_ans list"
  ri_io :: event_io

fun handleEvents ::
  "(string \<Rightarrow> u64) \<Rightarrow> loop_env \<Rightarrow> ready_io list \<Rightarrow> event_loop \<Rightarrow> syscall_error option \<times> event_loop" where
  "handleEvents hash env [] l = (None, l)"
| "handleEvents hash env (r # rs) l =
     (let event = ri_event r
      in if ev_fd event = el_listener l then
           handleEvents hash env rs (acceptNew env kMaxAcceptsPerEvent (ri_accepts r) l)
         else (case map_of (el_clients l) (ev_fd event) of
                 None \<Rightarrow> handleEvents hash env rs l
               | Some c \<Rightarrow>
                   (case handleClient hash env (ri_io r) event c l of
                      (Inl e, c', l') \<Rightarrow> (Some e, l'\<lparr>el_clients := AList.update (ev_fd event) c' (el_clients l')\<rparr>)
                    | (Inr close, c', l') \<Rightarrow>
                        handleEvents hash env rs
                          (l'\<lparr>el_clients := AList.update (ev_fd event) c' (el_clients l'),
                              el_pendingClose := (if close then el_pendingClose l' @ [ev_fd event]
                                                  else el_pendingClose l')\<rparr>))))"

text \<open>One turn of \<open>run\<close>; \<^const>\<open>None\<close> is a failed wait.\<close>

datatype turn_result = Continue | Stopped | Threw syscall_error

definition loop_turn ::
  "(string \<Rightarrow> u64) \<Rightarrow> loop_env \<Rightarrow> ready_io list option \<Rightarrow> event_loop \<Rightarrow> turn_result \<times> event_loop" where
  "loop_turn hash env ready l =
     (case ready of
        None \<Rightarrow> (Stopped, l)
      | Some rs \<Rightarrow>
          (case handleEvents hash env rs l of
             (Some e, l') \<Rightarrow> (Threw e, l')
           | (None, l') \<Rightarrow>
               (Continue, (foldl (\<lambda>l fd. closeClient env fd l) l' (el_pendingClose l'))\<lparr>el_pendingClose := []\<rparr>)))"

text \<open>The loop until a shutdown request (the first component of an item), a failed wait or an exception.\<close>

fun loop_run ::
  "(string \<Rightarrow> u64) \<Rightarrow> loop_env \<Rightarrow> (bool \<times> ready_io list option) list \<Rightarrow> event_loop \<Rightarrow> turn_result \<times> event_loop" where
  "loop_run hash env [] l = (Continue, l)"
| "loop_run hash env ((shuttingDown, ready) # rs) l =
     (if shuttingDown then
        (Stopped, l\<lparr>el_clients := [],
                    el_store := foldl (\<lambda>s c. session_destroy (cl_session (snd c)) s) (el_store l) (el_clients l)\<rparr>)
      else case loop_turn hash env ready l of
        (Continue, l') \<Rightarrow> loop_run hash env rs l'
      | (Stopped, l') \<Rightarrow>
          (Stopped, l'\<lparr>el_clients := [],
                      el_store := foldl (\<lambda>s c. session_destroy (cl_session (snd c)) s) (el_store l') (el_clients l')\<rparr>)
      | (Threw e, l') \<Rightarrow> (Threw e, l'))"

text \<open>The constructor; \<^const>\<open>None\<close> is one of its exceptions.\<close>

definition newEventLoop :: "loop_env \<Rightarrow> bool \<Rightarrow> bool \<Rightarrow> PollerKind \<Rightarrow> int \<Rightarrow> store \<Rightarrow> event_loop option" where
  "newEventLoop env linux createOk kind listener s =
     (case makePoller linux createOk kind of
        None \<Rightarrow> None
      | Some p \<Rightarrow>
          (case poller_add (le_ctl env) listener True False p of
             (False, p') \<Rightarrow> None
           | (True, p') \<Rightarrow>
               Some \<lparr>el_listener = listener, el_store = s, el_poller = p', el_clients = [], el_pendingClose = [],
                     el_accepted = 0, el_commands = 0, el_shortWrites = 0, el_evicted = 0, el_wire = (\<lambda>fd. [])\<rparr>))"


subsection \<open>One client\<close>

text \<open>
  \<open>steady\<close> holds before input is processed, \<open>settled\<close> after it: no complete line is left unless
  reading is paused, which it is only while output waits.
\<close>

definition steady :: "client \<Rightarrow> bool" where
  "steady c \<longleftrightarrow> cl_outSent c \<le> length (cl_outbuf c) \<and>
     (cl_readingPaused c \<longrightarrow> cl_outSent c < length (cl_outbuf c)) \<and>
     (\<not> cl_closeAfterFlush c \<longrightarrow> length (cl_inbuf c) \<le> kMaxLineLength + kLoopReadChunk)"

definition settled :: "client \<Rightarrow> bool" where
  "settled c \<longleftrightarrow> steady c \<and>
     (\<not> cl_closeAfterFlush c \<longrightarrow> cl_readingPaused c \<or> no_eol (cl_inbuf c) \<and> length (cl_inbuf c) \<le> kMaxLineLength)"

text \<open>The fields \<open>processInput\<close> leaves alone.\<close>

definition same_wants :: "client \<Rightarrow> client \<Rightarrow> bool" where
  "same_wants c c' \<longleftrightarrow> cl_fd c' = cl_fd c \<and> cl_wantsRead c' = cl_wantsRead c \<and> cl_wantsWrite c' = cl_wantsWrite c"

definition same_loop :: "event_loop \<Rightarrow> event_loop \<Rightarrow> bool" where
  "same_loop l l' \<longleftrightarrow> el_listener l' = el_listener l \<and> el_poller l' = el_poller l \<and> el_clients l' = el_clients l \<and>
     el_pendingClose l' = el_pendingClose l"

lemma same_refl [simp]: "same_wants c c" "same_loop l l"
  by (simp_all add: same_wants_def same_loop_def)

lemma processInput_cases:
  obtains "cl_closeAfterFlush c" "processInput hash env c l = (None, c, l)"
  | "\<not> cl_closeAfterFlush c" "take_line (cl_inbuf c) = None" "length (cl_inbuf c) > kMaxLineLength"
    "processInput hash env c l =
       (None, c\<lparr>cl_outbuf := cl_outbuf c @ ''-ERR line too long'' @ eol, cl_closeAfterFlush := True\<rparr>, l)"
  | "\<not> cl_closeAfterFlush c" "take_line (cl_inbuf c) = None" "length (cl_inbuf c) \<le> kMaxLineLength"
    "processInput hash env c l = (None, c, l)"
  | line rest e se s where "\<not> cl_closeAfterFlush c" "take_line (cl_inbuf c) = Some (line, rest)"
    "processInput hash env c l = (Some e, c\<lparr>cl_inbuf := rest, cl_session := se\<rparr>, l\<lparr>el_store := s\<rparr>)"
  | line rest reply quit se s c' l' where "\<not> cl_closeAfterFlush c" "take_line (cl_inbuf c) = Some (line, rest)"
    "handleLine hash (le_line env (el_commands l)) line (cl_session c) (el_store l) = (Inr (reply, quit), se, s)"
    "c' = c\<lparr>cl_inbuf := rest, cl_session := se, cl_outbuf := cl_outbuf c @ reply\<rparr>"
    "l' = l\<lparr>el_store := s, el_commands := el_commands l + 1\<rparr>"
    "processInput hash env c l =
       (if quit then (None, c'\<lparr>cl_closeAfterFlush := True\<rparr>, l')
        else if length (cl_outbuf c') - cl_outSent c' > kPauseReadingAboveBytes then
          (None, c'\<lparr>cl_readingPaused := True\<rparr>, l')
        else processInput hash env c' l')"
proof (cases "cl_closeAfterFlush c")
  case True
  with that(1) show ?thesis by (simp add: processInput.simps[of hash env c l])
next
  case nc: False
  show ?thesis
  proof (cases "take_line (cl_inbuf c)")
    case None
    with nc that(2,3) show ?thesis by (cases "length (cl_inbuf c) > kMaxLineLength") (simp_all add: processInput.simps[of hash env c l])
  next
    case (Some lr)
    obtain line rest where lr: "lr = (line, rest)" by fastforce
    obtain r se s where h: "handleLine hash (le_line env (el_commands l)) line (cl_session c) (el_store l) = (r, se, s)"
      using prod_cases3 by blast
    show ?thesis
    proof (cases r)
      case (Inl e)
      with nc Some lr h that(4) show ?thesis by (simp add: processInput.simps[of hash env c l])
    next
      case (Inr x)
      obtain reply quit where x: "x = (reply, quit)" by fastforce
      show ?thesis
        by (rule that(5)[OF nc Some[unfolded lr] h[unfolded Inr x] refl refl])
          (use nc Some lr h Inr x in \<open>simp add: processInput.simps[of hash env c l] Let_def\<close>)
    qed
  qed
qed

lemma processInput_settles:
  assumes "steady c" and "processInput hash env c l = (r, c', l')"
  shows "same_wants c c'" and "same_loop l l'" and "cl_outSent c' = cl_outSent c"
    and "\<exists>x. cl_outbuf c' = cl_outbuf c @ x" and "el_wire l' = el_wire l"
    and "r = None \<Longrightarrow> settled c'"
proof -
  have "same_wants c c' \<and> same_loop l l' \<and> cl_outSent c' = cl_outSent c \<and> (\<exists>x. cl_outbuf c' = cl_outbuf c @ x) \<and>
      el_wire l' = el_wire l \<and> (r = None \<longrightarrow> settled c')"
    using assms
  proof (induction "length (cl_inbuf c)" arbitrary: c l rule: less_induct)
    case less
    show ?case
    proof (cases rule: processInput_cases[of c hash env l])
      case 1
      with less.prems show ?thesis by (auto simp: settled_def)
    next
      case 2
      with less.prems show ?thesis by (auto simp: settled_def steady_def same_wants_def)
    next
      case 3
      with less.prems take_line_None[of "cl_inbuf c"] show ?thesis by (auto simp: settled_def)
    next
      case (4 line rest e se s)
      with less.prems(2) show ?thesis by (auto simp: same_wants_def same_loop_def)
    next
      case (5 line rest reply quit se s c1 l1)
      have sh: "length (cl_inbuf c1) < length (cl_inbuf c)" using take_line_shorter[OF 5(2)] 5(4) by simp
      have st: "steady c1" using less.prems(1) sh 5(1,4) by (auto simp: steady_def)
      have sm: "same_wants c c1" "same_loop l l1" "cl_outSent c1 = cl_outSent c" "cl_outbuf c1 = cl_outbuf c @ reply"
        "el_wire l1 = el_wire l" "\<not> cl_closeAfterFlush c1"
        using 5(1,4,5) by (simp_all add: same_wants_def same_loop_def)
      consider "quit" | "\<not> quit" "length (cl_outbuf c1) - cl_outSent c1 > kPauseReadingAboveBytes"
        | "\<not> quit" "\<not> length (cl_outbuf c1) - cl_outSent c1 > kPauseReadingAboveBytes" by blast
      then show ?thesis
      proof cases
        case 1
        with less.prems(2) 5(6) sm st show ?thesis by (auto simp: settled_def steady_def same_wants_def)
      next
        case 2
        with less.prems(2) 5(6) sm st show ?thesis by (auto simp: settled_def steady_def same_wants_def)
      next
        case 3
        with less.prems(2) 5(6) have "processInput hash env c1 l1 = (r, c', l')" by simp
        from less.hyps[OF sh st this] sm show ?thesis by (auto simp: same_wants_def same_loop_def)
      qed
    qed
  qed
  then show "same_wants c c'" and "same_loop l l'" and "cl_outSent c' = cl_outSent c"
    and "\<exists>x. cl_outbuf c' = cl_outbuf c @ x" and "el_wire l' = el_wire l" and "r = None \<Longrightarrow> settled c'"
    by simp_all
qed

lemma flush_loop_simps [simp]:
  "flush_loop [] buf sent = (if sent < length buf then length buf else sent, Some False)"
  "flush_loop (NwOk n # as) buf sent =
     (if sent < length buf then flush_loop as buf (sent + min n (length buf - sent)) else (sent, Some False))"
  "flush_loop (NwEintr # as) buf sent = (if sent < length buf then flush_loop as buf sent else (sent, Some False))"
  "flush_loop (NwAgain # as) buf sent = (sent, Some (sent < length buf))"
  "flush_loop (NwErr # as) buf sent = (sent, if sent < length buf then None else Some False)"
  by (subst flush_loop.simps, simp)+

lemma flush_loop_sent:
  "sent \<le> length buf \<Longrightarrow> sent \<le> fst (flush_loop as buf sent) \<and> fst (flush_loop as buf sent) \<le> length buf"
proof (induction "as" arbitrary: sent)
  case Nil
  then show ?case by simp
next
  case (Cons a "as")
  show ?case
  proof (cases a)
    case (NwOk n)
    have "sent + min n (length buf - sent) \<le> length buf" using Cons.prems by simp
    from Cons.IH[OF this] NwOk Cons.prems show ?thesis by auto
  qed (use Cons in simp_all)
qed

text \<open>The three ways the buffer is left after the writes.\<close>

definition after_writes ::
  "(string \<Rightarrow> u64) \<Rightarrow> loop_env \<Rightarrow> client \<Rightarrow> event_loop \<Rightarrow> syscall_error option \<times> client \<times> event_loop" where
  "after_writes hash env c l =
     (if length (cl_outbuf c) \<le> cl_outSent c then
        (let c' = c\<lparr>cl_outbuf := [], cl_outSent := 0\<rparr>
         in if cl_readingPaused c' then processInput hash env (c'\<lparr>cl_readingPaused := False\<rparr>) l else (None, c', l))
      else if 0 < cl_outSent c \<and> length (cl_outbuf c) div 2 < cl_outSent c then
        (None, c\<lparr>cl_outbuf := drop (cl_outSent c) (cl_outbuf c), cl_outSent := 0\<rparr>, l)
      else (None, c, l))"

definition wired :: "client \<Rightarrow> nat \<Rightarrow> event_loop \<Rightarrow> event_loop" where
  "wired c sent l = l\<lparr>el_wire := (el_wire l)(cl_fd c :=
     el_wire l (cl_fd c) @ take (sent - cl_outSent c) (drop (cl_outSent c) (cl_outbuf c)))\<rparr>"

lemma flush_cases:
  obtains sent where "sent = fst (flush_loop as (cl_outbuf c) (cl_outSent c))"
    "flush hash env as c l = (Inr False, c\<lparr>cl_outSent := sent\<rparr>, wired c sent l)"
  | sent l1 r c2 l2 where "sent = fst (flush_loop as (cl_outbuf c) (cl_outSent c))"
    "l1 = wired c sent l \<or> l1 = (wired c sent l)\<lparr>el_shortWrites := el_shortWrites l + 1\<rparr>"
    "after_writes hash env (c\<lparr>cl_outSent := sent\<rparr>) l1 = (r, c2, l2)"
    "flush hash env as c l =
      (case r of
         Some e \<Rightarrow> (Inl e, c2, l2)
       | None \<Rightarrow>
           if length (cl_outbuf c2) - cl_outSent c2 > kMaxOutputBytes then
             (Inr False, c2, l2\<lparr>el_evicted := el_evicted l2 + 1\<rparr>)
           else (let (c3, l3) = updateInterest env c2 l2 in (Inr True, c3, l3)))"
proof -
  obtain sent ended where f: "flush_loop as (cl_outbuf c) (cl_outSent c) = (sent, ended)" by fastforce
  show ?thesis
  proof (cases ended)
    case None
    with f that(1)[of sent] show ?thesis by (simp add: flush_def wired_def)
  next
    case (Some again)
    let ?l1 = "if again then (wired c sent l)\<lparr>el_shortWrites := el_shortWrites l + 1\<rparr> else wired c sent l"
    obtain r c2 l2 where a: "after_writes hash env (c\<lparr>cl_outSent := sent\<rparr>) ?l1 = (r, c2, l2)" using prod_cases3 by blast
    have fl: "flush hash env as c l = (case after_writes hash env (c\<lparr>cl_outSent := sent\<rparr>) ?l1 of (thrown, c2, l2) \<Rightarrow>
        (case thrown of
           Some e \<Rightarrow> (Inl e, c2, l2)
         | None \<Rightarrow>
             if length (cl_outbuf c2) - cl_outSent c2 > kMaxOutputBytes then
               (Inr False, c2, l2\<lparr>el_evicted := el_evicted l2 + 1\<rparr>)
             else (let (c3, l3) = updateInterest env c2 l2 in (Inr True, c3, l3))))"
      using f Some unfolding flush_def after_writes_def wired_def by (simp only: Let_def prod.case option.case) simp
    show ?thesis
      by (rule that(2)[OF _ _ a]) (use f fl a in auto)
  qed
qed

text \<open>A settled client, while the count of sent bytes is being moved.\<close>

definition loose :: "client \<Rightarrow> bool" where
  "loose c \<longleftrightarrow> cl_outSent c \<le> length (cl_outbuf c) \<and>
     (\<not> cl_closeAfterFlush c \<longrightarrow> length (cl_inbuf c) \<le> kMaxLineLength + kLoopReadChunk \<and>
       (cl_readingPaused c \<or> no_eol (cl_inbuf c) \<and> length (cl_inbuf c) \<le> kMaxLineLength))"

lemma settled_loose: "settled c \<Longrightarrow> sent \<le> length (cl_outbuf c) \<Longrightarrow> loose (c\<lparr>cl_outSent := sent\<rparr>)"
  by (simp add: settled_def steady_def loose_def)

lemma after_writes_settles:
  assumes "loose c" and "after_writes hash env c l = (r, c', l')"
  shows "same_wants c c'" and "same_loop l l'" and "el_wire l' = el_wire l" and "r = None \<Longrightarrow> settled c'"
proof -
  have "same_wants c c' \<and> same_loop l l' \<and> el_wire l' = el_wire l \<and> (r = None \<longrightarrow> settled c')"
  proof (cases "length (cl_outbuf c) \<le> cl_outSent c")
    case True
    let ?c = "c\<lparr>cl_outbuf := [], cl_outSent := 0\<rparr>"
    show ?thesis
    proof (cases "cl_readingPaused c")
      case paused: True
      let ?d = "?c\<lparr>cl_readingPaused := False\<rparr>"
      have st: "steady ?d" using assms(1) by (simp add: loose_def steady_def)
      have p: "processInput hash env ?d l = (r, c', l')" using assms(2) True paused by (simp add: after_writes_def)
      have "same_wants c ?d" by (simp add: same_wants_def)
      with processInput_settles[OF st p] show ?thesis by (simp add: same_wants_def)
    next
      case False
      with True assms show ?thesis by (auto simp: after_writes_def loose_def settled_def steady_def same_wants_def)
    qed
  next
    case False
    with assms show ?thesis by (auto simp: after_writes_def loose_def settled_def steady_def same_wants_def split: if_splits)
  qed
  then show "same_wants c c'" and "same_loop l l'" and "el_wire l' = el_wire l" and "r = None \<Longrightarrow> settled c'" by simp_all
qed

lemma updateInterest_client:
  assumes "updateInterest env c l = (c', l')"
  shows "cl_wantsWrite c' = (cl_outSent c < length (cl_outbuf c))" and "cl_wantsRead c' = (\<not> cl_readingPaused c)"
    and "c' = c\<lparr>cl_wantsWrite := cl_wantsWrite c', cl_wantsRead := cl_wantsRead c'\<rparr>"
    and "l' = l\<lparr>el_poller := el_poller l'\<rparr>"
    and "el_poller l' = (if cl_wantsWrite c' = cl_wantsWrite c \<and> cl_wantsRead c' = cl_wantsRead c then el_poller l
      else snd (poller_modify (le_ctl env) (cl_fd c) (cl_wantsRead c') (cl_wantsWrite c') (el_poller l)))"
  using assms by (auto simp: updateInterest_def Let_def split: if_splits)

lemma settled_wants: "settled (c\<lparr>cl_wantsWrite := w, cl_wantsRead := r\<rparr>) = settled c"
  by (simp add: settled_def steady_def)

text \<open>
  How an operation may change the loop around a client: the descriptor's registration moves
  together with the client's flags, nothing else of the poller, the listener or the other
  clients changes.
\<close>

definition reg_follows :: "loop_env \<Rightarrow> client \<Rightarrow> event_loop \<Rightarrow> client \<Rightarrow> event_loop \<Rightarrow> bool" where
  "reg_follows env c l c' l' \<longleftrightarrow> cl_fd c' = cl_fd c \<and> el_listener l' = el_listener l \<and> el_clients l' = el_clients l \<and>
     el_pendingClose l' = el_pendingClose l \<and>
     (cl_wantsRead c' = cl_wantsRead c \<and> cl_wantsWrite c' = cl_wantsWrite c \<and> el_poller l' = el_poller l \<or>
      el_poller l' = snd (poller_modify (le_ctl env) (cl_fd c) (cl_wantsRead c') (cl_wantsWrite c') (el_poller l)))"

lemma reg_same: "same_wants c c' \<Longrightarrow> same_loop l l' \<Longrightarrow> reg_follows env c l c' l'"
  by (simp add: reg_follows_def same_wants_def same_loop_def)

lemma reg_update: "updateInterest env c l = (c', l') \<Longrightarrow> reg_follows env c l c' l'"
  using updateInterest_client[of env c l c' l']
  by (cases c; cases c'; cases l; cases l') (auto simp: reg_follows_def split: if_splits)

lemma wired_same: "same_loop l (wired c sent l)"
  by (simp add: wired_def same_loop_def)

end
