(* ===== verification/LoopInvariant.thy ===== *)
theory LoopInvariant
  imports EventLoop
begin

text \<open>
  The invariant of the event loop: every client between two turns is settled, its registration
  with the poller is what its state asks for, and its buffers are bounded.  The properties of
  the loop follow.
\<close>

declare map_of_eq_Some_iff [simp del]

subsection \<open>Registrations\<close>

definition reg_ok :: "loop_env \<Rightarrow> client \<Rightarrow> event_loop \<Rightarrow> bool" where
  "reg_ok env c l \<longleftrightarrow> poller_ok (le_ctl env) (el_poller l) \<and>
     told (el_poller l) (cl_fd c) = Some (cl_wantsRead c, cl_wantsWrite c)"

text \<open>Nothing changes but the registration of one descriptor.\<close>

definition others_kept :: "event_loop \<Rightarrow> event_loop \<Rightarrow> bool" where
  "others_kept l l' \<longleftrightarrow> el_listener l' = el_listener l \<and> el_clients l' = el_clients l \<and> el_pendingClose l' = el_pendingClose l"

definition evolves :: "loop_env \<Rightarrow> client \<Rightarrow> event_loop \<Rightarrow> client \<Rightarrow> event_loop \<Rightarrow> bool" where
  "evolves env c l c' l' \<longleftrightarrow> cl_fd c' = cl_fd c \<and> others_kept l l' \<and>
     (reg_ok env c l \<longrightarrow> reg_ok env c' l' \<and> (\<forall>k. k \<noteq> cl_fd c \<longrightarrow> told (el_poller l') k = told (el_poller l) k))"

lemma evolves_reg: "reg_follows env c l c' l' \<Longrightarrow> evolves env c l c' l'"
proof -
  assume f: "reg_follows env c l c' l'"
  let ?ctl = "le_ctl env" and ?p = "el_poller l"
  have "reg_ok env c' l' \<and> (\<forall>k. k \<noteq> cl_fd c \<longrightarrow> told (el_poller l') k = told ?p k)" if r: "reg_ok env c l"
  proof -
    have ok: "poller_ok ?ctl ?p" using r by (simp add: reg_ok_def)
    note m = anyset.modify_inv[OF ok] anyset.modify_told[OF ok] anyset.told_other(2)[OF ok]
    show ?thesis using f r m by (auto simp: reg_follows_def reg_ok_def)
  qed
  with f show ?thesis by (simp add: evolves_def others_kept_def reg_follows_def)
qed

lemma evolves_trans: "evolves env a l b m \<Longrightarrow> evolves env b m c n \<Longrightarrow> evolves env a l c n"
  by (auto simp: evolves_def others_kept_def)

lemma evolves_same: "same_wants c c' \<Longrightarrow> same_loop l l' \<Longrightarrow> evolves env c l c' l'"
  by (rule evolves_reg[OF reg_same])

lemma evolves_wants:
  "evolves env c l c' l' \<Longrightarrow> same_wants c' c'' \<Longrightarrow> same_loop l' l'' \<Longrightarrow> evolves env c l c'' l''"
  by (erule evolves_trans) (rule evolves_same)


subsection \<open>One event\<close>

text \<open>A client between two events.\<close>

definition client_inv :: "client \<Rightarrow> bool" where
  "client_inv c \<longleftrightarrow> settled c \<and> cl_wantsWrite c = (cl_outSent c < length (cl_outbuf c)) \<and>
     cl_wantsRead c = (\<not> cl_readingPaused c) \<and> (cl_closeAfterFlush c \<longrightarrow> cl_outSent c < length (cl_outbuf c)) \<and>
     length (cl_outbuf c) - cl_outSent c \<le> kMaxOutputBytes"

lemma newClient_inv: "client_inv (newClient fd)"
  by (simp add: client_inv_def newClient_def settled_def steady_def)

lemma updateInterest_keeps:
  assumes "updateInterest env c l = (c', l')"
  shows "cl_fd c' = cl_fd c" "cl_outbuf c' = cl_outbuf c" "cl_outSent c' = cl_outSent c" "cl_inbuf c' = cl_inbuf c"
    "cl_readingPaused c' = cl_readingPaused c" "cl_closeAfterFlush c' = cl_closeAfterFlush c" "settled c' = settled c"
  using assms by (auto simp: updateInterest_def Let_def settled_def steady_def split: if_splits)

lemma flush_spec:
  assumes "settled c" and "flush hash env as c l = (r, c', l')"
  shows "evolves env c l c' l'"
    and "r = Inr True \<Longrightarrow> settled c' \<and> length (cl_outbuf c') - cl_outSent c' \<le> kMaxOutputBytes"
proof -
  have le: "cl_outSent c \<le> length (cl_outbuf c)" using assms(1) by (simp add: settled_def steady_def)
  have "evolves env c l c' l' \<and> (r = Inr True \<longrightarrow> settled c' \<and> length (cl_outbuf c') - cl_outSent c' \<le> kMaxOutputBytes)"
  proof (cases rule: flush_cases[of "as" c hash env l])
    case (1 sent)
    with assms(2) evolves_same[OF _ wired_same, of c "c\<lparr>cl_outSent := sent\<rparr>" env l c sent] show ?thesis
      by (auto simp: same_wants_def)
  next
    case (2 sent l1 r2 c2 l2)
    have "loose (c\<lparr>cl_outSent := sent\<rparr>)"
      using settled_loose[OF assms(1)] flush_loop_sent[OF le] 2(1) by simp
    note aw = after_writes_settles[OF this 2(3)]
    have "same_loop l l1" using 2(2) by (auto simp: wired_def same_loop_def)
    then have ev: "evolves env c l c2 l2"
      using aw(1,2) by (intro evolves_same) (simp_all add: same_wants_def same_loop_def)
    show ?thesis
    proof (cases r2)
      case (Some e)
      with 2(4) assms(2) ev show ?thesis by auto
    next
      case None
      note st = aw(4)[OF None]
      show ?thesis
      proof (cases "length (cl_outbuf c2) - cl_outSent c2 > kMaxOutputBytes")
        case True
        with None 2(4) assms(2) ev evolves_wants[OF ev, of c2 "l2\<lparr>el_evicted := el_evicted l2 + 1\<rparr>"] show ?thesis
          by (auto simp: same_loop_def)
      next
        case False
        obtain c3 l3 where u: "updateInterest env c2 l2 = (c3, l3)" by fastforce
        with None False 2(4) assms(2) have eq: "r = Inr True" "c' = c3" "l' = l3" by auto
        have "evolves env c2 l2 c3 l3" by (rule evolves_reg[OF reg_update[OF u]])
        from evolves_trans[OF ev this] show ?thesis using eq st False updateInterest_keeps[OF u] by simp
      qed
    qed
  qed
  then show "evolves env c l c' l'"
    and "r = Inr True \<Longrightarrow> settled c' \<and> length (cl_outbuf c') - cl_outSent c' \<le> kMaxOutputBytes" by simp_all
qed

definition read_ok :: "nb_read list \<Rightarrow> bool" where
  "read_ok as \<longleftrightarrow> (\<forall>d. NrData d \<in> set as \<longrightarrow> length d \<le> kLoopReadChunk)"

lemma readFrom_simps [simp]:
  "readFrom [] c = (True, False, c)"
  "readFrom (NrEintr # as) c = (if cl_readingPaused c then (True, False, c) else readFrom as c)"
  "readFrom (NrAgain # as) c = (True, False, c)"
  "readFrom (NrErr # as) c = (cl_readingPaused c, False, c)"
  "readFrom (NrEof # as) c = (True, \<not> cl_readingPaused c, c)"
  "readFrom (NrData d # as) c =
     (if cl_readingPaused c then (True, False, c) else (True, False, c\<lparr>cl_inbuf := cl_inbuf c @ d\<rparr>))"
  by (subst readFrom.simps, simp)+

lemma readFrom_spec:
  assumes "settled c" and "read_ok as" and "readFrom as c = (ok, peerClosed, c')"
  shows "steady c'" and "same_wants c c'"
proof -
  have "steady c' \<and> same_wants c c'"
    using assms(2,3)
  proof (induction "as")
    case Nil
    with assms(1) show ?case by (simp add: settled_def)
  next
    case (Cons a "as")
    show ?case
    proof (cases a)
      case (NrData d)
      then have "length d \<le> kLoopReadChunk" using Cons.prems(1) by (simp add: read_ok_def)
      with NrData Cons.prems(2) assms(1) show ?thesis
        by (auto simp: settled_def steady_def same_wants_def split: if_splits)
    next
      case NrEintr
      with Cons assms(1) show ?thesis by (auto simp: read_ok_def settled_def split: if_splits)
    qed (use Cons.prems(2) assms(1) in \<open>auto simp: settled_def\<close>)
  qed
  then show "steady c'" and "same_wants c c'" by simp_all
qed

text \<open>The part of \<open>handleClient\<close> for a readable descriptor.\<close>

definition handleReadable ::
  "(string \<Rightarrow> u64) \<Rightarrow> loop_env \<Rightarrow> event_io \<Rightarrow> client \<Rightarrow> event_loop \<Rightarrow> (syscall_error + bool) \<times> client \<times> event_loop" where
  "handleReadable hash env io c l =
     (case readFrom (ei_read io) c of
        (False, peerClosed, c2) \<Rightarrow> (Inr False, c2, l)
      | (True, peerClosed, c2) \<Rightarrow>
          (case processInput hash env c2 l of
             (Some e, c3, l3) \<Rightarrow> (Inl e, c3, l3)
           | (None, c3, l3) \<Rightarrow>
               (case flush hash env (ei_flush2 io) c3 l3 of
                  (Inr True, c4, l4) \<Rightarrow>
                    (Inr True, if peerClosed then c4\<lparr>cl_closeAfterFlush := True, cl_readingPaused := True\<rparr> else c4, l4)
                | r \<Rightarrow> r)))"

text \<open>What holds before the last checks of \<open>handleClient\<close>.\<close>

definition nearly :: "client \<Rightarrow> bool" where
  "nearly c \<longleftrightarrow> length (cl_outbuf c) - cl_outSent c \<le> kMaxOutputBytes \<and>
     (settled c \<or> cl_closeAfterFlush c \<and> cl_outSent c \<le> length (cl_outbuf c))"

lemma handleReadable_spec:
  assumes "settled c" and "read_ok (ei_read io)" and "handleReadable hash env io c l = (r, c', l')"
  shows "evolves env c l c' l'" and "r = Inr True \<Longrightarrow> nearly c'"
proof -
  obtain ok peerClosed c2 where rd: "readFrom (ei_read io) c = (ok, peerClosed, c2)" using prod_cases3 by blast
  note r2 = readFrom_spec[OF assms(1,2) rd]
  obtain t c3 l3 where pr: "processInput hash env c2 l = (t, c3, l3)" using prod_cases3 by blast
  note p3 = processInput_settles[OF r2(1) pr]
  obtain f c4 l4 where fl: "flush hash env (ei_flush2 io) c3 l3 = (f, c4, l4)" using prod_cases3 by blast
  have ev3: "evolves env c l c3 l3" using evolves_trans[OF evolves_same[OF r2(2)] evolves_same[OF p3(1,2)]] by simp
  have "evolves env c l c' l' \<and> (r = Inr True \<longrightarrow> nearly c')"
  proof (cases ok)
    case False
    with rd assms(3) evolves_same[OF r2(2) same_refl(2), of env] show ?thesis by (auto simp: handleReadable_def)
  next
    case True
    show ?thesis
    proof (cases t)
      case (Some e)
      with True rd pr assms(3) ev3 show ?thesis by (auto simp: handleReadable_def)
    next
      case None
      note f4 = flush_spec[OF p3(6)[OF None] fl]
      have ev4: "evolves env c l c4 l4" by (rule evolves_trans[OF ev3 f4(1)])
      show ?thesis
      proof (cases "f = Inr True")
        case fT: True
        let ?c = "if peerClosed then c4\<lparr>cl_closeAfterFlush := True, cl_readingPaused := True\<rparr> else c4"
        have "r = Inr True" "c' = ?c" "l' = l4" using True None rd pr fl fT assms(3) by (simp_all add: handleReadable_def)
        moreover have "evolves env c l ?c l4" by (rule evolves_wants[OF ev4]) (simp_all add: same_wants_def)
        moreover have "nearly ?c" using f4(2)[OF fT] by (auto simp: nearly_def settled_def steady_def)
        ultimately show ?thesis by simp
      next
        case False
        then have "r = f" "c' = c4" "l' = l4"
          using True None rd pr fl assms(3) by (auto simp: handleReadable_def split: sum.splits bool.splits)
        with ev4 False show ?thesis by simp
      qed
    qed
  qed
  then show "evolves env c l c' l'" and "r = Inr True \<Longrightarrow> nearly c'" by simp_all
qed

lemma handleClient_alt:
  "handleClient hash env io event c l =
     (case (if ev_writable event then flush hash env (ei_flush1 io) c l else (Inr True, c, l)) of
        (Inl e, c1, l1) \<Rightarrow> (Inl e, c1, l1)
      | (Inr False, c1, l1) \<Rightarrow> (Inr True, c1, l1)
      | (Inr True, c1, l1) \<Rightarrow>
          (case (if ev_readable event then handleReadable hash env io c1 l1 else (Inr True, c1, l1)) of
             (Inl e, c5, l5) \<Rightarrow> (Inl e, c5, l5)
           | (Inr False, c5, l5) \<Rightarrow> (Inr True, c5, l5)
           | (Inr True, c5, l5) \<Rightarrow>
               if ev_closed event \<and> \<not> ev_readable event then (Inr True, c5, l5)
               else if cl_closeAfterFlush c5 \<and> length (cl_outbuf c5) \<le> cl_outSent c5 then (Inr True, c5, l5)
               else (let (c6, l6) = updateInterest env c5 l5 in (Inr False, c6, l6))))"
  unfolding handleClient_def handleReadable_def ..

lemma nearly_inv:
  assumes "nearly c" and "\<not> (cl_closeAfterFlush c \<and> length (cl_outbuf c) \<le> cl_outSent c)" and "updateInterest env c l = (c', l')"
  shows "client_inv c'"
proof -
  have "settled c"
    using assms(1,2) by (auto simp: nearly_def settled_def steady_def)
  with assms updateInterest_keeps[OF assms(3)] updateInterest_client(1,2)[OF assms(3)] show ?thesis
    by (auto simp: client_inv_def nearly_def)
qed

lemma handleClient_spec:
  assumes "client_inv c" and "read_ok (ei_read io)" and "handleClient hash env io event c l = (r, c', l')"
  shows "evolves env c l c' l'" and "r = Inr False \<Longrightarrow> client_inv c'"
proof -
  have s0: "settled c" and b0: "length (cl_outbuf c) - cl_outSent c \<le> kMaxOutputBytes"
    using assms(1) by (simp_all add: client_inv_def)
  obtain r1 c1 l1 where f1: "(if ev_writable event then flush hash env (ei_flush1 io) c l else (Inr True, c, l)) = (r1, c1, l1)"
    using prod_cases3 by blast
  have st1: "evolves env c l c1 l1 \<and> (r1 = Inr True \<longrightarrow> settled c1 \<and> nearly c1)"
  proof (cases "ev_writable event")
    case True
    with f1 have f: "flush hash env (ei_flush1 io) c l = (r1, c1, l1)" by simp
    from flush_spec[OF s0 f] show ?thesis by (simp add: nearly_def)
  next
    case False
    with f1 s0 b0 evolves_same[OF same_refl(1) same_refl(2), of env c l] show ?thesis by (simp add: nearly_def)
  qed
  then have ev1: "evolves env c l c1 l1" by (rule conjunct1)
  obtain r5 c5 l5 where f5: "(if ev_readable event then handleReadable hash env io c1 l1 else (Inr True, c1, l1)) = (r5, c5, l5)"
    using prod_cases3 by blast
  have "evolves env c l c' l' \<and> (r = Inr False \<longrightarrow> client_inv c')"
  proof (cases "r1 = Inr True")
    case False
    with f1 assms(3) ev1 show ?thesis by (auto simp: handleClient_alt split: sum.splits bool.splits)
  next
    case True
    have s1: "settled c1" and n1: "nearly c1" using st1 True by simp_all
    have st5: "evolves env c1 l1 c5 l5 \<and> (r5 = Inr True \<longrightarrow> nearly c5)"
    proof (cases "ev_readable event")
      case True
      with f5 have h: "handleReadable hash env io c1 l1 = (r5, c5, l5)" by simp
      from handleReadable_spec[OF s1 assms(2) h] show ?thesis by simp
    next
      case False
      with f5 n1 evolves_same[OF same_refl(1) same_refl(2), of env c1 l1] show ?thesis by simp
    qed
    have ev: "evolves env c l c5 l5" using evolves_trans[OF ev1] st5 by blast
    show ?thesis
    proof (cases "r5 = Inr True")
      case False
      with True f1 f5 assms(3) ev show ?thesis by (auto simp: handleClient_alt split: sum.splits bool.splits)
    next
      case r5: True
      obtain c6 l6 where u: "updateInterest env c5 l5 = (c6, l6)" by fastforce
      have fin: "(r, c', l') = (if ev_closed event \<and> \<not> ev_readable event then (Inr True, c5, l5)
          else if cl_closeAfterFlush c5 \<and> length (cl_outbuf c5) \<le> cl_outSent c5 then (Inr True, c5, l5)
          else (let (c6, l6) = updateInterest env c5 l5 in (Inr False, c6, l6)))"
        using assms(3) unfolding handleClient_alt f1 \<open>r1 = Inr True\<close> prod.case sum.case bool.case f5 r5 by simp
      show ?thesis
      proof (cases "ev_closed event \<and> \<not> ev_readable event \<or> cl_closeAfterFlush c5 \<and> length (cl_outbuf c5) \<le> cl_outSent c5")
        case True
        then have "(r, c', l') = (Inr True, c5, l5)" using fin by (auto split: if_splits)
        with ev show ?thesis by simp
      next
        case False
        then have "c' = c6" "l' = l6" using fin u by auto
        with False nearly_inv[OF _ _ u] st5 r5 evolves_trans[OF ev evolves_reg[OF reg_update[OF u]]] show ?thesis by auto
      qed
    qed
  qed
  then show "evolves env c l c' l'" and "r = Inr False \<Longrightarrow> client_inv c'" by simp_all
qed


subsection \<open>The loop\<close>

text \<open>
  \<open>trusted\<close> says that the poller did what it was told; without it the registrations are left out.
\<close>

definition conn_ok :: "event_loop \<Rightarrow> bool" where
  "conn_ok l \<longleftrightarrow> um_wf (el_clients l) \<and> (\<forall>fd c. map_of (el_clients l) fd = Some c \<longrightarrow> cl_fd c = fd)"

definition regs :: "loop_env \<Rightarrow> event_loop \<Rightarrow> bool" where
  "regs env l \<longleftrightarrow> poller_ok (le_ctl env) (el_poller l) \<and>
     (\<forall>fd c. map_of (el_clients l) fd = Some c \<longrightarrow> told (el_poller l) fd = Some (cl_wantsRead c, cl_wantsWrite c))"

definition live :: "event_loop \<Rightarrow> bool" where
  "live l \<longleftrightarrow> (\<forall>fd c. map_of (el_clients l) fd = Some c \<longrightarrow> fd \<notin> set (el_pendingClose l) \<longrightarrow> client_inv c)"

definition loop_inv :: "bool \<Rightarrow> loop_env \<Rightarrow> event_loop \<Rightarrow> bool" where
  "loop_inv trusted env l \<longleftrightarrow> conn_ok l \<and> live l \<and> (trusted \<longrightarrow> regs env l)"

lemma conn_ok_client: "conn_ok l \<Longrightarrow> map_of (el_clients l) k = Some d \<Longrightarrow> cl_fd d = k"
  by (simp add: conn_ok_def)

lemma regs_client: "conn_ok l \<Longrightarrow> regs env l \<Longrightarrow> map_of (el_clients l) k = Some d \<Longrightarrow> reg_ok env d l"
  by (simp add: conn_ok_def regs_def reg_ok_def)

lemma client_updated:
  assumes "conn_ok l" and "map_of (el_clients l) fd = Some c" and "evolves env c l c' l'"
    and "el_clients l'' = AList.update fd c' (el_clients l')" and "el_poller l'' = el_poller l'"
  shows "conn_ok l''" and "regs env l \<Longrightarrow> regs env l''"
proof -
  have c: "cl_fd c = fd" "cl_fd c' = fd" using conn_ok_client[OF assms(1,2)] assms(3) by (simp_all add: evolves_def)
  have cl: "el_clients l' = el_clients l" using assms(3) by (simp add: evolves_def others_kept_def)
  show "conn_ok l''" using assms(1,4) cl c by (auto simp: conn_ok_def)
  assume r: "regs env l"
  from regs_client[OF assms(1) r assms(2)] assms(3) c
  have "reg_ok env c' l'" "\<forall>k. k \<noteq> fd \<longrightarrow> told (el_poller l') k = told (el_poller l) k" by (simp_all add: evolves_def)
  with r c cl assms(4,5) show "regs env l''" by (auto simp: regs_def reg_ok_def)
qed

lemma poller_add_regs:
  assumes "regs env l" and "poller_add (le_ctl env) fd True False (el_poller l) = (b, p)"
    and "el_poller l' = p" and "b \<longrightarrow> el_clients l' = AList.update fd (newClient fd) (el_clients l)"
    and "\<not> b \<longrightarrow> el_clients l' = el_clients l"
  shows "regs env l'" and "b \<Longrightarrow> map_of (el_clients l) fd = None"
proof -
  have ok: "poller_ok (le_ctl env) (el_poller l)" using assms(1) by (simp add: regs_def)
  note a = anyset.add_inv[OF ok, of fd True False] anyset.add_told[OF ok, of fd True False]
  have p: "p = snd (poller_add (le_ctl env) fd True False (el_poller l))" "b = fst (poller_add (le_ctl env) fd True False (el_poller l))"
    using assms(2) by simp_all
  have ok': "poller_ok (le_ctl env) p" and b: "b = (told (el_poller l) fd = None)"
    and t: "told p = (if b then (told (el_poller l))(fd \<mapsto> (True, False)) else told (el_poller l))"
    using a p by simp_all
  have cl: "told (el_poller l) k = Some (cl_wantsRead c, cl_wantsWrite c)" if "map_of (el_clients l) k = Some c" for k c
    using assms(1) that by (simp add: regs_def)
  show "b \<Longrightarrow> map_of (el_clients l) fd = None"
    using b cl[of fd] by (cases "map_of (el_clients l) fd") simp_all
  have "told p k = Some (cl_wantsRead c, cl_wantsWrite c)" if m: "map_of (el_clients l') k = Some c" for k c
  proof (cases b)
    case True
    with m assms(4) have "if k = fd then c = newClient fd else map_of (el_clients l) k = Some c" by (simp split: if_splits)
    with True t cl[of k c] show ?thesis by (simp add: newClient_def split: if_splits)
  next
    case False
    with m assms(5) t cl[of k c] show ?thesis by simp
  qed
  with ok' assms(3) show "regs env l'" by (simp add: regs_def)
qed

lemma acceptNew_inv:
  "loop_inv trusted env l \<Longrightarrow> loop_inv trusted env (acceptNew env n as l) \<and>
     el_pendingClose (acceptNew env n as l) = el_pendingClose l \<and> el_listener (acceptNew env n as l) = el_listener l"
proof (induction "as" arbitrary: n l)
  case Nil
  then show ?case by (cases n) simp_all
next
  case (Cons a "as")
  have co: "conn_ok l" "live l" and rg: "trusted \<Longrightarrow> regs env l" using Cons.prems by (simp_all add: loop_inv_def)
  show ?case
  proof (cases n)
    case (Suc i)
    show ?thesis
    proof (cases a)
      case (AcceptFd fd nonBlockOk)
      obtain b p where ad: "poller_add (le_ctl env) fd True False (el_poller l) = (b, p)" by fastforce
      let ?l1 = "l\<lparr>el_poller := p\<rparr>"
      have inv1: "loop_inv trusted env ?l1" if "\<not> b"
        using co rg poller_add_regs(1)[OF rg ad, of ?l1] that by (auto simp: loop_inv_def conn_ok_def live_def)
      let ?l2 = "l\<lparr>el_poller := p,
          el_clients := (if map_of (el_clients l) fd = None then AList.update fd (newClient fd) (el_clients l) else el_clients l),
          el_accepted := el_accepted l + 1\<rparr>"
      have inv2: "loop_inv trusted env ?l2" if b
      proof -
        have "conn_ok ?l2" using co(1) by (auto simp: conn_ok_def newClient_def)
        moreover have "live ?l2" using co(2) newClient_inv[of fd] by (auto simp: live_def)
        moreover have "regs env ?l2" if trusted
          using poller_add_regs[OF rg[OF that] ad, of ?l2] \<open>b\<close> poller_add_regs(2)[OF rg[OF that] ad, of "l\<lparr>el_poller := p,
            el_clients := AList.update fd (newClient fd) (el_clients l)\<rparr>"] by simp
        ultimately show ?thesis by (simp add: loop_inv_def)
      qed
      show ?thesis
        using Cons.IH[OF Cons.prems, of i] Cons.IH[of ?l1 i] inv1 Cons.IH[of ?l2 i] inv2 ad Suc AcceptFd
        by (cases nonBlockOk; cases b) simp_all
    qed (use Cons.prems Suc in simp_all)
  qed (use Cons.prems in simp)
qed

end
