(* ===== verification/LoopProperties.thy ===== *)
theory LoopProperties
  imports LoopInvariant
begin

text \<open>
  The properties of the event loop over whole runs: every turn keeps the invariant, and what it
  says of the clients; the order of the bytes sent; and the input buffer of a client that
  has asked to quit.
\<close>

subsection \<open>Turns\<close>

lemma handleEvents_inv:
  assumes "loop_inv trusted env l" and "\<forall>r \<in> set rs. read_ok (ei_read (ri_io r))"
    and "distinct (map (\<lambda>r. ev_fd (ri_event r)) rs)"
    and "\<forall>r \<in> set rs. ev_fd (ri_event r) \<notin> set (el_pendingClose l)"
    and "handleEvents hash env rs l = (None, l')"
  shows "loop_inv trusted env l'"
  using assms
proof (induction rs arbitrary: l)
  case (Cons r rs)
  let ?fd = "ev_fd (ri_event r)"
  show ?case
  proof (cases "?fd = el_listener l")
    case True
    let ?l1 = "acceptNew env kMaxAcceptsPerEvent (ri_accepts r) l"
    from Cons.prems(5) True have "handleEvents hash env rs ?l1 = (None, l')" by (simp add: Let_def)
    with acceptNew_inv[OF Cons.prems(1), of kMaxAcceptsPerEvent "ri_accepts r"] Cons.prems Cons.IH[of ?l1] show ?thesis
      by simp
  next
    case nl: False
    show ?thesis
    proof (cases "map_of (el_clients l) ?fd")
      case None
      with Cons.prems nl Cons.IH[of l] show ?thesis by (simp add: Let_def)
    next
      case (Some c)
      have co: "conn_ok l" "live l" and rg: "trusted \<Longrightarrow> regs env l" using Cons.prems(1) by (simp_all add: loop_inv_def)
      have ci: "client_inv c" using co(2) Some Cons.prems(4) by (simp add: live_def)
      obtain q c1 l1 where h: "handleClient hash env (ri_io r) (ri_event r) c l = (q, c1, l1)" using prod_cases3 by blast
      note sp = handleClient_spec[OF ci _ h]
      from Cons.prems(5) nl Some h obtain close where q: "q = Inr close" by (cases q) (simp_all add: Let_def)
      let ?l2 = "l1\<lparr>el_clients := AList.update ?fd c1 (el_clients l1),
          el_pendingClose := (if close then el_pendingClose l1 @ [?fd] else el_pendingClose l1)\<rparr>"
      have rest: "handleEvents hash env rs ?l2 = (None, l')" using Cons.prems(5) nl Some h q by (simp add: Let_def)
      have ev: "evolves env c l c1 l1" using sp(1) Cons.prems(2) by simp
      have os: "el_clients l1 = el_clients l" "el_pendingClose l1 = el_pendingClose l"
        using ev by (simp_all add: evolves_def others_kept_def)
      have "conn_ok ?l2" by (rule client_updated(1)[OF co(1) Some ev]) simp_all
      moreover have "trusted \<longrightarrow> regs env ?l2" using client_updated(2)[OF co(1) Some ev _ _ rg, of ?l2] by simp
      moreover have "live ?l2"
        using co(2) os sp(2) Cons.prems(2) q by (auto simp: live_def split: if_splits)
      ultimately have "loop_inv trusted env ?l2" by (simp add: loop_inv_def)
      moreover have "\<forall>x \<in> set rs. ev_fd (ri_event x) \<notin> set (el_pendingClose ?l2)"
        using Cons.prems(3,4) os by (auto simp: image_iff)
      ultimately show ?thesis using Cons.IH[OF _ _ _ _ rest] Cons.prems(2,3) by simp
    qed
  qed
qed simp

lemma closeClient_conn:
  assumes "conn_ok l"
  shows "conn_ok (closeClient env fd l)" and "el_clients (closeClient env fd l) = AList.delete fd (el_clients l)"
    and "regs env l \<Longrightarrow> regs env (closeClient env fd l)"
proof -
  have um: "um_wf (el_clients l)" using assms by (simp add: conn_ok_def)
  show cl: "el_clients (closeClient env fd l) = AList.delete fd (el_clients l)"
    by (simp add: closeClient_def um_erase_absent split: option.splits)
  with assms um show "conn_ok (closeClient env fd l)" by (simp add: conn_ok_def)
  assume r: "regs env l"
  then have ok: "poller_ok (le_ctl env) (el_poller l)" by (simp add: regs_def)
  show "regs env (closeClient env fd l)"
  proof (cases "map_of (el_clients l) fd")
    case None
    with r show ?thesis by (simp add: closeClient_def)
  next
    case (Some c)
    then have "el_poller (closeClient env fd l) = snd (poller_remove (le_ctl env) fd (el_poller l))" by (simp add: closeClient_def)
    with r cl anyset.remove_inv[OF ok, of fd] anyset.remove_told[OF ok, of fd] show ?thesis
      by (simp add: regs_def)
  qed
qed

lemma closeClients_conn:
  "conn_ok l \<Longrightarrow> conn_ok (foldl (\<lambda>l fd. closeClient env fd l) l fds) \<and>
     (\<forall>k. map_of (el_clients (foldl (\<lambda>l fd. closeClient env fd l) l fds)) k
        = (if k \<in> set fds then None else map_of (el_clients l) k)) \<and>
     (regs env l \<longrightarrow> regs env (foldl (\<lambda>l fd. closeClient env fd l) l fds))"
proof (induction fds arbitrary: l)
  case (Cons fd fds)
  note c = closeClient_conn[OF Cons.prems, of env fd]
  from Cons.IH[OF c(1)] c(2,3) show ?case by auto
qed simp

lemma loop_turn_inv:
  assumes "loop_inv trusted env l" and "el_pendingClose l = []" and "\<forall>r \<in> set rs. read_ok (ei_read (ri_io r))"
    and "distinct (map (\<lambda>r. ev_fd (ri_event r)) rs)" and "loop_turn hash env (Some rs) l = (Continue, l')"
  shows "loop_inv trusted env l' \<and> el_pendingClose l' = []"
proof -
  obtain t l1 where h: "handleEvents hash env rs l = (t, l1)" by fastforce
  with assms(5) have t: "t = None" by (cases t) (simp_all add: loop_turn_def)
  have inv1: "loop_inv trusted env l1" using handleEvents_inv[OF assms(1,3,4)] assms(2) h t by simp
  let ?l2 = "foldl (\<lambda>l fd. closeClient env fd l) l1 (el_pendingClose l1)"
  have l': "l' = ?l2\<lparr>el_pendingClose := []\<rparr>" using assms(5) h t by (simp add: loop_turn_def)
  have cc: "conn_ok ?l2" "\<And>k. map_of (el_clients ?l2) k = (if k \<in> set (el_pendingClose l1) then None else map_of (el_clients l1) k)"
    and rg: "trusted \<longrightarrow> regs env ?l2"
    using closeClients_conn[of l1 env "el_pendingClose l1"] inv1 by (simp_all add: loop_inv_def)
  have "conn_ok l'" using cc(1) unfolding l' conn_ok_def by simp
  moreover have "trusted \<longrightarrow> regs env l'" using rg unfolding l' by (simp add: regs_def)
  moreover have "live l'" using inv1 cc(2) unfolding l' by (auto simp: loop_inv_def live_def)
  ultimately show ?thesis by (simp add: loop_inv_def l')
qed

text \<open>The kernel reports each descriptor at most once per wait and never reads past the buffer.\<close>

definition turn_ok :: "bool \<times> ready_io list option \<Rightarrow> bool" where
  "turn_ok x \<longleftrightarrow> (case snd x of
     None \<Rightarrow> True
   | Some rs \<Rightarrow> (\<forall>r \<in> set rs. read_ok (ei_read (ri_io r))) \<and> distinct (map (\<lambda>r. ev_fd (ri_event r)) rs))"

lemma loop_run_inv:
  assumes "loop_inv trusted env l" and "el_pendingClose l = []" and "\<forall>x \<in> set xs. turn_ok x"
    and "loop_run hash env xs l = (Continue, l')"
  shows "loop_inv trusted env l' \<and> el_pendingClose l' = []"
  using assms
proof (induction xs arbitrary: l)
  case (Cons x xs)
  obtain sd ready where x: "x = (sd, ready)" by fastforce
  from Cons.prems(4) x have sd: "\<not> sd" by auto
  obtain t l1 where t: "loop_turn hash env ready l = (t, l1)" by fastforce
  from Cons.prems(4) x sd t have tc: "t = Continue" by (cases t) simp_all
  then obtain rs where ready: "ready = Some rs" using t by (cases ready) (simp_all add: loop_turn_def)
  from Cons.prems(3) x ready have ok: "\<forall>r \<in> set rs. read_ok (ei_read (ri_io r))" "distinct (map (\<lambda>r. ev_fd (ri_event r)) rs)"
    by (simp_all add: turn_ok_def)
  from loop_turn_inv[OF Cons.prems(1,2) ok] t tc ready have "loop_inv trusted env l1 \<and> el_pendingClose l1 = []" by simp
  with Cons.IH[of l1] Cons.prems(3,4) x sd t tc show ?case by simp
qed simp

lemma newEventLoop_inv:
  assumes "newEventLoop env linux createOk kind listener s = Some l"
  shows "loop_inv (kind = PkPoll \<or> \<not> linux \<or> (\<forall>n. le_ctl env n)) env l \<and> el_pendingClose l = []"
proof -
  obtain p b p' where p: "makePoller linux createOk kind = Some p" and a: "poller_add (le_ctl env) listener True False p = (b, p')"
    using assms by (cases "makePoller linux createOk kind"; fastforce simp: newEventLoop_def)
  have l: "el_clients l = []" "el_pendingClose l = []" "el_poller l = p'"
    using assms p a by (auto simp: newEventLoop_def split: bool.splits)
  have "poller_ok (le_ctl env) p'" if "kind = PkPoll \<or> \<not> linux \<or> (\<forall>n. le_ctl env n)"
    using anyset.add_inv[OF makePoller_ok(1)[OF p that], of listener True False] a by simp
  with l show ?thesis by (simp add: loop_inv_def conn_ok_def live_def regs_def)
qed


subsection \<open>Properties\<close>



subsection \<open>Replies in order\<close>

fun loop_lines :: "loop_env \<Rightarrow> u64 \<Rightarrow> string list \<Rightarrow> (line_io \<times> string) list" where
  "loop_lines env n [] = []"
| "loop_lines env n (l # ls) = (le_line env n, l) # loop_lines env (n + 1) ls"

text \<open>What the client has been and will be sent.\<close>

definition sent_stream :: "client \<Rightarrow> event_loop \<Rightarrow> string" where
  "sent_stream c l = el_wire l (cl_fd c) @ drop (cl_outSent c) (cl_outbuf c)"

definition no_throw :: "line_result list \<Rightarrow> bool" where
  "no_throw rs \<longleftrightarrow> (\<forall>r \<in> set rs. \<exists>x. r = Inr x)"

text \<open>
  Some first lines of \<open>buf\<close> were handled by the session, one after the other, their replies
  went to the end of the stream, and the rest of \<open>buf\<close> is kept.
\<close>

definition served ::
  "(string \<Rightarrow> u64) \<Rightarrow> loop_env \<Rightarrow> string \<Rightarrow> client \<Rightarrow> event_loop \<Rightarrow> client \<Rightarrow> event_loop \<Rightarrow> bool" where
  "served hash env buf c l c' l' \<longleftrightarrow> (\<exists>n rs extra.
     n \<le> length (fst (split_lines buf)) \<and>
     handleLines hash (loop_lines env (el_commands l) (take n (fst (split_lines buf)))) (cl_session c) (el_store l)
       = (rs, cl_session c', el_store l') \<and>
     length rs = n \<and> no_throw rs \<and> el_commands l' = el_commands l + of_nat n \<and>
     split_lines (cl_inbuf c') = (drop n (fst (split_lines buf)), snd (split_lines buf)) \<and>
     sent_stream c' l' = sent_stream c l @ replies rs @ extra \<and>
     (extra = [] \<or> extra = ''-ERR line too long'' @ eol \<and> cl_closeAfterFlush c') \<and>
     (cl_closeAfterFlush c \<longrightarrow> n = 0 \<and> extra = [] \<and> cl_closeAfterFlush c'))"

lemma handleLines_app:
  assumes "handleLines hash xs se s = (rs, se', s')" and "no_throw rs" and "handleLines hash ys se' s' = (rs2, se2, s2)"
  shows "handleLines hash (xs @ ys) se s = (rs @ rs2, se2, s2)"
  using assms
proof (induction xs arbitrary: se s rs)
  case (Cons x xs)
  obtain io line where x: "x = (io, line)" by fastforce
  obtain r se1 s1 where h: "handleLine hash io line se s = (r, se1, s1)" using prod_cases3 by blast
  obtain rs1 se3 s3 where t: "handleLines hash xs se1 s1 = (rs1, se3, s3)" using prod_cases3 by blast
  from Cons.prems(1,2) x h have "\<exists>z. r = Inr z" by (cases r) (auto simp: no_throw_def)
  then obtain z where r: "r = Inr z" by blast
  from Cons.prems(1) x h t r have rs: "rs = Inr z # rs1" "se3 = se'" "s3 = s'" by simp_all
  with Cons.prems(2) have "no_throw rs1" by (simp add: no_throw_def)
  from Cons.IH[OF t[unfolded rs] this Cons.prems(3)] x h r rs show ?case by simp
qed simp

lemma loop_lines_append: "loop_lines env n (xs @ ys) = loop_lines env n xs @ loop_lines env (n + of_nat (length xs)) ys"
  by (induction xs arbitrary: n) (simp_all add: add.assoc)

lemma no_throw_append [simp]: "no_throw (xs @ ys) \<longleftrightarrow> no_throw xs \<and> no_throw ys"
  by (auto simp: no_throw_def)

lemma served_refl: "cl_inbuf c = buf \<Longrightarrow> served hash env buf c l c l"
  unfolding served_def by (rule exI[of _ 0]) (simp add: no_throw_def)

lemma served_trans:
  assumes "served hash env buf c l c1 l1" and "served hash env (cl_inbuf c1) c1 l1 c2 l2"
  shows "served hash env buf c l c2 l2"
proof -
  let ?ls = "fst (split_lines buf)"
  obtain n rs x where a: "n \<le> length ?ls"
    "handleLines hash (loop_lines env (el_commands l) (take n ?ls)) (cl_session c) (el_store l) = (rs, cl_session c1, el_store l1)"
    "length rs = n" "no_throw rs" "el_commands l1 = el_commands l + of_nat n"
    "split_lines (cl_inbuf c1) = (drop n ?ls, snd (split_lines buf))"
    "sent_stream c1 l1 = sent_stream c l @ replies rs @ x"
    "x = [] \<or> x = ''-ERR line too long'' @ eol \<and> cl_closeAfterFlush c1"
    "cl_closeAfterFlush c \<longrightarrow> n = 0 \<and> x = [] \<and> cl_closeAfterFlush c1"
    using assms(1) unfolding served_def by blast
  obtain m rs2 y where b: "m \<le> length (fst (split_lines (cl_inbuf c1)))"
    "handleLines hash (loop_lines env (el_commands l1) (take m (fst (split_lines (cl_inbuf c1))))) (cl_session c1) (el_store l1)
      = (rs2, cl_session c2, el_store l2)"
    "length rs2 = m" "no_throw rs2" "el_commands l2 = el_commands l1 + of_nat m"
    "split_lines (cl_inbuf c2) = (drop m (fst (split_lines (cl_inbuf c1))), snd (split_lines (cl_inbuf c1)))"
    "sent_stream c2 l2 = sent_stream c1 l1 @ replies rs2 @ y"
    "y = [] \<or> y = ''-ERR line too long'' @ eol \<and> cl_closeAfterFlush c2"
    "cl_closeAfterFlush c1 \<longrightarrow> m = 0 \<and> y = [] \<and> cl_closeAfterFlush c2"
    using assms(2) unfolding served_def by blast
  have tk: "take (n + m) ?ls = take n ?ls @ take m (drop n ?ls)" by (rule take_add)
  have h: "handleLines hash (loop_lines env (el_commands l) (take (n + m) ?ls)) (cl_session c) (el_store l)
      = (rs @ rs2, cl_session c2, el_store l2)"
    using handleLines_app[OF a(2,4)] b(2) a(1,5,6) unfolding tk loop_lines_append by (simp add: min_absorb2)
  have x: "x = [] \<or> m = 0 \<and> y = [] \<and> rs2 = []" using a(8) b(3,9) by auto
  show ?thesis
    unfolding served_def
  proof (intro exI[of _ "n + m"] exI[of _ "rs @ rs2"] exI[of _ "x @ y"] conjI)
    show "sent_stream c2 l2 = sent_stream c l @ replies (rs @ rs2) @ x @ y" using a(7) b(7) x by auto
    show "x @ y = [] \<or> x @ y = ''-ERR line too long'' @ eol \<and> cl_closeAfterFlush c2" using a(8) b(8,9) x by auto
    show "cl_closeAfterFlush c \<longrightarrow> n + m = 0 \<and> x @ y = [] \<and> cl_closeAfterFlush c2" using a(9) b(9) by auto
    show "split_lines (cl_inbuf c2) = (drop (n + m) ?ls, snd (split_lines buf))" using a(6) b(6) by (simp add: add.commute)
    show "n + m \<le> length ?ls" using a(1,6) b(1) by simp
  qed (use a b h in \<open>simp_all add: add.assoc\<close>)
qed

lemma served_stream:
  assumes "cl_inbuf c' = cl_inbuf c" and "cl_session c' = cl_session c" and "cl_closeAfterFlush c \<longrightarrow> cl_closeAfterFlush c'"
    and "el_store l' = el_store l" and "el_commands l' = el_commands l" and "sent_stream c' l' = sent_stream c l"
  shows "served hash env (cl_inbuf c) c l c' l'"
  unfolding served_def by (rule exI[of _ 0]) (use assms in \<open>simp add: no_throw_def\<close>)

lemma processInput_serves:
  assumes "cl_outSent c \<le> length (cl_outbuf c)" and "processInput hash env c l = (None, c', l')"
  shows "served hash env (cl_inbuf c) c l c' l'"
  using assms
proof (induction "length (cl_inbuf c)" arbitrary: c l rule: less_induct)
  case less
  show ?case
  proof (cases rule: processInput_cases[of c hash env l])
    case 2
    with less.prems have c': "c' = c\<lparr>cl_outbuf := cl_outbuf c @ ''-ERR line too long'' @ eol, cl_closeAfterFlush := True\<rparr>" "l' = l"
      by auto
    show ?thesis
      unfolding served_def c' using less.prems(1) 2(1)
      by (intro exI[of _ 0] exI[of _ "[]"] exI[of _ "''-ERR line too long'' @ eol"])
        (simp add: no_throw_def sent_stream_def)
  next
    case (5 line rest reply quit se s c1 l1)
    have sl: "split_lines (cl_inbuf c) = (line # fst (split_lines rest), snd (split_lines rest))"
      using 5(2) by (simp add: split_lines.simps[of "cl_inbuf c"] split_beta Let_def)
    have one: "served hash env (cl_inbuf c) c l d l1"
      if "cl_session d = se" "cl_inbuf d = rest" "cl_outbuf d = cl_outbuf c @ reply" "cl_outSent d = cl_outSent c"
        "cl_fd d = cl_fd c" for d
      unfolding served_def using that 5(1,3,5) sl less.prems(1)
      by (intro exI[of _ 1] exI[of _ "[Inr (reply, quit)]"] exI[of _ "[]"])
        (simp add: no_throw_def sent_stream_def)
    consider "quit" | "\<not> quit" "length (cl_outbuf c1) - cl_outSent c1 > kPauseReadingAboveBytes"
      | "\<not> quit" "\<not> length (cl_outbuf c1) - cl_outSent c1 > kPauseReadingAboveBytes" by blast
    then show ?thesis
    proof cases
      case 1
      with less.prems(2) 5(6) have "c' = c1\<lparr>cl_closeAfterFlush := True\<rparr>" "l' = l1" by simp_all
      with one[of c'] 5(4) show ?thesis by simp
    next
      case 2
      with less.prems(2) 5(6) have "c' = c1\<lparr>cl_readingPaused := True\<rparr>" "l' = l1" by simp_all
      with one[of c'] 5(4) show ?thesis by simp
    next
      case 3
      with less.prems(2) 5(6) have p: "processInput hash env c1 l1 = (None, c', l')" by simp
      have sh: "length (cl_inbuf c1) < length (cl_inbuf c)" using take_line_shorter[OF 5(2)] 5(4) by simp
      have "served hash env (cl_inbuf c1) c1 l1 c' l'" by (rule less.hyps[OF sh _ p]) (use less.prems(1) 5(4) in simp)
      moreover have "served hash env (cl_inbuf c) c l c1 l1" by (rule one) (use 5(4) in simp_all)
      ultimately show ?thesis by (rule served_trans[rotated])
    qed
  qed (use less.prems(2) in \<open>auto intro: served_refl\<close>)
qed

lemma after_writes_serves:
  assumes "cl_outSent c \<le> length (cl_outbuf c)" and "after_writes hash env c l = (None, c', l')"
  shows "served hash env (cl_inbuf c) c l c' l'"
proof (cases "length (cl_outbuf c) \<le> cl_outSent c \<and> cl_readingPaused c")
  case True
  let ?d = "c\<lparr>cl_outbuf := [], cl_outSent := 0, cl_readingPaused := False\<rparr>"
  have p: "processInput hash env ?d l = (None, c', l')" using assms(2) True by (simp add: after_writes_def)
  have "served hash env (cl_inbuf c) c l ?d l" by (rule served_stream) (use True in \<open>simp_all add: sent_stream_def\<close>)
  moreover have "served hash env (cl_inbuf ?d) ?d l c' l'" by (rule processInput_serves[OF _ p]) simp
  ultimately show ?thesis by (rule served_trans)
next
  case False
  with assms(2) show ?thesis
    by (intro served_stream) (auto simp: after_writes_def sent_stream_def Let_def split: if_splits)
qed

lemma wired_stream:
  assumes "cl_outSent c \<le> sent" and "sent \<le> length (cl_outbuf c)" and "el_wire l1 = el_wire (wired c sent l)"
  shows "sent_stream (c\<lparr>cl_outSent := sent\<rparr>) l1 = sent_stream c l"
proof -
  let ?d = "drop (cl_outSent c) (cl_outbuf c)"
  have "drop sent (cl_outbuf c) = drop (sent - cl_outSent c) ?d" using assms(1) by simp
  then have "take (sent - cl_outSent c) ?d @ drop sent (cl_outbuf c) = ?d" by (metis append_take_drop_id)
  then show ?thesis using assms(3) by (simp add: sent_stream_def wired_def)
qed

lemma updateInterest_serves:
  assumes "updateInterest env c l = (c', l')"
  shows "served hash env (cl_inbuf c) c l c' l'"
  by (rule served_stream) (use assms in \<open>auto simp: updateInterest_def Let_def sent_stream_def split: if_splits\<close>)

lemma flush_serves:
  assumes "cl_outSent c \<le> length (cl_outbuf c)" and "flush hash env as c l = (Inr b, c', l')"
  shows "served hash env (cl_inbuf c) c l c' l'"
proof (cases rule: flush_cases[of "as" c hash env l])
  case (1 sent)
  note sent = flush_loop_sent[OF assms(1), of "as", folded 1(1)]
  have eq: "c' = c\<lparr>cl_outSent := sent\<rparr>" "l' = wired c sent l" using 1 assms(2) by simp_all
  show ?thesis
    by (rule served_stream) (use eq sent wired_stream[of c sent l' l] in \<open>simp_all add: wired_def\<close>)
next
  case (2 sent l1 r2 c2 l2)
  note sent = flush_loop_sent[OF assms(1), of "as", folded 2(1)]
  let ?c = "c\<lparr>cl_outSent := sent\<rparr>"
  have "el_wire l1 = el_wire (wired c sent l)" "el_store l1 = el_store l" "el_commands l1 = el_commands l"
    using 2(2) by (auto simp: wired_def)
  then have "served hash env (cl_inbuf c) c l ?c l1" by (intro served_stream) (use sent wired_stream[of c sent l1 l] in simp_all)
  moreover have r2: "r2 = None" using 2(4) assms(2) by (cases r2) simp_all
  moreover have "served hash env (cl_inbuf ?c) ?c l1 c2 l2" using after_writes_serves[of ?c hash env l1 c2 l2] sent 2(3) r2 by simp
  ultimately have s2: "served hash env (cl_inbuf c) c l c2 l2" using served_trans by blast
  show ?thesis
  proof (cases "length (cl_outbuf c2) - cl_outSent c2 > kMaxOutputBytes")
    case True
    with 2(4) r2 assms(2) have eq: "c' = c2" "l' = l2\<lparr>el_evicted := el_evicted l2 + 1\<rparr>" by simp_all
    have "served hash env (cl_inbuf c2) c2 l2 c' l'" by (rule served_stream) (simp_all add: eq sent_stream_def)
    with s2 show ?thesis by (rule served_trans)
  next
    case False
    with 2(4) r2 assms(2) have "updateInterest env c2 l2 = (c', l')" by (auto split: prod.splits)
    from served_trans[OF s2 updateInterest_serves[OF this]] show ?thesis .
  qed
qed

lemma served_read:
  assumes "served hash env buf c l c1 l1" and "c2 = c1\<lparr>cl_inbuf := cl_inbuf c1 @ bytes\<rparr>"
  shows "served hash env (buf @ bytes) c l c2 l1"
proof -
  let ?ls = "fst (split_lines buf)"
  obtain n rs x where a: "n \<le> length ?ls"
    "handleLines hash (loop_lines env (el_commands l) (take n ?ls)) (cl_session c) (el_store l) = (rs, cl_session c1, el_store l1)"
    "length rs = n" "no_throw rs" "el_commands l1 = el_commands l + of_nat n"
    "split_lines (cl_inbuf c1) = (drop n ?ls, snd (split_lines buf))"
    "sent_stream c1 l1 = sent_stream c l @ replies rs @ x"
    "x = [] \<or> x = ''-ERR line too long'' @ eol \<and> cl_closeAfterFlush c1"
    "cl_closeAfterFlush c \<longrightarrow> n = 0 \<and> x = [] \<and> cl_closeAfterFlush c1"
    using assms(1) unfolding served_def by blast
  have "fst (split_lines (buf @ bytes)) = ?ls @ fst (split_lines (snd (split_lines buf) @ bytes))"
    "snd (split_lines (buf @ bytes)) = snd (split_lines (snd (split_lines buf) @ bytes))"
    "split_lines (cl_inbuf c2) = (drop n ?ls @ fst (split_lines (snd (split_lines buf) @ bytes)),
       snd (split_lines (snd (split_lines buf) @ bytes)))"
    using split_lines_append[of buf bytes] split_lines_append[of "cl_inbuf c1" bytes] a(6) assms(2) by simp_all
  with a assms(2) show ?thesis
    unfolding served_def by (intro exI[of _ n] exI[of _ rs] exI[of _ x]) (simp add: sent_stream_def)
qed

lemma readFrom_reads:
  assumes "readFrom as c = (ok, peerClosed, c')"
  shows "c' = c \<or> (\<exists>bytes. NrData bytes \<in> set as \<and> c' = c\<lparr>cl_inbuf := cl_inbuf c @ bytes\<rparr>)"
  using assms
proof (induction "as")
  case (Cons a "as")
  then show ?case by (cases a) (auto split: if_splits)
qed simp

lemma handleReadable_serves:
  assumes "settled c" and "read_ok (ei_read io)" and "handleReadable hash env io c l = (Inr r, c', l')"
  shows "\<exists>bytes. (bytes = [] \<or> NrData bytes \<in> set (ei_read io)) \<and>
    (\<forall>buf c0 l0. served hash env buf c0 l0 c l \<longrightarrow> served hash env (buf @ bytes) c0 l0 c' l')"
proof -
  obtain ok peerClosed c2 where rd: "readFrom (ei_read io) c = (ok, peerClosed, c2)" using prod_cases3 by blast
  obtain bytes where bytes: "bytes = [] \<or> NrData bytes \<in> set (ei_read io)" "c2 = c\<lparr>cl_inbuf := cl_inbuf c @ bytes\<rparr>"
    using readFrom_reads[OF rd] by (metis (no_types) append_Nil2 client.surjective client.update_convs(3))
  note r2 = readFrom_spec(1)[OF assms(1,2) rd]
  obtain t c3 l3 where pr: "processInput hash env c2 l = (t, c3, l3)" using prod_cases3 by blast
  obtain f c4 l4 where fl: "flush hash env (ei_flush2 io) c3 l3 = (f, c4, l4)" using prod_cases3 by blast
  have "served hash env (cl_inbuf c2) c2 l c' l'"
  proof (cases ok)
    case False
    with rd assms(3) show ?thesis by (auto simp: handleReadable_def intro: served_refl)
  next
    case True
    have t: "t = None" using assms(3) True rd pr by (cases t) (simp_all add: handleReadable_def)
    have "settled c3" using processInput_settles(6)[OF r2 pr t] .
    then have le: "cl_outSent c2 \<le> length (cl_outbuf c2)" "cl_outSent c3 \<le> length (cl_outbuf c3)"
      using r2 by (simp_all add: settled_def steady_def)
    obtain b where f: "f = Inr b" using assms(3) True rd pr t fl by (cases f) (simp_all add: handleReadable_def)
    have s4: "served hash env (cl_inbuf c2) c2 l c4 l4"
      using served_trans[OF processInput_serves[OF le(1)] flush_serves[OF le(2)]] pr t fl f by simp
    have "served hash env (cl_inbuf c4) c4 l4 c' l'"
      by (rule served_stream) (use assms(3) True rd pr t fl f in
        \<open>auto simp: handleReadable_def sent_stream_def split: bool.splits\<close>)
    with s4 show ?thesis by (rule served_trans)
  qed
  then have "served hash env (buf @ bytes) c0 l0 c' l'" if "served hash env buf c0 l0 c l" for buf c0 l0
    by (rule served_trans[OF served_read[OF that bytes(2)]])
  with bytes(1) show ?thesis by blast
qed



subsection \<open>A client that quits and keeps sending\<close>

text \<open>A readable descriptor whose socket takes no more output.\<close>

definition flood :: "int \<Rightarrow> string \<Rightarrow> ready_io" where
  "flood fd d =
     \<lparr>ri_event = \<lparr>ev_fd = fd, ev_readable = True, ev_writable = False, ev_closed = False\<rparr>, ri_accepts = [],
      ri_io = \<lparr>ei_flush1 = [], ei_read = [NrData d], ei_flush2 = [NwAgain]\<rparr>\<rparr>"

lemma flood_fd [simp]: "ev_fd (ri_event (flood fd d)) = fd"
  by (simp add: flood_def)

lemma quit_event:
  assumes "client_inv c" and "cl_closeAfterFlush c" and "\<not> cl_readingPaused c"
  obtains c' l' where "handleClient hash env (ri_io (flood fd d)) (ri_event (flood fd d)) c l = (Inr False, c', l')"
    "cl_inbuf c' = cl_inbuf c @ d" "cl_closeAfterFlush c'" "\<not> cl_readingPaused c'" "client_inv c'"
    "el_clients l' = el_clients l" "el_pendingClose l' = el_pendingClose l" "el_listener l' = el_listener l"
proof -
  let ?c1 = "c\<lparr>cl_inbuf := cl_inbuf c @ d\<rparr>"
  have inv: "cl_outSent c < length (cl_outbuf c)" "cl_wantsWrite c" "cl_wantsRead c"
    "length (cl_outbuf c) - cl_outSent c \<le> kMaxOutputBytes"
    using assms by (auto simp: client_inv_def)
  have p: "processInput hash env ?c1 l = (None, ?c1, l)" using assms(2) by (subst processInput.simps) simp
  let ?l1 = "(wired ?c1 (cl_outSent c) l)\<lparr>el_shortWrites := el_shortWrites l + 1\<rparr>"
  let ?c2 = "if length (cl_outbuf c) div 2 < cl_outSent c
    then ?c1\<lparr>cl_outbuf := drop (cl_outSent c) (cl_outbuf c), cl_outSent := 0\<rparr> else ?c1"
  have u: "updateInterest env ?c2 l' = (?c2, l')" for l' using inv assms(3) by (simp add: updateInterest_def)
  have f: "flush hash env [NwAgain] ?c1 l = (Inr True, ?c2, ?l1)"
    using inv assms(3) by (auto simp: flush_def wired_def updateInterest_def Let_def)
  have "handleClient hash env (ri_io (flood fd d)) (ri_event (flood fd d)) c l = (Inr False, ?c2, ?l1)"
    using p f u inv assms(2,3) by (auto simp: handleClient_alt handleReadable_def flood_def)
  moreover have "client_inv ?c2" using assms inv by (auto simp: client_inv_def settled_def steady_def)
  ultimately show ?thesis using assms by (intro that[of ?c2 ?l1]) (simp_all add: wired_def)
qed

lemma quit_turns:
  assumes "map_of (el_clients l) fd = Some c" and "client_inv c" and "cl_closeAfterFlush c" and "\<not> cl_readingPaused c"
    and "el_pendingClose l = []" and "fd \<noteq> el_listener l"
  shows "\<exists>l' c'. loop_run hash env (replicate n (False, Some [flood fd d])) l = (Continue, l') \<and>
    map_of (el_clients l') fd = Some c' \<and> cl_inbuf c' = cl_inbuf c @ concat (replicate n d)"
  using assms
proof (induction n arbitrary: c l)
  case (Suc n)
  obtain c1 l1 where h: "handleClient hash env (ri_io (flood fd d)) (ri_event (flood fd d)) c l = (Inr False, c1, l1)"
    and c1: "cl_inbuf c1 = cl_inbuf c @ d" "cl_closeAfterFlush c1" "\<not> cl_readingPaused c1" "client_inv c1"
    and l1: "el_clients l1 = el_clients l" "el_pendingClose l1 = el_pendingClose l" "el_listener l1 = el_listener l"
    using quit_event[OF Suc.prems(2-4), of hash env fd d l] by metis
  let ?l2 = "l1\<lparr>el_clients := AList.update fd c1 (el_clients l1), el_pendingClose := []\<rparr>"
  have "loop_turn hash env (Some [flood fd d]) l = (Continue, ?l2)"
    using h l1 Suc.prems(1,5,6) by (simp add: loop_turn_def Let_def)
  then have "loop_run hash env (replicate (Suc n) (False, Some [flood fd d])) l
      = loop_run hash env (replicate n (False, Some [flood fd d])) ?l2" by simp
  moreover have "\<exists>l' c'. loop_run hash env (replicate n (False, Some [flood fd d])) ?l2 = (Continue, l') \<and>
      map_of (el_clients l') fd = Some c' \<and> cl_inbuf c' = cl_inbuf c1 @ concat (replicate n d)"
    by (rule Suc.IH) (use c1 l1 Suc.prems(6) in simp_all)
  ultimately show ?case using c1(1) by simp
qed simp

definition demo_env :: loop_env where
  "demo_env = \<lparr>le_line = (\<lambda>n. demo_line_io), le_ctl = (\<lambda>n. True)\<rparr>"

text \<open>A client connects on descriptor 5 and quits; its socket does not take the reply.\<close>

definition demo_quit :: "(bool \<times> ready_io list option) list" where
  "demo_quit =
     [(False, Some [\<lparr>ri_event = \<lparr>ev_fd = 3, ev_readable = True, ev_writable = False, ev_closed = False\<rparr>,
                    ri_accepts = [AcceptFd 5 True], ri_io = \<lparr>ei_flush1 = [], ei_read = [], ei_flush2 = []\<rparr>\<rparr>]),
      (False, Some [flood 5 (''QUIT'' @ eol)])]"

lemma demo_quit_event:
  "\<exists>c l'. handleClient hash demo_env (ri_io (flood 5 (''QUIT'' @ eol))) (ri_event (flood 5 (''QUIT'' @ eol))) (newClient 5) l
     = (Inr False, c, l') \<and> cl_inbuf c = [] \<and> cl_closeAfterFlush c \<and> \<not> cl_readingPaused c \<and> el_clients l' = el_clients l \<and>
     el_pendingClose l' = el_pendingClose l \<and> el_listener l' = el_listener l"
proof -
  let ?d = "''QUIT'' @ eol"
  let ?c1 = "(newClient 5)\<lparr>cl_inbuf := ?d\<rparr>"
  have tl: "take_line ?d = Some (''QUIT'', [])" by code_simp
  have q: "pc_type (parse ''QUIT'') = Quit" by code_simp
  have h: "handleLine hash demo_line_io ''QUIT'' newSession (el_store l) = (Inr (reply_ok, True), newSession, el_store l)"
    using q by (simp add: handleLine_def Let_def newSession_def refused_def)
  let ?c2 = "(newClient 5)\<lparr>cl_inbuf := [], cl_outbuf := reply_ok, cl_closeAfterFlush := True\<rparr>"
  let ?l2 = "l\<lparr>el_commands := el_commands l + 1\<rparr>"
  have p: "processInput hash demo_env ?c1 l = (None, ?c2, ?l2)"
    using tl h by (subst processInput.simps) (simp add: newClient_def demo_env_def)
  show ?thesis
    using p by (simp add: handleClient_alt handleReadable_def flood_def flush_def updateInterest_def newClient_def
      kMaxOutputBytes_def)
qed

lemma demo_quit_ok: "\<forall>x \<in> set demo_quit. turn_ok x"
  by (auto simp: demo_quit_def turn_ok_def flood_def read_ok_def kLoopReadChunk_def)

lemma demo_quit_run:
  obtains l0 l c where "newEventLoop demo_env False True PkPoll 3 s = Some l0"
    "loop_run hash demo_env demo_quit l0 = (Continue, l)" "map_of (el_clients l) 5 = Some c" "cl_closeAfterFlush c"
    "\<not> cl_readingPaused c" "cl_inbuf c = []" "el_pendingClose l = []" "el_listener l = 3"
proof -
  let ?p = "snd (poll_add 3 True False newPollPoller)"
  have ad: "fst (poll_add 3 True False newPollPoller)" "fst (poll_add 5 True False ?p)" by code_simp+
  let ?start = "\<lparr>el_listener = 3, el_store = s, el_poller = PollPoller ?p, el_clients = [], el_pendingClose = [],
    el_accepted = 0, el_commands = 0, el_shortWrites = 0, el_evicted = 0, el_wire = (\<lambda>fd. [])\<rparr>"
  have new: "newEventLoop demo_env False True PkPoll 3 s = Some ?start"
    using ad(1) by (simp add: newEventLoop_def makePoller_def epollAvailable_def split_beta split: bool.splits)
  let ?l1 = "?start\<lparr>el_poller := PollPoller (snd (poll_add 5 True False ?p)), el_clients := [(5, newClient 5)], el_accepted := 1\<rparr>"
  have acc: "acceptNew demo_env kMaxAcceptsPerEvent [AcceptFd 5 True] ?start = ?l1"
    using ad(2) by (simp add: kMaxAcceptsPerEvent_def split_beta numeral_eq_Suc split: bool.splits)
  obtain c l2 where h: "handleClient hash demo_env (ri_io (flood 5 (''QUIT'' @ eol))) (ri_event (flood 5 (''QUIT'' @ eol)))
      (newClient 5) ?l1 = (Inr False, c, l2)"
    and c: "cl_inbuf c = []" "cl_closeAfterFlush c" "\<not> cl_readingPaused c"
    and l2: "el_clients l2 = [(5, newClient 5)]" "el_pendingClose l2 = []" "el_listener l2 = 3"
    using demo_quit_event[of hash ?l1] by auto
  let ?l = "l2\<lparr>el_clients := [(5, c)], el_pendingClose := []\<rparr>"
  have "loop_turn hash demo_env (snd (demo_quit ! 0)) ?start = (Continue, ?l1)"
    using acc by (simp add: demo_quit_def loop_turn_def Let_def)
  moreover have "loop_turn hash demo_env (snd (demo_quit ! 1)) ?l1 = (Continue, ?l)"
    using h l2 by (simp add: demo_quit_def loop_turn_def Let_def)
  ultimately have "loop_run hash demo_env demo_quit ?start = (Continue, ?l)" by (simp add: demo_quit_def)
  with new c l2 show ?thesis by (intro that[of ?start ?l c]) simp_all
qed



text \<open>
  C39. The input of a client that has quit is not bounded: from any reachable loop with a
  client that asked to quit and whose socket does not take the reply, the loop keeps reading
  what the client sends into its buffer, turn after turn, without handling or dropping it.
\<close>

theorem quit_input_unbounded:
  assumes "newEventLoop env linux createOk kind listener s = Some l0"
    and "\<forall>x \<in> set xs. turn_ok x" and "loop_run hash env xs l0 = (Continue, l)"
    and "map_of (el_clients l) fd = Some c" and "cl_closeAfterFlush c" and "\<not> cl_readingPaused c" and "fd \<noteq> el_listener l"
  shows "\<exists>l' c'. loop_run hash env (replicate n (False, Some [flood fd d])) l = (Continue, l') \<and>
    map_of (el_clients l') fd = Some c' \<and> length (cl_inbuf c') = length (cl_inbuf c) + n * length d"
proof -
  let ?t = "kind = PkPoll \<or> \<not> linux \<or> (\<forall>n. le_ctl env n)"
  have "loop_inv ?t env l0 \<and> el_pendingClose l0 = []" by (rule newEventLoop_inv[OF assms(1)])
  then have "loop_inv ?t env l \<and> el_pendingClose l = []" using loop_run_inv[OF _ _ assms(2,3)] by blast
  then have "client_inv c" "el_pendingClose l = []" using assms(4) by (simp_all add: loop_inv_def live_def)
  from quit_turns[OF assms(4) this(1) assms(5,6) this(2) assms(7), of hash env n d] obtain l' c' where
    "loop_run hash env (replicate n (False, Some [flood fd d])) l = (Continue, l')" "map_of (el_clients l') fd = Some c'"
    "cl_inbuf c' = cl_inbuf c @ concat (replicate n d)" by blast
  moreover have "length (concat (replicate n d)) = n * length d" by (induction n) simp_all
  ultimately show ?thesis by auto
qed

theorem quit_input_unbounded_witness:
  "\<forall>s. \<exists>l0 l l' c'. newEventLoop demo_env False True PkPoll 3 s = Some l0 \<and>
     loop_run (\<lambda>k. 0) demo_env demo_quit l0 = (Continue, l) \<and>
     loop_run (\<lambda>k. 0) demo_env (replicate 1000000 (False, Some [flood 5 ''xxxx''])) l = (Continue, l') \<and>
     map_of (el_clients l') 5 = Some c' \<and> length (cl_inbuf c') = 4000000"
proof
  fix s
  show "\<exists>l0 l l' c'. newEventLoop demo_env False True PkPoll 3 s = Some l0 \<and>
     loop_run (\<lambda>k. 0) demo_env demo_quit l0 = (Continue, l) \<and>
     loop_run (\<lambda>k. 0) demo_env (replicate 1000000 (False, Some [flood 5 ''xxxx''])) l = (Continue, l') \<and>
     map_of (el_clients l') 5 = Some c' \<and> length (cl_inbuf c') = 4000000"
  proof (rule demo_quit_run[of s "\<lambda>k. 0"])
    fix l0 l c
    assume d: "newEventLoop demo_env False True PkPoll 3 s = Some l0" "loop_run (\<lambda>k. 0) demo_env demo_quit l0 = (Continue, l)"
      "map_of (el_clients l) 5 = Some c" "cl_closeAfterFlush c" "\<not> cl_readingPaused c" "cl_inbuf c = []" "el_listener l = 3"
    have "(5 :: int) \<noteq> el_listener l" "length (cl_inbuf c) + 1000000 * length ''xxxx'' = 4000000" using d by simp_all
    from quit_input_unbounded[OF d(1) demo_quit_ok d(2-5) this(1), of 1000000 "''xxxx''", unfolded this(2)] d(1,2)
    show ?thesis by blast
  qed
qed

end
