(* ===== verification/Replicator.thy ===== *)
theory Replicator
  imports Durability Connection
begin

text \<open>
  What the two replication roles share: their configuration, \<open>src/src/repl/replicator.cpp\<close>, and
  the control lines of \<open>src/src/repl/leader.cpp\<close> and \<open>src/src/repl/follower.cpp\<close>, read byte by
  byte from the socket so that nothing of the record stream behind a line is consumed.
\<close>

subsection \<open>Configuration\<close>

datatype Role = Standalone | LeaderRole | FollowerRole

definition parseRole :: "string \<Rightarrow> Role option" where
  "parseRole text =
     (if text = ''standalone'' \<or> text = ''none'' then Some Standalone
      else if text = ''leader'' \<or> text = ''primary'' \<or> text = ''master'' then Some LeaderRole
      else if text = ''follower'' \<or> text = ''replica'' \<or> text = ''slave'' then Some FollowerRole
      else None)"

fun roleName :: "Role \<Rightarrow> string" where
  "roleName Standalone = ''standalone''"
| "roleName LeaderRole = ''leader''"
| "roleName FollowerRole = ''follower''"

datatype ReplMode = Async | Sync

definition parseReplMode :: "string \<Rightarrow> ReplMode option" where
  "parseReplMode text =
     (if text = ''async'' then Some Async
      else if text = ''sync'' then Some Sync
      else None)"

fun replModeName :: "ReplMode \<Rightarrow> string" where
  "replModeName Async = ''async''"
| "replModeName Sync = ''sync''"

lemma role_names: "parseRole (roleName r) = Some r" "parseReplMode (replModeName m) = Some m"
  by (cases r; simp add: parseRole_def) (cases m; simp add: parseReplMode_def)

record ReplConfig =
  rp_role :: Role
  rp_listenPort :: u16
  rp_peerHost :: string
  rp_peerPort :: u16
  rp_mode :: ReplMode
  rp_ackTimeoutMs :: int

definition defaultReplConfig :: ReplConfig where
  "defaultReplConfig =
     \<lparr>rp_role = Standalone, rp_listenPort = 6390, rp_peerHost = ''127.0.0.1'', rp_peerPort = 6390, rp_mode = Async,
      rp_ackTimeoutMs = 1000\<rparr>"


subsection \<open>Control lines\<close>

definition kMaxControlLine :: nat where "kMaxControlLine = 256"

text \<open>
  What a \<open>read\<close> of one byte answers; the end of the list is the end of the connection.  The
  result is the line without its end, if there was one, and the answers left.
\<close>

datatype byte_ans = BByte char | BEintr | BErr

fun read_line :: "byte_ans list \<Rightarrow> string \<Rightarrow> string option \<times> byte_ans list" where
  "read_line [] line = (None, [])"
| "read_line (BEintr # as) line = read_line as line"
| "read_line (BErr # as) line = (None, as)"
| "read_line (BByte c # as) line =
     (if c = CHR 0x0A then (Some line, as)
      else if length (line @ [c]) > kMaxControlLine then (None, as)
      else read_line as (line @ [c]))"

lemma read_line_line:
  "CHR 0x0A \<notin> set l \<Longrightarrow> length (pre @ l) \<le> kMaxControlLine \<Longrightarrow>
   read_line (map BByte (l @ CHR 0x0A # rest)) pre = (Some (pre @ l), map BByte rest)"
  by (induction l arbitrary: pre) auto

text \<open>The words of a control line up to the second space, and what follows it.\<close>

definition control_words :: "string \<Rightarrow> (string \<times> string \<times> string) option" where
  "control_words line =
     (case find_from line CHR '' '' 0 of
        None \<Rightarrow> None
      | Some first \<Rightarrow>
          (case find_from line CHR '' '' (first + 1) of
             None \<Rightarrow> None
           | Some second \<Rightarrow>
               Some (substr_to line 0 (Some first), substr_to line (first + 1) (Some second), drop (second + 1) line)))"

lemma control_words_exact:
  assumes "CHR '' '' \<notin> set a" and "CHR '' '' \<notin> set b"
  shows "control_words (a @ '' '' @ b @ '' '' @ c) = Some (a, b, c)"
  using index_of_append[OF assms(1), of "b @ '' '' @ c"] index_of_append[OF assms(2), of c]
  by (simp add: control_words_def find_from_def substr_to_def)

end
