(* ===== verification/Leader.thy ===== *)
theory Leader
  imports Replicator
begin

text \<open>
  The leader's side of replication, \<open>src/src/repl/leader.cpp\<close>: it accepts followers, settles with
  each from which offset of the log to stream, ships the log's bytes as it grows, and keeps
  the offsets the followers acknowledge.  Critical sections are functions on the members;
  descriptors, threads and wake-up pipes are left out.
\<close>

subsection \<open>State\<close>

record lsession =
  ls_stopping :: bool
  ls_finished :: bool
  ls_sentOffset :: u64
  ls_acked :: u64
  ls_bytesSent :: u64
  ls_ackBuffer :: string

definition newSessionState :: lsession where
  "newSessionState =
     \<lparr>ls_stopping = False, ls_finished = False, ls_sentOffset = 0, ls_acked = 0, ls_bytesSent = 0, ls_ackBuffer = []\<rparr>"

text \<open>\<open>PendingRecord\<close>: an offset and the time of its append, in microseconds.\<close>

record PendingRecord =
  pr_offset :: u64
  pr_at :: int

record leader =
  ld_config :: ReplConfig
  ld_stopping :: bool
  ld_sessions :: "lsession list"
  ld_pending :: "PendingRecord list"
  ld_lagSamplesUs :: "u32 list"
  ld_lagCount :: u64
  ld_lagMaxUs :: u64
  ld_lagSumUs :: u64
  ld_connections :: u64
  ld_fullResyncs :: u64
  ld_ackTimeouts :: u64
  ld_syncDegraded :: u64

definition kMaxLagSamples :: nat where "kMaxLagSamples = 65536"
definition kStreamChunkBytes :: nat where "kStreamChunkBytes = 64 * 1024"

definition newLeader :: "ReplConfig \<Rightarrow> leader" where
  "newLeader config =
     \<lparr>ld_config = config, ld_stopping = False, ld_sessions = [], ld_pending = [], ld_lagSamplesUs = [], ld_lagCount = 0,
      ld_lagMaxUs = 0, ld_lagSumUs = 0, ld_connections = 0, ld_fullResyncs = 0, ld_ackTimeouts = 0, ld_syncDegraded = 0\<rparr>"

text \<open>\<open>start\<close> throws without a log.\<close>

definition leader_start :: "store \<Rightarrow> bool" where
  "leader_start s = (so_log s \<noteq> None)"

text \<open>\<open>stop\<close> before and after the threads are joined; the first returns at once the second time.\<close>

definition leader_stop :: "leader \<Rightarrow> bool \<times> leader" where
  "leader_stop l =
     (if ld_stopping l then (False, l)
      else (True, l\<lparr>ld_stopping := True, ld_sessions := map (\<lambda>s. s\<lparr>ls_stopping := True\<rparr>) (ld_sessions l)\<rparr>))"

definition leader_stopped :: "leader \<Rightarrow> leader" where
  "leader_stopped l = l\<lparr>ld_sessions := []\<rparr>"

definition onLogReplaced :: "leader \<Rightarrow> leader" where
  "onLogReplaced l = l\<lparr>ld_sessions := map (\<lambda>s. s\<lparr>ls_stopping := True\<rparr>) (ld_sessions l)\<rparr>"


subsection \<open>After an append\<close>

text \<open>The first critical section of \<open>onAppend\<close>, at time \<open>now\<close>.\<close>

definition onAppend_note :: "int \<Rightarrow> u64 \<Rightarrow> leader \<Rightarrow> leader" where
  "onAppend_note now endOffset l =
     (if ld_sessions l \<noteq> []
      then l\<lparr>ld_pending := ld_pending l @ [\<lparr>pr_offset = endOffset, pr_at = now\<rparr>]\<rparr> else l)"

definition onAppend_acked :: "u64 \<Rightarrow> leader \<Rightarrow> bool" where
  "onAppend_acked endOffset l \<longleftrightarrow> ld_stopping l \<or> (\<exists>s \<in> set (ld_sessions l). ls_acked s \<ge> endOffset)"

datatype append_state = Waiting | Returned_acked | Returned_timeout | Returned_degraded | Returned_async

text \<open>
  The second: in mode \<open>sync\<close> the caller waits until the predicate holds or the time is over.
  \<open>onAppend_enter\<close> is the part before the wait, \<open>onAppend_wake\<close> one evaluation inside it.
\<close>

definition onAppend_enter :: "leader \<Rightarrow> append_state \<times> leader" where
  "onAppend_enter l =
     (if rp_mode (ld_config l) \<noteq> Sync then (Returned_async, l)
      else if ld_sessions l = [] then (Returned_degraded, l\<lparr>ld_syncDegraded := ld_syncDegraded l + 1\<rparr>)
      else (Waiting, l))"

definition onAppend_wake :: "bool \<Rightarrow> u64 \<Rightarrow> leader \<Rightarrow> append_state \<times> leader" where
  "onAppend_wake timedOut endOffset l =
     (if onAppend_acked endOffset l then (Returned_acked, l)
      else if timedOut then (Returned_timeout, l\<lparr>ld_ackTimeouts := ld_ackTimeouts l + 1\<rparr>)
      else (Waiting, l))"

text \<open>\<open>noteAck\<close>; \<open>clock n\<close> is the time read for the n-th sample.\<close>

function noteAck :: "(u64 \<Rightarrow> int) \<Rightarrow> u64 \<Rightarrow> leader \<Rightarrow> leader" where
  "noteAck clock offset l =
     (case ld_pending l of
        [] \<Rightarrow> l
      | record # rest \<Rightarrow>
          if pr_offset record \<le> offset then
            (let lag = clock (ld_lagCount l) - pr_at record;
                 lagUs = (if lag < 0 then 0 else of_int lag :: u64)
             in noteAck clock offset
                  (l\<lparr>ld_pending := rest, ld_lagCount := ld_lagCount l + 1, ld_lagSumUs := ld_lagSumUs l + lagUs,
                     ld_lagMaxUs := max (ld_lagMaxUs l) lagUs,
                     ld_lagSamplesUs := (if length (ld_lagSamplesUs l) < kMaxLagSamples
                                         then ld_lagSamplesUs l @ [ucast lagUs] else ld_lagSamplesUs l)\<rparr>))
          else l)"
  by auto
termination by (relation "measure (\<lambda>(clock, offset, l). length (ld_pending l))") auto

declare noteAck.simps [simp del]

definition reapFinishedSessions :: "leader \<Rightarrow> leader" where
  "reapFinishedSessions l = l\<lparr>ld_sessions := filter (\<lambda>s. \<not> ls_finished s) (ld_sessions l)\<rparr>"


subsection \<open>Handshake\<close>

text \<open>
  Answering the line a follower sent, given the leader's token; the result is whether the
  session starts, the reply, the session and the leader.
\<close>

definition answer_sync :: "string \<Rightarrow> string \<Rightarrow> store \<Rightarrow> leader \<Rightarrow> bool \<times> string \<times> lsession \<times> leader" where
  "answer_sync line leaderToken s l =
     (case control_words line of
        None \<Rightarrow> (False, ''-ERR expected: SYNC <token> <offset>'' @ eol, newSessionState, l)
      | Some (verb, token, offsetText) \<Rightarrow>
          if verb \<noteq> ''SYNC'' then (False, ''-ERR unknown replication verb'' @ eol, newSessionState, l)
          else case stoull offsetText of
                 None \<Rightarrow> (False, ''-ERR bad offset'' @ eol, newSessionState, l)
               | Some requested \<Rightarrow>
                   (let leaderOffset = logOffset s;
                        canResume = (token \<noteq> [] \<and> token = leaderToken \<and> requested \<le> leaderOffset);
                        (sentOffset, reply, l') =
                          (if canResume then
                             (requested, ''+RESUME '' @ leaderToken @ '' '' @ to_string (unat requested) @ eol, l)
                           else (0, ''+FULL '' @ leaderToken @ '' 0'' @ eol, l\<lparr>ld_fullResyncs := ld_fullResyncs l + 1\<rparr>))
                    in (True, reply, newSessionState\<lparr>ls_sentOffset := sentOffset, ls_acked := sentOffset\<rparr>, l')))"

text \<open>The result is whether the handshake succeeded, the bytes that went out, the session and the leader.\<close>

definition performHandshake ::
  "byte_ans list \<Rightarrow> write_ans list \<Rightarrow> (u64 \<times> u64) option \<Rightarrow> store \<Rightarrow> leader \<Rightarrow> bool \<times> string \<times> lsession \<times> leader" where
  "performHandshake incoming writes info s l =
     (case read_line incoming [] of
        (None, rest) \<Rightarrow> (False, [], newSessionState, l)
      | (Some line, rest) \<Rightarrow>
          (case answer_sync (strip_cr line) (replicationToken info s) s l of
             (ok, reply, session, l') \<Rightarrow>
               (let (sent, written) = write_loop writes reply in (ok \<and> written, sent, session, l'))))"

text \<open>
  One turn of \<open>acceptLoop\<close>: whether the loop goes on.  \<open>ac_poll\<close> is \<^const>\<open>None\<close> for a timeout, and
  \<open>ac_stopping\<close> tells that \<open>stop\<close> set its flag in the meantime.
\<close>

record accept_io =
  ac_poll :: "sys_ans option"
  ac_accepted :: bool
  ac_incoming :: "byte_ans list"
  ac_writes :: "write_ans list"
  ac_info :: "(u64 \<times> u64) option"
  ac_pipe :: bool
  ac_open :: bool
  ac_stopping :: bool

definition accept_turn :: "accept_io \<Rightarrow> store \<Rightarrow> leader \<Rightarrow> bool \<times> string \<times> leader" where
  "accept_turn io s l =
     (if ld_stopping l then (False, [], l)
      else let l = reapFinishedSessions l
        in case ac_poll io of
             Some SysErr \<Rightarrow> (False, [], l)
           | Some SysEintr \<Rightarrow> (True, [], l)
           | None \<Rightarrow> (True, [], l)
           | Some SysOk \<Rightarrow>
               if \<not> ac_accepted io then (True, [], l)
               else (case performHandshake (ac_incoming io) (ac_writes io) (ac_info io) s l of
                       (False, sent, session, l') \<Rightarrow> (True, sent, l')
                     | (True, sent, session, l') \<Rightarrow>
                         if \<not> ac_pipe io \<or> \<not> ac_open io then (True, sent, l')
                         else let l'' = l'\<lparr>ld_connections := ld_connections l' + 1, ld_stopping := ac_stopping io\<rparr>
                           in (True, sent,
                               if ld_stopping l'' then l'' else l''\<lparr>ld_sessions := ld_sessions l'' @ [session]\<rparr>)))"


subsection \<open>Shipping\<close>

text \<open>
  What one turn of the loop of \<open>shipPending\<close> meets: the stop flag, the answer of \<open>pread\<close> (at
  most so many bytes) and those of the writes; when the list is used up the kernel gives and
  takes what it is asked for.  \<open>file\<close> is the file behind \<open>logReader\<close>.  The result is what the
  loop returned and the bytes that went out.
\<close>

datatype pread_ans = POk nat | PEintr | PErr

record ship_in =
  sh_stopping :: bool
  sh_pread :: pread_ans
  sh_writes :: "write_ans list"

definition ship_rest :: ship_in where
  "ship_rest = \<lparr>sh_stopping = False, sh_pread = POk kStreamChunkBytes, sh_writes = []\<rparr>"

lemma ship_progress:
  fixes sent target :: u64
  assumes "sent < target" and "0 < n" and "n \<le> unat (target - sent)"
  shows "unat (sent + of_nat n) = unat sent + n" and "unat (target - (sent + of_nat n)) < unat (target - sent)"
proof -
  have d: "unat (target - sent) = unat target - unat sent" using assms(1) by (simp add: unat_sub)
  have t: "unat target < 2 ^ LENGTH(64)" by (rule unsigned_less)
  have le: "unat sent + n \<le> unat target" using assms(1,3) d by (simp add: word_less_nat_alt)
  then have n: "unat (of_nat n :: u64) = n" using t by (simp add: unat_of_nat)
  show s: "unat (sent + of_nat n) = unat sent + n"
    using le t n by (subst unat_add_lem[THEN iffD1]) simp_all
  then have "sent + of_nat n \<le> target" using le by (simp add: word_le_nat_alt)
  then show "unat (target - (sent + of_nat n)) < unat (target - sent)"
    using s le assms(2) d by (simp add: unat_sub)
qed

function ship_loop :: "ship_in list \<Rightarrow> string \<Rightarrow> u64 \<Rightarrow> lsession \<Rightarrow> bool \<times> string \<times> lsession" where
  "ship_loop is file target s =
     (if \<not> ls_sentOffset s < target then (True, [], s)
      else
        (let i = (case is of [] \<Rightarrow> ship_rest | i # _ \<Rightarrow> i);
             remaining = target - ls_sentOffset s;
             want = (if unat remaining < kStreamChunkBytes then unat remaining else kStreamChunkBytes)
         in if sh_stopping i then (False, [], s\<lparr>ls_stopping := True\<rparr>)
            else case sh_pread i of
                   PEintr \<Rightarrow> ship_loop (tl is) file target s
                 | PErr \<Rightarrow> (False, [], s)
                 | POk n \<Rightarrow>
                     (let buffer = take (min n want) (drop (unat (ls_sentOffset s)) file)
                      in if buffer = [] then (False, [], s)
                         else case write_loop (sh_writes i) buffer of
                                (sent, False) \<Rightarrow> (False, sent, s)
                              | (sent, True) \<Rightarrow>
                                  (case ship_loop (tl is) file target
                                          (s\<lparr>ls_sentOffset := ls_sentOffset s + of_nat (length buffer),
                                             ls_bytesSent := ls_bytesSent s + of_nat (length buffer)\<rparr>) of
                                     (r, sent', s') \<Rightarrow> (r, sent @ sent', s')))))"
  by auto

termination
proof (relation "measures [\<lambda>(is, file, target, s). length is, \<lambda>(is, file, target, s). unat (target - ls_sentOffset s)]", goal_cases)
  case 1
  then show ?case by simp
next
  case (2 "is" "file" target s i remaining want n buffer sent b)
  have "0 < length buffer" "length buffer \<le> unat (target - ls_sentOffset s)"
    using 2 by (auto simp: min_def split: if_splits)
  with ship_progress(2)[of "ls_sentOffset s" target "length buffer"] 2(1) show ?case by (cases "is") simp_all
next
  case (3 "is" "file" target s i remaining want)
  then show ?case by (cases "is") (auto simp: ship_rest_def)
qed

declare ship_loop.simps [simp del]

definition shipPending :: "ship_in list \<Rightarrow> string \<Rightarrow> store \<Rightarrow> lsession \<Rightarrow> bool \<times> string \<times> lsession" where
  "shipPending is file st s = ship_loop is file (logOffset st) s"


subsection \<open>Acknowledgements\<close>

text \<open>The loop over the lines of \<open>ackBuffer\<close>: the rest of it, \<open>highest\<close> and \<open>sawAck\<close>.\<close>

function ack_loop :: "string \<Rightarrow> u64 \<Rightarrow> bool \<Rightarrow> string \<times> u64 \<times> bool" where
  "ack_loop buf highest sawAck =
     (case find_from buf CHR 0x0A 0 of
        None \<Rightarrow> (buf, highest, sawAck)
      | Some newline \<Rightarrow>
          (let line = substr_to buf 0 (Some newline); rest = drop (newline + 1) buf
           in if \<not> prefix ''ACK '' line then ack_loop rest highest sawAck
              else case stoull (drop 4 line) of
                     None \<Rightarrow> ack_loop rest highest sawAck
                   | Some offset \<Rightarrow> ack_loop rest (if offset > highest then offset else highest) True))"
  by auto
termination
  by (relation "measure (\<lambda>(buf, highest, sawAck). length buf)") (auto simp: find_from_def dest!: index_of_Some)

declare ack_loop.simps [simp del]

text \<open>
  The part of \<open>drainAcks\<close> on the session alone: whether it is kept, and the highest offset
  acknowledged, if any.  \<open>bytes\<close> is empty at the end of the connection.
\<close>

definition drain_session :: "sys_ans \<Rightarrow> string \<Rightarrow> lsession \<Rightarrow> bool \<times> u64 option \<times> lsession" where
  "drain_session ans bytes s =
     (case ans of
        SysEintr \<Rightarrow> (True, None, s)
      | SysErr \<Rightarrow> (False, None, s)
      | SysOk \<Rightarrow>
          if bytes = [] then (False, None, s)
          else
            (let s = s\<lparr>ls_ackBuffer := ls_ackBuffer s @ take 256 bytes\<rparr>
             in if length (ls_ackBuffer s) > kMaxControlLine then (False, None, s)
                else case ack_loop (ls_ackBuffer s) 0 False of
                  (rest, highest, sawAck) \<Rightarrow>
                    (let s = s\<lparr>ls_ackBuffer := rest\<rparr>
                     in if \<not> sawAck then (True, None, s)
                        else (True, Some highest, if highest > ls_acked s then s\<lparr>ls_acked := highest\<rparr> else s))))"

definition drainAcks :: "(u64 \<Rightarrow> int) \<Rightarrow> sys_ans \<Rightarrow> string \<Rightarrow> nat \<Rightarrow> leader \<Rightarrow> bool \<times> leader" where
  "drainAcks clock ans bytes i l =
     (case drain_session ans bytes (ld_sessions l ! i) of
        (ok, ack, s) \<Rightarrow>
          (let l' = l\<lparr>ld_sessions := (ld_sessions l)[i := s]\<rparr>
           in case ack of
                None \<Rightarrow> (ok, l')
              | Some highest \<Rightarrow> (ok, noteAck clock highest l')))"


subsection \<open>One turn of a session\<close>

text \<open>
  A turn of \<open>sessionLoop\<close> on session \<open>i\<close>: whether the loop goes on, and the bytes that went out.
  Leaving the loop marks the session finished.  \<open>st_poll\<close> is \<^const>\<open>None\<close> where only the wake-up
  pipe is ready or nothing is.
\<close>

record session_io =
  st_ship :: "ship_in list"
  st_poll :: "sys_ans option"
  st_read :: sys_ans
  st_bytes :: string

definition finish_session :: "nat \<Rightarrow> leader \<Rightarrow> leader" where
  "finish_session i l = l\<lparr>ld_sessions := (ld_sessions l)[i := (ld_sessions l ! i)\<lparr>ls_finished := True\<rparr>]\<rparr>"

definition session_turn ::
  "(u64 \<Rightarrow> int) \<Rightarrow> session_io \<Rightarrow> string \<Rightarrow> store \<Rightarrow> nat \<Rightarrow> leader \<Rightarrow> bool \<times> string \<times> leader" where
  "session_turn clock io file st i l =
     (if ls_stopping (ld_sessions l ! i) then (False, [], finish_session i l)
      else case shipPending (st_ship io) file st (ld_sessions l ! i) of
        (r, sent, s) \<Rightarrow>
          (let l = l\<lparr>ld_sessions := (ld_sessions l)[i := s]\<rparr>
           in if \<not> r then (False, sent, finish_session i l)
              else case st_poll io of
                     Some SysEintr \<Rightarrow> (True, sent, l)
                   | Some SysErr \<Rightarrow> (False, sent, finish_session i l)
                   | None \<Rightarrow> (True, sent, l)
                   | Some SysOk \<Rightarrow>
                       (case drainAcks clock (st_read io) (st_bytes io) i l of
                          (True, l') \<Rightarrow> (True, sent, l')
                        | (False, l') \<Rightarrow> (False, sent, finish_session i l'))))"


subsection \<open>Statistics\<close>

definition followerCount :: "leader \<Rightarrow> nat" where
  "followerCount l = length (ld_sessions l)"

definition ackedOffset :: "leader \<Rightarrow> u64" where
  "ackedOffset l = foldl (\<lambda>best s. max best (ls_acked s)) 0 (ld_sessions l)"

text \<open>\<open>scaled n\<close> is \<open>fraction\<close> times \<open>n\<close> in floating point, cut to an integer.\<close>

definition percentile :: "u32 list \<Rightarrow> (nat \<Rightarrow> nat) \<Rightarrow> u32" where
  "percentile samples scaled =
     (if samples = [] then 0
      else let index = scaled (length samples);
               index = (if index \<ge> length samples then length samples - 1 else index)
        in samples ! index)"

definition leader_statsLine :: "(nat \<Rightarrow> nat) \<Rightarrow> (nat \<Rightarrow> nat) \<Rightarrow> store \<Rightarrow> leader \<Rightarrow> string" where
  "leader_statsLine p50 p99 st l =
     (let samples = sort (ld_lagSamplesUs l);
          count = ld_lagCount l;
          acked = foldl (\<lambda>a s. max a (ls_acked s)) 0 (ld_sessions l);
          sent = foldl (\<lambda>a s. a + ls_bytesSent s) 0 (ld_sessions l);
          offset = logOffset st
      in ''repl=leader mode='' @ replModeName (rp_mode (ld_config l)) @
         '' followers='' @ to_string (length (ld_sessions l)) @
         '' repl_port='' @ to_string (unat (rp_listenPort (ld_config l))) @
         '' log_offset='' @ to_string (unat offset) @
         '' acked_offset='' @ to_string (unat acked) @
         '' behind_bytes='' @ to_string (unat (if offset > acked then offset - acked else 0)) @
         '' repl_bytes_sent='' @ to_string (unat sent) @
         '' connections='' @ to_string (unat (ld_connections l)) @
         '' full_resyncs='' @ to_string (unat (ld_fullResyncs l)) @
         '' ack_timeouts='' @ to_string (unat (ld_ackTimeouts l)) @
         '' sync_no_follower='' @ to_string (unat (ld_syncDegraded l)) @
         '' lag_samples='' @ to_string (unat count) @
         (if count > 0 then
            '' lag_avg_us='' @ to_string (unat (ld_lagSumUs l div count)) @
            '' lag_p50_us='' @ to_string (unat (percentile samples p50)) @
            '' lag_p99_us='' @ to_string (unat (percentile samples p99)) @
            '' lag_max_us='' @ to_string (unat (ld_lagMaxUs l))
          else []))"

end
