(* ===== verification/Follower.thy ===== *)
theory Follower
  imports Replicator
begin

text \<open>
  The replica's side of replication, \<open>src/src/repl/follower.cpp\<close>: one link to the leader at a
  time, over which framed records arrive that are appended to the replica's log and applied
  to its map, never in the middle of a transaction.  The kernel's answers are arguments.
\<close>

subsection \<open>State\<close>

text \<open>\<open>fo_stateFile\<close> is the file at \<open>stateFilePath()\<close>.\<close>

record follower =
  fo_store :: store
  fo_config :: ReplConfig
  fo_applier :: applier
  fo_stopping :: bool
  fo_recvBuffer :: string
  fo_pending :: "string list"
  fo_pendingBytes :: nat
  fo_insideTransaction :: bool
  fo_openTransaction :: bool
  fo_linkUp :: bool
  fo_recordsApplied :: u64
  fo_bytesReceived :: u64
  fo_fullResyncs :: u64
  fo_connectAttempts :: u64
  fo_disconnects :: u64
  fo_stateFile :: "string option"

definition kMaxBufferedTransactionBytes :: nat where
  "kMaxBufferedTransactionBytes = 64 * 1024 * 1024"

definition kReadChunkBytes :: nat where "kReadChunkBytes = 64 * 1024"

definition newFollower :: "store \<Rightarrow> ReplConfig \<Rightarrow> string option \<Rightarrow> follower" where
  "newFollower s config stateFile =
     \<lparr>fo_store = s, fo_config = config, fo_applier = newApplier, fo_stopping = False, fo_recvBuffer = [], fo_pending = [],
      fo_pendingBytes = 0, fo_insideTransaction = False, fo_openTransaction = False, fo_linkUp = False,
      fo_recordsApplied = 0, fo_bytesReceived = 0, fo_fullResyncs = 0, fo_connectAttempts = 0, fo_disconnects = 0,
      fo_stateFile = stateFile\<rparr>"

definition follower_stop :: "follower \<Rightarrow> follower" where
  "follower_stop f = (if fo_stopping f then f else f\<lparr>fo_stopping := True\<rparr>)"


subsection \<open>The token of the leader\<close>

definition stateFilePath :: "follower \<Rightarrow> string" where
  "stateFilePath f = (if so_log (fo_store f) \<noteq> None then so_logPath (fo_store f) @ ''.replstate'' else [])"

definition loadLeaderToken :: "bool \<Rightarrow> follower \<Rightarrow> string" where
  "loadLeaderToken openOk f =
     (if stateFilePath f = [] then []
      else case fo_stateFile f of
             None \<Rightarrow> []
           | Some text \<Rightarrow> if \<not> openOk then [] else takeWhile (\<lambda>c. \<not> is_space c) (dropWhile is_space text))"

text \<open>Opening for writing empties the file; \<open>taken\<close> bytes of the new text arrive, \<^const>\<open>None\<close> if it cannot be opened.\<close>

definition saveLeaderToken :: "nat option \<Rightarrow> string \<Rightarrow> follower \<Rightarrow> follower" where
  "saveLeaderToken taken token f =
     (if stateFilePath f = [] then f
      else case taken of
             None \<Rightarrow> f
           | Some n \<Rightarrow> f\<lparr>fo_stateFile := Some (take n (token @ eol))\<rparr>)"


subsection \<open>Handshake\<close>

definition handshake_request :: "bool \<Rightarrow> follower \<Rightarrow> string" where
  "handshake_request openOk f =
     (let offset = logOffset (fo_store f);
          token = loadLeaderToken openOk f;
          token = (if token = [] \<or> offset = 0 then ''-'' else token)
      in ''SYNC '' @ token @ '' '' @ to_string (unat offset) @ eol)"

record resync_io =
  rs_truncate :: bool
  rs_sync :: bool
  rs_save :: "nat option"

text \<open>Acting on the reply; the result is whether the link goes on, and \<open>fullResync\<close>.\<close>

definition handshake_reply :: "resync_io \<Rightarrow> string \<Rightarrow> follower \<Rightarrow> (bool \<times> bool) \<times> follower" where
  "handshake_reply io line f =
     (if line \<noteq> [] \<and> line ! 0 = CHR ''-'' then ((False, False), f)
      else case control_words line of
             None \<Rightarrow> ((False, False), f)
           | Some (verb, leaderToken, rest) \<Rightarrow>
               if verb = ''+RESUME'' then ((True, False), f)
               else if verb \<noteq> ''+FULL'' then ((False, False), f)
               else
                 (let f = f\<lparr>fo_fullResyncs := fo_fullResyncs f + 1\<rparr>
                  in case resetForFullResync (rs_truncate io) (rs_sync io) (fo_store f) of
                       (Inl e, s) \<Rightarrow> ((False, True), f\<lparr>fo_store := s\<rparr>)
                     | (Inr u, s) \<Rightarrow>
                         ((True, True),
                          saveLeaderToken (rs_save io) leaderToken
                            (f\<lparr>fo_store := s, fo_applier := abandonOpenTransaction (fo_applier f)\<rparr>))))"

text \<open>The whole exchange: what was sent, the answers left behind the reply, and the result.\<close>

definition handshake ::
  "bool \<Rightarrow> write_ans list \<Rightarrow> byte_ans list \<Rightarrow> resync_io \<Rightarrow> follower \<Rightarrow>
   string \<times> byte_ans list \<times> (bool \<times> bool) \<times> follower" where
  "handshake openOk writes incoming io f =
     (case write_loop writes (handshake_request openOk f) of
        (sent, False) \<Rightarrow> (sent, incoming, (False, False), f)
      | (sent, True) \<Rightarrow>
          (case read_line incoming [] of
             (None, rest) \<Rightarrow> (sent, rest, (False, False), f)
           | (Some line, rest) \<Rightarrow> (let (r, f') = handshake_reply io line f in (sent, rest, r, f'))))"


subsection \<open>Receiving records\<close>

definition sendAck :: "write_ans list \<Rightarrow> u64 \<Rightarrow> string \<times> bool" where
  "sendAck writes offset = write_loop writes (''ACK '' @ to_string (unat offset) @ eol)"

record flush_io =
  fl_writes :: "write_ans list"
  fl_sync :: bool
  fl_ack :: "write_ans list"

definition flushPending :: "(string \<Rightarrow> u64) \<Rightarrow> flush_io \<Rightarrow> follower \<Rightarrow> bool \<times> follower" where
  "flushPending hash io f =
     (case appendReplicatedRecords (fl_writes io) (fl_sync io) (fo_pending f) (fo_store f) of
        (Inl e, s) \<Rightarrow> (False, f\<lparr>fo_store := s\<rparr>)
      | (Inr newOffset, s) \<Rightarrow>
          (let (n, a, s') = feed (applier_apply hash) (fo_pending f) (fo_applier f, s);
               f' = f\<lparr>fo_store := s', fo_applier := a, fo_recordsApplied := fo_recordsApplied f + of_nat n\<rparr>
           in if n < length (fo_pending f) then (False, f')
              else (newOffset = logOffset s', f'\<lparr>fo_pending := [], fo_pendingBytes := 0\<rparr>)))"

text \<open>The inner loop of \<open>consume\<close>: the whole records of the buffer go to \<open>pending_\<close>.\<close>

function consume_records :: "nat \<Rightarrow> follower \<Rightarrow> bool \<times> nat \<times> follower" where
  "consume_records offset f =
     (case parseRecord (fo_recvBuffer f) offset of
        Incomplete \<Rightarrow> (True, offset, f)
      | Corrupt \<Rightarrow> (False, offset, f)
      | Ok payload nextOffset \<Rightarrow>
          (let inside = (if parseBeginMarker payload \<noteq> None then True
                         else if parseCommitMarker payload \<noteq> None then False
                         else fo_insideTransaction f);
               f' = f\<lparr>fo_insideTransaction := inside, fo_pendingBytes := fo_pendingBytes f + length payload,
                      fo_pending := fo_pending f @ [payload]\<rparr>
           in if fo_pendingBytes f' > kMaxBufferedTransactionBytes then (False, nextOffset, f')
              else consume_records nextOffset f'))"
  by auto
termination
  by (relation "measure (\<lambda>(offset, f). length (fo_recvBuffer f) - offset)")
    (auto dest!: parseRecord_length_progress)

declare consume_records.simps [simp del]

text \<open>One chunk: the result is whether \<open>consume\<close> goes on, and what was sent.\<close>

definition consume_chunk :: "(string \<Rightarrow> u64) \<Rightarrow> flush_io \<Rightarrow> string \<Rightarrow> follower \<Rightarrow> bool \<times> string \<times> follower" where
  "consume_chunk hash io bytes f =
     (let f1 = f\<lparr>fo_recvBuffer := fo_recvBuffer f @ bytes, fo_bytesReceived := fo_bytesReceived f + of_nat (length bytes)\<rparr>
      in case consume_records 0 f1 of
           (False, offset, f2) \<Rightarrow> (False, [], f2)
         | (True, offset, f2) \<Rightarrow>
             (let f3 = f2\<lparr>fo_recvBuffer := drop offset (fo_recvBuffer f2), fo_openTransaction := fo_insideTransaction f2\<rparr>
              in if \<not> fo_insideTransaction f3 \<and> fo_pending f3 \<noteq> [] then
                   (case flushPending hash io f3 of
                      (False, f4) \<Rightarrow> (False, [], f4)
                    | (True, f4) \<Rightarrow>
                        (let (sent, ok) = sendAck (fl_ack io) (logOffset (fo_store f4)) in (ok, sent, f4)))
                 else (True, [], f3)))"

text \<open>
  The turns of \<open>consume\<close>: the stop flag, the answers of \<open>poll\<close> and \<open>read\<close> and the bytes read.  The
  result is what \<open>consume\<close> returned, \<^const>\<open>None\<close> while it goes on.
\<close>

record consume_in =
  cs_stopping :: bool
  cs_poll :: "sys_ans option"
  cs_read :: sys_ans
  cs_bytes :: string
  cs_flush :: flush_io

fun consume :: "(string \<Rightarrow> u64) \<Rightarrow> consume_in list \<Rightarrow> follower \<Rightarrow> bool option \<times> string \<times> follower" where
  "consume hash [] f = (None, [], f)"
| "consume hash (i # is) f =
     (if cs_stopping i then (Some True, [], f)
      else case cs_poll i of
        Some SysEintr \<Rightarrow> consume hash is f
      | Some SysErr \<Rightarrow> (Some False, [], f)
      | None \<Rightarrow> consume hash is f
      | Some SysOk \<Rightarrow>
          (case cs_read i of
             SysEintr \<Rightarrow> consume hash is f
           | SysErr \<Rightarrow> (Some False, [], f)
           | SysOk \<Rightarrow>
               if cs_bytes i = [] then (Some False, [], f)
               else (case consume_chunk hash (cs_flush i) (take kReadChunkBytes (cs_bytes i)) f of
                       (False, sent, f') \<Rightarrow> (Some False, sent, f')
                     | (True, sent, f') \<Rightarrow> (let (r, sent', f'') = consume hash is f' in (r, sent @ sent', f'')))))"


subsection \<open>The link\<close>

record link_io =
  lk_connected :: bool
  lk_tokenOpen :: bool
  lk_request :: "write_ans list"
  lk_reply :: "byte_ans list"
  lk_resync :: resync_io
  lk_ack :: "write_ans list"
  lk_consume :: "consume_in list"

definition runOneConnection :: "(string \<Rightarrow> u64) \<Rightarrow> link_io \<Rightarrow> follower \<Rightarrow> bool option \<times> string \<times> follower" where
  "runOneConnection hash io f =
     (case handshake (lk_tokenOpen io) (lk_request io) (lk_reply io) (lk_resync io) f of
        (sent, rest, (False, full), f1) \<Rightarrow> (Some False, sent, f1)
      | (sent, rest, (True, full), f1) \<Rightarrow>
          (let f2 = f1\<lparr>fo_linkUp := True\<rparr>
           in case sendAck (lk_ack io) (logOffset (fo_store f2)) of
                (sent2, False) \<Rightarrow> (Some False, sent @ sent2, f2)
              | (sent2, True) \<Rightarrow>
                  (let (r, sent3, f3) = consume hash (lk_consume io) f2 in (r, sent @ sent2 @ sent3, f3))))"

text \<open>What \<open>linkLoop\<close> resets when a connection is over.\<close>

definition link_down :: "follower \<Rightarrow> follower" where
  "link_down f =
     f\<lparr>fo_linkUp := False, fo_disconnects := fo_disconnects f + 1, fo_recvBuffer := [], fo_pending := [], fo_pendingBytes := 0,
       fo_insideTransaction := False, fo_openTransaction := False, fo_applier := abandonOpenTransaction (fo_applier f)\<rparr>"

text \<open>One turn of \<open>linkLoop\<close>; \<^const>\<open>None\<close> where the connection is still up.\<close>

definition link_turn :: "(string \<Rightarrow> u64) \<Rightarrow> link_io \<Rightarrow> follower \<Rightarrow> follower option" where
  "link_turn hash io f =
     (if fo_stopping f then Some f
      else let f1 = f\<lparr>fo_connectAttempts := fo_connectAttempts f + 1\<rparr>
        in if \<not> lk_connected io then Some f1
           else case runOneConnection hash io f1 of
                  (None, sent, f2) \<Rightarrow> None
                | (Some r, sent, f2) \<Rightarrow> Some (link_down f2))"

definition follower_statsLine :: "follower \<Rightarrow> string" where
  "follower_statsLine f =
     ''repl=follower mode='' @ replModeName (rp_mode (fo_config f)) @
     '' link='' @ (if fo_linkUp f then ''up'' else ''down'') @
     '' leader='' @ rp_peerHost (fo_config f) @ '':'' @ to_string (unat (rp_peerPort (fo_config f))) @
     '' offset='' @ to_string (unat (logOffset (fo_store f))) @
     '' repl_records='' @ to_string (unat (fo_recordsApplied f)) @
     '' repl_bytes='' @ to_string (unat (fo_bytesReceived f)) @
     '' connect_attempts='' @ to_string (unat (fo_connectAttempts f)) @
     '' disconnects='' @ to_string (unat (fo_disconnects f)) @
     '' full_resyncs='' @ to_string (unat (fo_fullResyncs f)) @
     '' open_txn='' @ (if fo_openTransaction f then ''yes'' else ''no'')"

end
