(* ===== verification/Replica.thy ===== *)
theory Replica
  imports Follower
begin

text \<open>
  What a follower makes of the stream it receives: cut into chunks in any way, the records of
  a leader's log are appended to the follower's log and applied to its map in whole units,
  and the log stays a copy of a first part of the leader's.
\<close>

subsection \<open>A store that copies some units\<close>

definition log_bytes :: "store \<Rightarrow> string" where
  "log_bytes s = (case so_log s of None \<Rightarrow> [] | Some w \<Rightarrow> wal_bytes w)"

text \<open>The log holds exactly the units \<open>us\<close> and the map is what they spell out.\<close>

definition copies :: "(string \<Rightarrow> u64) \<Rightarrow> store \<Rightarrow> log_unit list \<Rightarrow> bool" where
  "copies hash s us \<longleftrightarrow>
     sm_inv hash (so_map s) \<and> maxMemoryBytes (so_map s) = 0 \<and> (\<forall>u \<in> set us. unit_ok u) \<and>
     sm_abs hash (so_map s) = units_map us \<and>
     (\<exists>w. so_log s = Some w \<and> wal_inv w \<and> wal_bytes w = log_of (units_payloads us))"

lemma copies_log: "copies hash s us \<Longrightarrow> log_bytes s = log_of (units_payloads us)"
  by (auto simp: copies_def log_bytes_def)

lemma copies_offset: "copies hash s us \<Longrightarrow> logOffset s = of_nat (length (log_bytes s))"
  by (auto simp: copies_def log_bytes_def logOffset_def wal_inv_def)

lemma mirrors_copies: "mirrors hash mode s b us \<Longrightarrow> copies hash s (b @ us)"
  by (auto simp: mirrors_def copies_def)


subsection \<open>Flushing\<close>

definition flush_fine :: "flush_io \<Rightarrow> bool" where
  "flush_fine io \<longleftrightarrow> WErr \<notin> set (fl_writes io) \<and> fl_sync io"

text \<open>The units the applier has not been told about are whole, and it is outside a transaction.\<close>

lemma feed_applier_units:
  assumes "sm_inv hash (so_map s)" and "maxMemoryBytes (so_map s) = 0" and "\<forall>u \<in> set vs. unit_ok u" and "\<not> ap_inside a"
  shows "\<exists>a' s'. feed (applier_apply hash) (units_payloads vs) (a, s) = (length (units_payloads vs), a', s') \<and>
    \<not> ap_inside a' \<and> sm_inv hash (so_map s') \<and> maxMemoryBytes (so_map s') = 0 \<and>
    sm_abs hash (so_map s') = foldl mut_apply (sm_abs hash (so_map s)) (concat (map unit_muts vs)) \<and> so_log s' = so_log s"
proof -
  let ?rc = "\<lparr>rc_map = sm_abs hash (so_map s), rc_pending = ap_pending a, rc_inside = False, rc_id = ap_openTxnId a\<rparr>"
  let ?n = "length (units_payloads vs)"
  have rel: "rec_rel hash (a, s) ?rc" using assms by (simp add: rec_rel_def)
  have "outside ?rc (sm_abs hash (so_map s))" by (simp add: outside_def)
  from feed_units_prefix[OF assms(3) this, of ?n]
  have f: "fst (feed rec_apply (units_payloads vs) ?rc) = ?n"
    "rc_map (snd (feed rec_apply (units_payloads vs) ?rc)) = foldl mut_apply (sm_abs hash (so_map s)) (concat (map unit_muts vs))"
    "\<not> rc_inside (snd (feed rec_apply (units_payloads vs) ?rc))"
    by (simp_all add: units_in_all)
  obtain a' s' where r: "snd (feed (applier_apply hash) (units_payloads vs) (a, s)) = (a', s')" by fastforce
  from feed_sim[where R = "rec_rel hash" and f = "applier_apply hash" and g = rec_apply and ps = "units_payloads vs",
      OF applier_sim rel] f r
  have "fst (feed (applier_apply hash) (units_payloads vs) (a, s)) = ?n"
    "rec_rel hash (a', s') (snd (feed rec_apply (units_payloads vs) ?rc))" by simp_all
  moreover have "so_log s' = so_log s" using feed_rest[of "(a, s)" hash "units_payloads vs"] r by (simp add: same_rest_def)
  ultimately show ?thesis
    using f r by (intro exI[of _ a'] exI[of _ s']) (simp add: rec_rel_def prod_eq_iff)
qed

lemma flushPending_copies:
  assumes "copies hash (fo_store f) us" and "fo_pending f = units_payloads vs" and "vs \<noteq> []" and "\<forall>u \<in> set vs. unit_ok u"
    and "\<not> ap_inside (fo_applier f)" and "flush_fine io"
  obtains f' where "flushPending hash io f = (True, f')" "copies hash (fo_store f') (us @ vs)" "\<not> ap_inside (fo_applier f')"
    "fo_pending f' = []" "fo_pendingBytes f' = 0" "fo_recvBuffer f' = fo_recvBuffer f"
    "fo_insideTransaction f' = fo_insideTransaction f" "fo_stateFile f' = fo_stateFile f"
    "so_logPath (fo_store f') = so_logPath (fo_store f)"
proof -
  obtain w where w: "so_log (fo_store f) = Some w" "wal_inv w" "wal_bytes w = log_of (units_payloads us)"
    using assms(1) by (auto simp: copies_def)
  have ne: "units_payloads vs \<noteq> []"
  proof (cases vs)
    case (Cons u us')
    then show ?thesis by (cases u) simp_all
  qed (use assms(3) in simp)
  have ne': "log_of (units_payloads vs) \<noteq> []" using ne by (cases "units_payloads vs") simp_all
  obtain off w' where ap: "appendBytes (fl_writes io) (fl_sync io) (log_of (units_payloads vs)) (length (units_payloads vs)) w = (Inr off, w')"
    using appendBytes_succeeds[of w "fl_writes io" "fl_sync io" "log_of (units_payloads vs)" "length (units_payloads vs)"]
      assms(6) w(2) by (auto simp: flush_fine_def wal_inv_def)
  note ok = appendBytes_ok[OF ap ne'] and inv = wal_inv_append[OF w(2) ap ne']
  let ?s = "(fo_store f)\<lparr>so_log := Some w'\<rparr>"
  have app: "appendReplicatedRecords (fl_writes io) (fl_sync io) (fo_pending f) (fo_store f) = (Inr off, ?s)"
    using ap ne assms(2) w(1) by (simp add: appendReplicatedRecords_def wal_appendBatch_def log_of_def)
  have m: "sm_inv hash (so_map ?s)" "maxMemoryBytes (so_map ?s) = 0" using assms(1) by (simp_all add: copies_def)
  obtain a' s' where fd: "feed (applier_apply hash) (units_payloads vs) (fo_applier f, ?s) = (length (units_payloads vs), a', s')"
    and r: "\<not> ap_inside a'" "sm_inv hash (so_map s')" "maxMemoryBytes (so_map s') = 0"
      "sm_abs hash (so_map s') = foldl mut_apply (sm_abs hash (so_map ?s)) (concat (map unit_muts vs))" "so_log s' = so_log ?s"
    using feed_applier_units[OF m assms(4,5)] by blast
  have path: "so_logPath s' = so_logPath (fo_store f)"
    using feed_rest[of "(fo_applier f, ?s)" hash "units_payloads vs"] fd by (simp add: same_rest_def)
  let ?f = "f\<lparr>fo_store := s', fo_applier := a', fo_recordsApplied := fo_recordsApplied f + of_nat (length (units_payloads vs)),
    fo_pending := [], fo_pendingBytes := 0\<rparr>"
  have off: "off = logOffset s'" using r(5) ok inv by (simp add: logOffset_def wal_inv_def)
  have "flushPending hash io f = (True, ?f)" using app fd assms(2) off by (simp add: flushPending_def)
  moreover have "copies hash s' (us @ vs)"
    using assms(1,4) r w ok inv by (auto simp: copies_def units_map_append)
  ultimately show ?thesis using that[of ?f] r(1) path by simp
qed


subsection \<open>Receiving\<close>

text \<open>The flag \<open>insideTransaction_\<close> after some payloads.\<close>

fun inside_after :: "bool \<Rightarrow> string list \<Rightarrow> bool" where
  "inside_after b [] = b"
| "inside_after b (p # ps) =
     inside_after (if parseBeginMarker p \<noteq> None then True else if parseCommitMarker p \<noteq> None then False else b) ps"

lemma inside_after_append: "inside_after b (ps @ qs) = inside_after (inside_after b ps) qs"
  by (induction ps arbitrary: b) simp_all

lemma inside_after_feed:
  "fst (feed rec_apply ps rc) = length ps \<Longrightarrow> rc_inside (snd (feed rec_apply ps rc)) = inside_after (rc_inside rc) ps"
proof (induction ps arbitrary: rc)
  case (Cons p ps)
  obtain b rc' where r: "rec_apply p rc = (b, rc')" by fastforce
  with Cons.prems have b: "b" "fst (feed rec_apply ps rc') = length ps" by (cases b; auto simp: split_beta Let_def)+
  have "rc_inside rc' = (if parseBeginMarker p \<noteq> None then True else if parseCommitMarker p \<noteq> None then False else rc_inside rc)"
    using r b(1) by (auto simp: rec_apply_def split: option.splits if_splits)
  with Cons.IH[OF b(2)] r b(1) show ?case by (simp add: split_beta Let_def)
qed simp

text \<open>It tells whether the records received end inside a unit.\<close>

lemma inside_units:
  assumes "\<forall>u \<in> set us. unit_ok u" and "n \<le> length (units_payloads us)"
  shows "inside_after False (take n (units_payloads us)) \<longleftrightarrow> n \<noteq> length (units_payloads (take (units_in n us) us))"
proof -
  have "outside rc_init Map.empty" by (simp add: outside_def rc_init_def)
  from feed_units_prefix[OF assms(1) this assms(2)] inside_after_feed[of "take n (units_payloads us)" rc_init] assms(2)
  show ?thesis by (simp add: rc_init_def)
qed

lemma consume_records_log:
  assumes "fo_recvBuffer f = pre @ log_of ps @ t" and "\<forall>p \<in> set ps. payload_ok p" and "torn t"
    and "fst (consume_records (length pre) f)"
  shows "consume_records (length pre) f = (True, length pre + length (log_of ps),
    f\<lparr>fo_insideTransaction := inside_after (fo_insideTransaction f) ps,
      fo_pendingBytes := fo_pendingBytes f + sum_list (map length ps), fo_pending := fo_pending f @ ps\<rparr>)"
  using assms
proof (induction ps arbitrary: pre f)
  case Nil
  then show ?case by (simp add: consume_records.simps[of "length pre" f] parseRecord_torn_tail)
next
  case (Cons p ps)
  let ?in = "if parseBeginMarker p \<noteq> None then True else if parseCommitMarker p \<noteq> None then False else fo_insideTransaction f"
  let ?f = "f\<lparr>fo_insideTransaction := ?in, fo_pendingBytes := fo_pendingBytes f + length p, fo_pending := fo_pending f @ [p]\<rparr>"
  have pr: "parseRecord (fo_recvBuffer f) (length pre) = Ok p (length pre + length (frame p))"
    using Cons.prems(1,2) parseRecord_frame[of p pre "log_of ps @ t"] by simp
  then have st: "consume_records (length pre) f =
      (if fo_pendingBytes ?f > kMaxBufferedTransactionBytes then (False, length pre + length (frame p), ?f)
       else consume_records (length pre + length (frame p)) ?f)"
    by (simp add: consume_records.simps[of "length pre" f] Let_def del: length_frame)
  with Cons.prems(4) have go: "consume_records (length pre) f = consume_records (length (pre @ frame p)) ?f"
    by (simp split: if_splits)
  have "consume_records (length (pre @ frame p)) ?f = (True, length (pre @ frame p) + length (log_of ps),
    ?f\<lparr>fo_insideTransaction := inside_after (fo_insideTransaction ?f) ps,
       fo_pendingBytes := fo_pendingBytes ?f + sum_list (map length ps), fo_pending := fo_pending ?f @ ps\<rparr>)"
    by (rule Cons.IH) (use Cons.prems go in simp_all)
  with go show ?case by simp
qed

lemma consume_records_keeps:
  "consume_records offset f = (b, offset', f') \<Longrightarrow>
   fo_store f' = fo_store f \<and> fo_applier f' = fo_applier f \<and> fo_stateFile f' = fo_stateFile f \<and> fo_recvBuffer f' = fo_recvBuffer f"
proof (induction offset f rule: consume_records.induct)
  case (1 offset f)
  show ?case
  proof (cases "parseRecord (fo_recvBuffer f) offset")
    case (Ok p n)
    show ?thesis using "1.prems" "1.IH"[OF Ok refl refl]
      by (auto simp: consume_records.simps[of offset f] Ok Let_def split: if_splits)
  qed (use "1.prems" in \<open>simp_all add: consume_records.simps[of offset f]\<close>)
qed

text \<open>
  A follower that has received the first \<open>n\<close> records of the units \<open>ws\<close>, and the beginning of
  one more, and has logged and applied the first \<open>m\<close> units.
\<close>

definition receiving :: "(string \<Rightarrow> u64) \<Rightarrow> log_unit list \<Rightarrow> nat \<Rightarrow> nat \<Rightarrow> follower \<Rightarrow> bool" where
  "receiving hash ws m n f \<longleftrightarrow>
     copies hash (fo_store f) (take m ws) \<and> (\<forall>u \<in> set ws. unit_ok u) \<and> m \<le> length ws \<and> \<not> ap_inside (fo_applier f) \<and>
     length (units_payloads (take m ws)) \<le> n \<and> n \<le> length (units_payloads ws) \<and>
     fo_pending f = drop (length (units_payloads (take m ws))) (take n (units_payloads ws)) \<and>
     fo_insideTransaction f = inside_after False (take n (units_payloads ws)) \<and>
     (\<not> fo_insideTransaction f \<longrightarrow> fo_pending f = []) \<and> torn (fo_recvBuffer f) \<and>
     fo_pendingBytes f = sum_list (map length (fo_pending f))"

definition received :: "follower \<Rightarrow> string" where
  "received f = log_bytes (fo_store f) @ log_of (fo_pending f) @ fo_recvBuffer f"

lemma units_payloads_take: "units_payloads (take m us) = take (length (units_payloads (take m us))) (units_payloads us)"
  using units_simps(3)[of "take m us" "drop m us"] by (metis append_eq_conv_conj append_take_drop_id)

lemma received_log:
  assumes "receiving hash ws m n f"
  shows "received f = log_of (take n (units_payloads ws)) @ fo_recvBuffer f"
proof -
  let ?k = "length (units_payloads (take m ws))"
  have "log_bytes (fo_store f) = log_of (take ?k (units_payloads ws))"
    using assms copies_log[of hash "fo_store f" "take m ws"] units_payloads_take[of m ws] by (simp add: receiving_def)
  moreover have "take ?k (units_payloads ws) @ drop ?k (take n (units_payloads ws)) = take n (units_payloads ws)"
    using assms by (metis append_take_drop_id min_absorb1 receiving_def take_take)
  ultimately show ?thesis using assms by (simp add: received_def receiving_def flip: log_of_simps(3))
qed

definition ackline :: "nat \<Rightarrow> string" where
  "ackline n = ''ACK '' @ to_string n @ eol"

text \<open>The whole units among some records.\<close>

lemma units_in_payloads:
  assumes "\<forall>u \<in> set us. unit_ok u" and "n \<le> length (units_payloads us)" and "\<not> inside_after False (take n (units_payloads us))"
  shows "units_payloads (take (units_in n us) us) = take n (units_payloads us)"
  using inside_units[OF assms(1,2)] assms(3) units_payloads_take[of "units_in n us" us] by simp

lemma units_in_le: "units_in n us \<le> length us"
  by (induction n us rule: units_in.induct) auto

lemma units_in_mono:
  "m \<le> length us \<Longrightarrow> length (units_payloads (take m us)) \<le> n \<Longrightarrow> m \<le> units_in n us"
proof (induction us arbitrary: m n)
  case (Cons u us)
  show ?case
  proof (cases m)
    case (Suc k)
    with Cons.prems have "length (unit_payloads u) + length (units_payloads (take k us)) \<le> n" "k \<le> length us" by simp_all
    with Cons.IH[of k "n - length (unit_payloads u)"] Suc show ?thesis by simp
  qed simp
qed simp

text \<open>The records of a chunk go to \<open>pending_\<close>; \<open>j\<close> more are complete.\<close>

lemma consume_records_receiving:
  assumes "receiving hash ws m n f" and "prefix (received f @ d) (log_of (units_payloads ws))"
    and "f1 = f\<lparr>fo_recvBuffer := fo_recvBuffer f @ d, fo_bytesReceived := x\<rparr>" and "consume_records 0 f1 = (True, offset, f2)"
  obtains k t where "n \<le> k" "k \<le> length (units_payloads ws)" "torn t" "drop offset (fo_recvBuffer f1) = t"
    "received f @ d = log_of (take k (units_payloads ws)) @ t"
    "fo_pending f2 = drop (length (units_payloads (take m ws))) (take k (units_payloads ws))"
    "fo_insideTransaction f2 = inside_after False (take k (units_payloads ws))"
    "fo_pendingBytes f2 = sum_list (map length (fo_pending f2))"
proof -
  let ?ps = "units_payloads ws" and ?k0 = "length (units_payloads (take m ws))"
  have ok: "\<forall>p \<in> set ?ps. payload_ok p" using assms(1) units_payloads_ok by (auto simp: receiving_def)
  have n: "?k0 \<le> n" "n \<le> length ?ps" using assms(1) by (simp_all add: receiving_def)
  have rc: "received f @ d = log_of (take n ?ps) @ fo_recvBuffer f1" using received_log[OF assms(1)] assms(3) by simp
  have "log_of ?ps = log_of (take n ?ps) @ log_of (drop n ?ps)" by (metis append_take_drop_id log_of_simps(3))
  with assms(2) rc have pre: "prefix (fo_recvBuffer f1) (log_of (drop n ?ps))" by simp
  have "\<forall>p \<in> set (drop n ?ps). payload_ok p" using ok by (meson in_set_dropD)
  from log_prefix_split[OF pre this] obtain j t where
    j: "j \<le> length (drop n ?ps)" "fo_recvBuffer f1 = log_of (take j (drop n ?ps)) @ t" "torn t"
    using whole_le by blast
  let ?qs = "take j (drop n ?ps)"
  have qok: "\<forall>p \<in> set ?qs. payload_ok p" using ok by (meson in_set_dropD in_set_takeD)
  have r: "consume_records 0 f1 = (True, length (log_of ?qs),
    f1\<lparr>fo_insideTransaction := inside_after (fo_insideTransaction f1) ?qs,
       fo_pendingBytes := fo_pendingBytes f1 + sum_list (map length ?qs), fo_pending := fo_pending f1 @ ?qs\<rparr>)"
    using consume_records_log[of f1 "[]" ?qs t] j qok assms(4) by simp
  have f2: "fo_pending f2 = fo_pending f @ ?qs" "fo_insideTransaction f2 = inside_after (fo_insideTransaction f) ?qs"
    "offset = length (log_of ?qs)" "fo_pendingBytes f2 = fo_pendingBytes f + sum_list (map length ?qs)"
    using r assms(3,4) by auto
  have tk: "take (n + j) ?ps = take n ?ps @ ?qs" by (rule take_add)
  show ?thesis
  proof (rule that[of "n + j" t])
    show "n + j \<le> length ?ps" using j(1) n(2) by simp
    show "received f @ d = log_of (take (n + j) ?ps) @ t" using rc j(2) tk by simp
    show "fo_pending f2 = drop ?k0 (take (n + j) ?ps)"
      using f2(1) assms(1) n by (simp add: receiving_def tk)
    show "fo_insideTransaction f2 = inside_after False (take (n + j) ?ps)"
      using f2(2) assms(1) tk by (simp add: receiving_def inside_after_append)
    show "drop offset (fo_recvBuffer f1) = t" using f2(3) j(2) by simp
    show "fo_pendingBytes f2 = sum_list (map length (fo_pending f2))" using f2(1,4) assms(1) by (simp add: receiving_def)
  qed (use j in simp_all)
qed

text \<open>Outside a transaction everything pending is whole units, which a flush moves to the log and the map.\<close>

lemma chunk_flush:
  assumes "receiving hash ws m n f" and "k \<le> length (units_payloads ws)" and "length (units_payloads (take m ws)) \<le> k"
    and "fo_pending f3 = drop (length (units_payloads (take m ws))) (take k (units_payloads ws))" and "fo_pending f3 \<noteq> []"
    and "\<not> inside_after False (take k (units_payloads ws))" and "fo_store f3 = fo_store f" and "fo_applier f3 = fo_applier f"
    and "flush_fine io"
  obtains f4 where "flushPending hash io f3 = (True, f4)" "copies hash (fo_store f4) (take (units_in k ws) ws)"
    "\<not> ap_inside (fo_applier f4)" "fo_pending f4 = []" "fo_pendingBytes f4 = 0" "fo_recvBuffer f4 = fo_recvBuffer f3"
    "fo_insideTransaction f4 = fo_insideTransaction f3" "fo_stateFile f4 = fo_stateFile f3"
    "so_logPath (fo_store f4) = so_logPath (fo_store f3)"
    "units_payloads (take (units_in k ws) ws) = take k (units_payloads ws)" "m \<le> units_in k ws"
proof -
  have base: "copies hash (fo_store f) (take m ws)" "m \<le> length ws" "\<forall>u \<in> set ws. unit_ok u" "\<not> ap_inside (fo_applier f)"
    using assms(1) by (simp_all add: receiving_def)
  let ?m = "units_in k ws"
  have tk: "units_payloads (take ?m ws) = take k (units_payloads ws)"
    using units_in_payloads[OF base(3) assms(2)] assms(6) by simp
  have mm: "m \<le> ?m" by (rule units_in_mono[OF base(2) assms(3)])
  let ?vs = "drop m (take ?m ws)"
  have us: "take m ws @ ?vs = take ?m ws" using mm by (metis append_take_drop_id min_absorb1 take_take)
  then have vs: "units_payloads ?vs = fo_pending f3"
    using tk assms(4) units_simps(3)[of "take m ws" ?vs] by simp
  have ne: "?vs \<noteq> []" using assms(5) vs by auto
  have uok: "\<forall>u \<in> set ?vs. unit_ok u" using base(3) by (meson in_set_dropD in_set_takeD)
  have c: "copies hash (fo_store f3) (take m ws)" "\<not> ap_inside (fo_applier f3)" using base assms(7,8) by simp_all
  from flushPending_copies[OF c(1) vs[symmetric] ne uok c(2) assms(9)] obtain f4 where
    "flushPending hash io f3 = (True, f4)" "copies hash (fo_store f4) (take m ws @ ?vs)"
    "\<not> ap_inside (fo_applier f4)" "fo_pending f4 = []" "fo_pendingBytes f4 = 0" "fo_recvBuffer f4 = fo_recvBuffer f3"
    "fo_insideTransaction f4 = fo_insideTransaction f3" "fo_stateFile f4 = fo_stateFile f3"
    "so_logPath (fo_store f4) = so_logPath (fo_store f3)" by blast
  with that[of f4] us tk mm show ?thesis by simp
qed

lemma consume_chunk_receiving:
  assumes "receiving hash ws m n f" and "prefix (received f @ d) (log_of (units_payloads ws))" and "flush_fine io"
    and "consume_chunk hash io d f = (b, sent, f')"
  shows "fo_stateFile f' = fo_stateFile f" and "so_logPath (fo_store f') = so_logPath (fo_store f)"
    and "\<exists>m'. m \<le> m' \<and> m' \<le> length ws \<and> copies hash (fo_store f') (take m' ws)"
    and "b \<Longrightarrow> \<exists>m' n'. m \<le> m' \<and> receiving hash ws m' n' f'" and "b \<Longrightarrow> received f' = received f @ d"
    and "b \<Longrightarrow> sent = [] \<or> sent = ackline (unat (logOffset (fo_store f')))"
proof -
  let ?f1 = "f\<lparr>fo_recvBuffer := fo_recvBuffer f @ d, fo_bytesReceived := fo_bytesReceived f + of_nat (length d)\<rparr>"
  let ?ps = "units_payloads ws" and ?k0 = "length (units_payloads (take m ws))"
  have base: "copies hash (fo_store f) (take m ws)" "m \<le> length ws" "\<forall>u \<in> set ws. unit_ok u" "\<not> ap_inside (fo_applier f)"
    using assms(1) by (simp_all add: receiving_def)
  obtain b2 offset f2 where r2: "consume_records 0 ?f1 = (b2, offset, f2)" using prod_cases3 by blast
  note kp = consume_records_keeps[OF r2]
  have "fo_stateFile f' = fo_stateFile f \<and> so_logPath (fo_store f') = so_logPath (fo_store f) \<and>
    (\<exists>m'. m \<le> m' \<and> m' \<le> length ws \<and> copies hash (fo_store f') (take m' ws)) \<and>
    (b \<longrightarrow> (\<exists>m' n'. m \<le> m' \<and> receiving hash ws m' n' f') \<and> received f' = received f @ d \<and>
       (sent = [] \<or> sent = ackline (unat (logOffset (fo_store f')))))"
  proof (cases b2)
    case False
    with r2 assms(4) kp base show ?thesis by (auto simp: consume_chunk_def)
  next
    case True
    with r2 have r2': "consume_records 0 ?f1 = (True, offset, f2)" by simp
    obtain k t where k: "n \<le> k" "k \<le> length ?ps" "torn t" "drop offset (fo_recvBuffer ?f1) = t"
      "received f @ d = log_of (take k ?ps) @ t" "fo_pending f2 = drop ?k0 (take k ?ps)"
      "fo_insideTransaction f2 = inside_after False (take k ?ps)" "fo_pendingBytes f2 = sum_list (map length (fo_pending f2))"
      using consume_records_receiving[OF assms(1,2) refl r2'] by blast
    let ?f3 = "f2\<lparr>fo_recvBuffer := drop offset (fo_recvBuffer f2), fo_openTransaction := fo_insideTransaction f2\<rparr>"
    have k0: "?k0 \<le> k" using k(1) assms(1) by (simp add: receiving_def)
    show ?thesis
    proof (cases "\<not> fo_insideTransaction f2 \<and> fo_pending f2 \<noteq> []")
      case fl: True
      let ?m = "units_in k ws"
      obtain f4 where f4: "flushPending hash io ?f3 = (True, f4)" "copies hash (fo_store f4) (take ?m ws)"
        "\<not> ap_inside (fo_applier f4)" "fo_pending f4 = []" "fo_pendingBytes f4 = 0" "fo_recvBuffer f4 = fo_recvBuffer ?f3"
        "fo_insideTransaction f4 = fo_insideTransaction ?f3" "fo_stateFile f4 = fo_stateFile ?f3"
        "so_logPath (fo_store f4) = so_logPath (fo_store ?f3)" "units_payloads (take ?m ws) = take k ?ps" "m \<le> ?m"
        using chunk_flush[OF assms(1) k(2) k0, of ?f3 io] k(6,7) fl kp assms(3) by (simp, metis)
      note copy = f4(2) and tk = f4(10) and mm = f4(11)
      obtain snt okk where ack: "sendAck (fl_ack io) (logOffset (fo_store f4)) = (snt, okk)" by fastforce
      have res: "b = okk" "sent = snt" "f' = f4"
        using assms(4) r2 True fl f4(1) ack by (simp_all add: consume_chunk_def Let_def)
      have "okk \<Longrightarrow> snt = ackline (unat (logOffset (fo_store f4)))"
        using ack write_loop_ok[of "fl_ack io"] unfolding sendAck_def ackline_def by (metis fst_conv snd_conv)
      moreover have "receiving hash ws ?m k f4"
        using copy base(3) units_in_le[of k ws] f4 tk k kp fl by (simp add: receiving_def)
      moreover have "received f4 = received f @ d"
        using k(4,5) f4(4,6) copies_log[OF copy] tk kp by (simp add: received_def)
      ultimately show ?thesis using res copy mm units_in_le[of k ws] f4(8,9) kp by auto
    next
      case False
      then have res: "b" "sent = []" "f' = ?f3"
        using assms(4) r2 True by (simp_all add: consume_chunk_def Let_def split: if_splits)
      have "receiving hash ws m k ?f3"
        using base kp k k0 False by (auto simp: receiving_def)
      moreover from this have "received ?f3 = received f @ d" using received_log[of hash ws m k ?f3] k(4,5) kp by simp
      ultimately show ?thesis using res base kp by auto
    qed
  qed
  then show "fo_stateFile f' = fo_stateFile f" and "so_logPath (fo_store f') = so_logPath (fo_store f)"
    and "\<exists>m'. m \<le> m' \<and> m' \<le> length ws \<and> copies hash (fo_store f') (take m' ws)"
    and "b \<Longrightarrow> \<exists>m' n'. m \<le> m' \<and> receiving hash ws m' n' f'" and "b \<Longrightarrow> received f' = received f @ d"
    and "b \<Longrightarrow> sent = [] \<or> sent = ackline (unat (logOffset (fo_store f')))"
    by simp_all
qed


subsection \<open>Catching up\<close>

lemma consume_records_goes_on:
  assumes "fo_recvBuffer f = pre @ log_of ps @ t" and "\<forall>p \<in> set ps. payload_ok p" and "torn t"
    and "fo_pendingBytes f + sum_list (map length ps) \<le> kMaxBufferedTransactionBytes"
  shows "fst (consume_records (length pre) f)"
  using assms
proof (induction ps arbitrary: pre f)
  case Nil
  then show ?case by (simp add: consume_records.simps[of "length pre" f] parseRecord_torn_tail)
next
  case (Cons p ps)
  let ?in = "if parseBeginMarker p \<noteq> None then True else if parseCommitMarker p \<noteq> None then False else fo_insideTransaction f"
  let ?f = "f\<lparr>fo_insideTransaction := ?in, fo_pendingBytes := fo_pendingBytes f + length p, fo_pending := fo_pending f @ [p]\<rparr>"
  have pr: "parseRecord (fo_recvBuffer f) (length pre) = Ok p (length pre + length (frame p))"
    using Cons.prems(1,2) parseRecord_frame[of p pre "log_of ps @ t"] by simp
  have "fst (consume_records (length (pre @ frame p)) ?f)" by (rule Cons.IH) (use Cons.prems in simp_all)
  with pr Cons.prems(4) show ?case
    by (simp add: consume_records.simps[of "length pre" f] Let_def del: length_frame)
qed

lemma sum_payloads_le: "sum_list (map length ps) \<le> length (log_of ps)"
  by (induction ps) simp_all

lemma torn_log: "torn (log_of ps) \<Longrightarrow> \<forall>p \<in> set ps. payload_ok p \<Longrightarrow> ps = []"
  using parseRecord_frame[of "hd ps" "[]" "log_of (tl ps)"] by (cases ps) (auto simp: torn_def dest: spec[of _ "[]"])

text \<open>A chunk is taken unless what waits grows past the limit.\<close>

lemma consume_chunk_goes_on:
  assumes "receiving hash ws m n f" and "prefix (received f @ d) (log_of (units_payloads ws))" and "flush_fine io"
    and "WErr \<notin> set (fl_ack io)"
    and "length (log_of (units_payloads ws)) - length (log_bytes (fo_store f)) \<le> kMaxBufferedTransactionBytes"
  shows "fst (consume_chunk hash io d f)"
proof -
  let ?f1 = "f\<lparr>fo_recvBuffer := fo_recvBuffer f @ d, fo_bytesReceived := fo_bytesReceived f + of_nat (length d)\<rparr>"
  let ?ps = "units_payloads ws"
  have ok: "\<forall>p \<in> set ?ps. payload_ok p" using assms(1) units_payloads_ok by (auto simp: receiving_def)
  have rc: "received f @ d = log_of (take n ?ps) @ fo_recvBuffer ?f1" using received_log[OF assms(1)] by simp
  have "log_of ?ps = log_of (take n ?ps) @ log_of (drop n ?ps)" by (metis append_take_drop_id log_of_simps(3))
  with assms(2) rc have pre: "prefix (fo_recvBuffer ?f1) (log_of (drop n ?ps))" by simp
  have "\<forall>p \<in> set (drop n ?ps). payload_ok p" using ok by (meson in_set_dropD)
  from log_prefix_split[OF pre this] obtain j t where
    j: "fo_recvBuffer ?f1 = log_of (take j (drop n ?ps)) @ t" "torn t" by blast
  let ?qs = "take j (drop n ?ps)"
  have qok: "\<forall>p \<in> set ?qs. payload_ok p" using ok by (meson in_set_dropD in_set_takeD)
  have "received f @ d = log_bytes (fo_store f) @ log_of (fo_pending f @ ?qs) @ t" using j(1) by (simp add: received_def)
  then have "length (log_of (fo_pending f @ ?qs)) \<le> kMaxBufferedTransactionBytes"
    using assms(2,5) by (auto dest!: prefix_length_le)
  with sum_payloads_le[of "fo_pending f @ ?qs"] assms(1)
  have "fo_pendingBytes ?f1 + sum_list (map length ?qs) \<le> kMaxBufferedTransactionBytes" by (simp add: receiving_def)
  from consume_records_goes_on[of ?f1 "[]", OF _ qok j(2) this] j(1) have "fst (consume_records 0 ?f1)" by simp
  then obtain offset f2 where r2: "consume_records 0 ?f1 = (True, offset, f2)" by (cases "consume_records 0 ?f1") auto
  obtain k t where k: "n \<le> k" "k \<le> length ?ps" "fo_pending f2 = drop (length (units_payloads (take m ws))) (take k ?ps)"
    "fo_insideTransaction f2 = inside_after False (take k ?ps)"
    using consume_records_receiving[OF assms(1,2) refl r2] by blast
  have k0: "length (units_payloads (take m ws)) \<le> k" using k(1) assms(1) by (simp add: receiving_def)
  let ?f3 = "f2\<lparr>fo_recvBuffer := drop offset (fo_recvBuffer f2), fo_openTransaction := fo_insideTransaction f2\<rparr>"
  have "fst (flushPending hash io ?f3)" if "\<not> fo_insideTransaction f2" "fo_pending f2 \<noteq> []"
    using chunk_flush[OF assms(1) k(2) k0, of ?f3 io] k(3,4) that consume_records_keeps[OF r2] assms(3) by (simp, metis fst_conv)
  then show ?thesis
    using assms(4) r2
    by (cases "fo_insideTransaction f2"; cases "fo_pending f2 = []")
      (auto simp: consume_chunk_def Let_def sendAck_def write_loop_no_error split: prod.splits bool.splits)
qed

definition fresh_link :: "follower \<Rightarrow> bool" where
  "fresh_link f \<longleftrightarrow> fo_recvBuffer f = [] \<and> fo_pending f = [] \<and> fo_pendingBytes f = 0 \<and> \<not> fo_insideTransaction f \<and>
     \<not> ap_inside (fo_applier f)"

lemma receiving_start:
  assumes "fresh_link f" and "copies hash (fo_store f) (take m ws)" and "\<forall>u \<in> set ws. unit_ok u" and "m \<le> length ws"
  shows "receiving hash ws m (length (units_payloads (take m ws))) f" and "received f = log_bytes (fo_store f)"
proof -
  let ?n = "length (units_payloads (take m ws))"
  have "\<forall>u \<in> set (take m ws). unit_ok u" using assms(3) by (meson in_set_takeD)
  from inside_units[OF this order_refl] have "\<not> inside_after False (units_payloads (take m ws))"
    using assms(4) by (simp add: units_in_all min_absorb2)
  then have "\<not> inside_after False (take ?n (units_payloads ws))" using units_payloads_take[of m ws] by simp
  moreover have "?n \<le> length (units_payloads ws)" using units_payloads_take[of m ws] by (metis length_take min.cobounded1)
  ultimately show "receiving hash ws m ?n f" using assms by (auto simp: receiving_def fresh_link_def)
  show "received f = log_bytes (fo_store f)" using assms(1) by (simp add: received_def fresh_link_def)
qed

lemma receiving_all:
  assumes "receiving hash ws m n f" and "received f = log_of (units_payloads ws)"
  shows "copies hash (fo_store f) ws"
proof -
  let ?ps = "units_payloads ws"
  have ok: "\<forall>p \<in> set ?ps. payload_ok p" using assms(1) units_payloads_ok by (auto simp: receiving_def)
  have "log_of ?ps = log_of (take n ?ps) @ log_of (drop n ?ps)" by (metis append_take_drop_id log_of_simps(3))
  with received_log[OF assms(1)] assms(2) have "fo_recvBuffer f = log_of (drop n ?ps)" by simp
  moreover have "torn (fo_recvBuffer f)" using assms(1) by (simp add: receiving_def)
  ultimately have "drop n ?ps = []" using torn_log[of "drop n ?ps"] ok by (metis in_set_dropD)
  then have n: "n = length ?ps" using assms(1) by (simp add: receiving_def)
  have "\<not> inside_after False ?ps"
    using inside_units[of ws "length ?ps"] assms(1) by (simp add: receiving_def units_in_all)
  with assms(1) n have "fo_pending f = []" "fo_pending f = drop (length (units_payloads (take m ws))) ?ps"
    by (auto simp: receiving_def)
  then have "length ?ps \<le> length (units_payloads (take m ws))" by simp
  then have "units_payloads (drop m ws) = []"
    using units_simps(3)[of "take m ws" "drop m ws"] by simp
  then have "drop m ws = []"
  proof (cases "drop m ws")
    case (Cons u us)
    then show ?thesis using \<open>units_payloads (drop m ws) = []\<close> by (cases u) simp_all
  qed simp
  then have "take m ws = ws" by (metis append_take_drop_id append_Nil2)
  with assms(1) show ?thesis by (simp add: receiving_def)
qed

text \<open>The turns in which the kernel hands over some bytes and the follower's own disk works.\<close>

definition data_turn :: "consume_in \<Rightarrow> bool" where
  "data_turn i \<longleftrightarrow> \<not> cs_stopping i \<and> cs_poll i = Some SysOk \<and> cs_read i = SysOk \<and> cs_bytes i \<noteq> [] \<and>
     length (cs_bytes i) \<le> kReadChunkBytes \<and> flush_fine (cs_flush i) \<and> WErr \<notin> set (fl_ack (cs_flush i))"

lemma consume_receives:
  assumes "receiving hash ws m n f" and "\<forall>i \<in> set is. data_turn i"
    and "prefix (received f @ concat (map cs_bytes is)) (log_of (units_payloads ws))"
    and "length (log_of (units_payloads ws)) - length (log_bytes (fo_store f)) \<le> kMaxBufferedTransactionBytes"
  shows "\<exists>sent f' m' n'. consume hash is f = (None, sent, f') \<and> receiving hash ws m' n' f' \<and>
    received f' = received f @ concat (map cs_bytes is)"
  using assms
proof (induction "is" arbitrary: m n f)
  case Nil
  then show ?case by auto
next
  case (Cons i "is")
  let ?d = "cs_bytes i" and ?io = "cs_flush i"
  have dt: "data_turn i" using Cons.prems(2) by simp
  then have io: "flush_fine ?io" "WErr \<notin> set (fl_ack ?io)" by (simp_all add: data_turn_def)
  have pre: "prefix (received f @ ?d) (log_of (units_payloads ws))" using Cons.prems(3) by (simp add: prefix_def) (metis append.assoc)
  obtain b sent f1 where c: "consume_chunk hash ?io ?d f = (b, sent, f1)" using prod_cases3 by blast
  have b: "b" using consume_chunk_goes_on[OF Cons.prems(1) pre io Cons.prems(4)] c by simp
  note r = consume_chunk_receiving[OF Cons.prems(1) pre io(1) c]
  obtain m1 n1 where r1: "m \<le> m1" "receiving hash ws m1 n1 f1" using r(4)[OF b] by blast
  have "length (log_bytes (fo_store f)) \<le> length (log_bytes (fo_store f1))"
  proof -
    have "log_bytes (fo_store f) = log_of (units_payloads (take m ws))" "log_bytes (fo_store f1) = log_of (units_payloads (take m1 ws))"
      using Cons.prems(1) r1(2) copies_log by (auto simp: receiving_def)
    moreover have "take m1 ws = take m ws @ drop m (take m1 ws)" using r1(1) by (metis append_take_drop_id min_absorb1 take_take)
    ultimately show ?thesis by (metis length_append le_add1 log_of_simps(3) units_simps(3))
  qed
  then have lim: "length (log_of (units_payloads ws)) - length (log_bytes (fo_store f1)) \<le> kMaxBufferedTransactionBytes"
    using Cons.prems(4) by linarith
  have rec: "received f1 = received f @ ?d" by (rule r(5)[OF b])
  have "prefix (received f1 @ concat (map cs_bytes is)) (log_of (units_payloads ws))" using Cons.prems(3) rec by simp
  from Cons.IH[OF r1(2) _ this lim] Cons.prems(2) obtain sent' f' m' n' where
    "consume hash is f1 = (None, sent', f')" "receiving hash ws m' n' f'" "received f' = received f1 @ concat (map cs_bytes is)"
    by auto
  moreover have "consume hash (i # is) f = (let (r, sent', f'') = consume hash is f1 in (r, sent @ sent', f''))"
    using dt c b by (simp add: data_turn_def)
  ultimately show ?case using rec by auto
qed


text \<open>A follower that has just started on an empty log, and a log that reaches it in two chunks.\<close>

definition demo_units :: "log_unit list" where
  "demo_units = [Txn 7 [\<lparr>erase = False, key = ''a'', val = ''1''\<rparr>], Single (SetCommand ''b'' ''2'')]"

definition demo_flush :: flush_io where
  "demo_flush = \<lparr>fl_writes = [WOk 3], fl_sync = True, fl_ack = []\<rparr>"

definition demo_turn :: "string \<Rightarrow> consume_in" where
  "demo_turn bytes = \<lparr>cs_stopping = False, cs_poll = Some SysOk, cs_read = SysOk, cs_bytes = bytes, cs_flush = demo_flush\<rparr>"

lemma demo_units_ok [simp]: "\<forall>u \<in> set demo_units. unit_ok u"
  by (simp add: demo_units_def command_fits_def payload_ok_def unat_kMaxPayloadBytes)

lemma demo_length: "length (log_of (units_payloads demo_units)) = 72"
  by (simp add: demo_units_def mutation_payload_def)

lemma copies_empty:
  "cfg_plain cfg \<Longrightarrow> newStore hash io True True cfg None = Some (Inr s) \<Longrightarrow> copies hash s []"
  using mirrors_copies[OF newStore_empty] by force


end
