(* ===== verification/ReplicaLink.thy ===== *)
theory ReplicaLink
  imports Leader Replica
begin

text \<open>
  The two ends of a replication link together: which bytes of the log a session ships, what
  the leader reads out of a follower's acknowledgements, and what either side makes of the
  other's half of the handshake.
\<close>

subsection \<open>What a session ships\<close>

definition same_acks :: "lsession \<Rightarrow> lsession \<Rightarrow> bool" where
  "same_acks s s' \<longleftrightarrow> ls_acked s' = ls_acked s \<and> ls_ackBuffer s' = ls_ackBuffer s \<and> ls_finished s' = ls_finished s"

lemma take_twice:
  "b = take j (drop off xs) \<Longrightarrow> c = take (length c) (drop (off + length b) xs) \<Longrightarrow> b @ c = take (length (b @ c)) (drop off xs)"
  by (metis add.commute append_eq_conv_conj append_take_drop_id drop_drop length_append take_add)

lemma ship_loop_turn:
  fixes "is" :: "ship_in list" and s :: lsession and target :: u64
  defines "i \<equiv> (case is of [] \<Rightarrow> ship_rest | i # _ \<Rightarrow> i)"
    and "want \<equiv> (if unat (target - ls_sentOffset s) < kStreamChunkBytes then unat (target - ls_sentOffset s) else kStreamChunkBytes)"
  assumes "ship_loop is file target s = (r, sent, s')"
  obtains (stop) "sent = []" "s' = s" "r = (\<not> ls_sentOffset s < target)"
  | (told) "sent = []" "s' = s\<lparr>ls_stopping := True\<rparr>" "\<not> r"
  | (again) "ls_sentOffset s < target" "\<not> sh_stopping i" "sh_pread i = PEintr" "ship_loop (tl is) file target s = (r, sent, s')"
  | (cut) "prefix sent (drop (unat (ls_sentOffset s)) file)" "s' = s" "\<not> r"
  | (more) n b sent' where "ls_sentOffset s < target" "\<not> sh_stopping i" "sh_pread i = POk n"
      "b = take (min n want) (drop (unat (ls_sentOffset s)) file)" "b \<noteq> []" "write_loop (sh_writes i) b = (b, True)" "sent = b @ sent'"
      "ship_loop (tl is) file target (s\<lparr>ls_sentOffset := ls_sentOffset s + of_nat (length b),
         ls_bytesSent := ls_bytesSent s + of_nat (length b)\<rparr>) = (r, sent', s')"
proof (cases "ls_sentOffset s < target \<and> \<not> sh_stopping i")
  case False
  then show ?thesis
    using assms(3) stop told by (auto simp: ship_loop.simps[of "is"] Let_def simp flip: i_def split: if_splits)
next
  case True
  show ?thesis
  proof (cases "sh_pread i")
    case (POk n)
    define b where "b = take (min n want) (drop (unat (ls_sentOffset s)) file)"
    obtain out ok where w: "write_loop (sh_writes i) b = (out, ok)" by fastforce
    have loop: "ship_loop is file target s =
        (if b = [] then (False, [], s)
         else case write_loop (sh_writes i) b of
           (sent, False) \<Rightarrow> (False, sent, s)
         | (sent, True) \<Rightarrow>
             (case ship_loop (tl is) file target (s\<lparr>ls_sentOffset := ls_sentOffset s + of_nat (length b),
                ls_bytesSent := ls_bytesSent s + of_nat (length b)\<rparr>) of (r, sent', s') \<Rightarrow> (r, sent @ sent', s')))"
      using True POk unfolding b_def want_def i_def by (subst ship_loop.simps) (simp add: Let_def)
    show ?thesis
    proof (cases "b = [] \<or> \<not> ok")
      case True2: True
      have "prefix out b" using write_loop_prefix[of "sh_writes i" b] w by simp
      then have "prefix out (drop (unat (ls_sentOffset s)) file)"
        unfolding b_def using prefix_order.trans take_is_prefix by blast
      moreover have "ship_loop is file target s = (False, if b = [] then [] else out, s)"
        unfolding loop using True2 w by auto
      ultimately show ?thesis using assms(3) by (intro cut) (auto split: if_splits)
    next
      case False
      with write_loop_ok[of "sh_writes i" b] w have wb: "write_loop (sh_writes i) b = (b, True)" by simp
      moreover obtain r' sent' s'' where rec: "ship_loop (tl is) file target (s\<lparr>ls_sentOffset := ls_sentOffset s + of_nat (length b),
          ls_bytesSent := ls_bytesSent s + of_nat (length b)\<rparr>) = (r', sent', s'')" using prod_cases3 by blast
      ultimately have "ship_loop is file target s = (r', b @ sent', s'')" unfolding loop using False by simp
      with assms(3) rec more[OF _ _ POk b_def _ wb, of sent'] True False show ?thesis by simp
    qed
  next
    case PEintr
    have "ship_loop is file target s = ship_loop (tl is) file target s"
      using True PEintr unfolding i_def by (subst ship_loop.simps) (simp add: Let_def)
    with True PEintr assms(3) show ?thesis by (intro again) simp_all
  next
    case PErr
    have "ship_loop is file target s = (False, [], s)"
      using True PErr unfolding i_def by (subst ship_loop.simps) (simp add: Let_def)
    with assms(3) show ?thesis by (intro cut) simp_all
  qed
qed

lemma ship_loop_sends:
  assumes "ship_loop is file target s = (r, sent, s')"
  shows "sent = take (length sent) (drop (unat (ls_sentOffset s)) file) \<and> same_acks s s' \<and>
    (r \<longrightarrow> unat (ls_sentOffset s') = unat (ls_sentOffset s) + length sent \<and> ls_stopping s' = ls_stopping s)"
  using assms
proof (induction "is" "file" target s arbitrary: r sent s' rule: ship_loop.induct)
  case (1 "is" "file" target s)
  from "1.prems" show ?case
  proof (cases rule: ship_loop_turn)
    case again
    from "1.IH"(2)[OF _ refl refl refl _ again(3) again(4)] again(1,2) show ?thesis by simp
  next
    case cut
    then show ?thesis by (metis append_eq_conv_conj prefix_def same_acks_def)
  next
    case (more n b sent')
    let ?s = "s\<lparr>ls_sentOffset := ls_sentOffset s + of_nat (length b), ls_bytesSent := ls_bytesSent s + of_nat (length b)\<rparr>"
    have len: "0 < length b" "length b \<le> unat (target - ls_sentOffset s)"
      using more(4,5) by (auto simp: min_def split: if_splits)
    note pr = ship_progress(1)[OF more(1) len]
    have IH: "sent' = take (length sent') (drop (unat (ls_sentOffset ?s)) file) \<and> same_acks ?s s' \<and>
        (r \<longrightarrow> unat (ls_sentOffset s') = unat (ls_sentOffset ?s) + length sent' \<and> ls_stopping s' = ls_stopping ?s)"
      using "1.IH"(1)[OF _ refl refl refl _ more(3) more(4) _ more(6)[symmetric] _ more(8)] more(1,2,5) by simp
    then have "sent = take (length sent) (drop (unat (ls_sentOffset s)) file)"
      unfolding more(7) using pr by (intro take_twice[OF more(4)]) simp
    moreover have "length sent = length b + length sent'" using more(7) by simp
    ultimately show ?thesis using IH pr by (simp add: same_acks_def)
  qed (simp_all add: same_acks_def)
qed


text \<open>When nothing gets in the way, everything up to the end of the log goes out.\<close>

lemma ship_all:
  assumes "target = of_nat (length file)" and "length file < 2 ^ 64" and "unat (ls_sentOffset s) \<le> length file"
  shows "\<exists>s'. ship_loop [] file target s = (True, drop (unat (ls_sentOffset s)) file, s') \<and> same_acks s s' \<and>
    unat (ls_sentOffset s') = length file \<and> ls_stopping s' = ls_stopping s"
  using assms(3)
proof (induction "length file - unat (ls_sentOffset s)" arbitrary: s rule: less_induct)
  case less
  let ?off = "unat (ls_sentOffset s)"
  have t: "unat target = length file" using assms(1,2) by (simp add: unat_of_nat)
  show ?case
  proof (cases "ls_sentOffset s < target")
    case False
    then have "?off = length file" using less.prems t by (simp add: word_less_nat_alt)
    then show ?thesis using False by (subst ship_loop.simps) (simp add: same_acks_def)
  next
    case True
    have rem: "unat (target - ls_sentOffset s) = length file - ?off" using True t by (simp add: unat_sub)
    define b where "b = take kStreamChunkBytes (drop ?off file)"
    have lt: "?off < length file" using True t by (simp add: word_less_nat_alt)
    have b: "b \<noteq> []" "length b \<le> unat (target - ls_sentOffset s)" using lt rem by (simp_all add: b_def kStreamChunkBytes_def)
    let ?s = "s\<lparr>ls_sentOffset := ls_sentOffset s + of_nat (length b), ls_bytesSent := ls_bytesSent s + of_nat (length b)\<rparr>"
    have adv: "unat (ls_sentOffset ?s) = ?off + length b" using ship_progress(1)[OF True _ b(2)] b(1) by simp
    have "take (min kStreamChunkBytes (if unat (target - ls_sentOffset s) < kStreamChunkBytes
        then unat (target - ls_sentOffset s) else kStreamChunkBytes)) (drop ?off file) = b"
      using rem by (auto simp: b_def min_def)
    then have step: "ship_loop [] file target s = (case ship_loop [] file target ?s of (r, sent', s') \<Rightarrow> (r, b @ sent', s'))"
      using True b(1) by (subst ship_loop.simps) (simp add: ship_rest_def Let_def)
    have "0 < length b" using b(1) by simp
    then have "length file - unat (ls_sentOffset ?s) < length file - ?off" "unat (ls_sentOffset ?s) \<le> length file"
      using adv b(2) lt rem by linarith+
    from less.hyps[OF this] obtain s' where "ship_loop [] file target ?s = (True, drop (unat (ls_sentOffset ?s)) file, s')" "same_acks ?s s'"
      "unat (ls_sentOffset s') = length file" "ls_stopping s' = ls_stopping ?s" by blast
    moreover have "b @ drop (?off + length b) file = drop ?off file"
      unfolding b_def by (cases "length (drop ?off file) \<le> kStreamChunkBytes")
        (simp_all add: add.commute flip: drop_drop)
    ultimately show ?thesis using step adv by (simp add: same_acks_def)
  qed
qed


subsection \<open>What a session makes of acknowledgements\<close>

lemma ackline_no_eol [simp]: "CHR 0x0A \<notin> set (''ACK '' @ to_string n)"
  using to_string_no_eol[of n] by simp

lemma ack_loop_rest: "CHR 0x0A \<notin> set t \<Longrightarrow> ack_loop t h b = (t, h, b)"
  using index_of_None[of "CHR 0x0A" t] by (simp add: ack_loop.simps[of t] find_from_def)

lemma ack_loop_line:
  assumes "n < 2 ^ 64"
  shows "ack_loop (ackline n @ t) h b = ack_loop t (if of_nat n > h then of_nat n else h) True"
proof -
  let ?l = "''ACK '' @ to_string n"
  have "find_from (ackline n @ t) CHR 0x0A 0 = Some (length ?l)"
    using index_of_append[OF ackline_no_eol[of n], of t] by (simp add: find_from_def ackline_def)
  moreover have "substr_to (ackline n @ t) 0 (Some (length ?l)) = ?l" by (simp add: substr_to_def ackline_def)
  moreover have "drop (length ?l + 1) (ackline n @ t) = t" by (simp add: ackline_def)
  moreover have "stoull (drop 4 ?l) = Some (of_nat n)" using stoull_to_string[OF assms, of "[]"] by simp
  ultimately show ?thesis by (simp add: ack_loop.simps[of "ackline n @ t"] Let_def)
qed

text \<open>The highest of some acknowledged offsets.\<close>

lemma ack_loop_lines:
  assumes "\<forall>n \<in> set ns. n \<le> len" and "len < 2 ^ 64" and "unat h \<le> len" and "CHR 0x0A \<notin> set t"
  shows "\<exists>h'. ack_loop (concat (map ackline ns) @ t) h b = (t, h', b \<or> ns \<noteq> []) \<and> unat h' \<le> len"
  using assms(1,3)
proof (induction ns arbitrary: h b)
  case Nil
  then show ?case using ack_loop_rest[OF assms(4)] by simp
next
  case (Cons n ns)
  have n: "n < 2 ^ 64" using Cons.prems(1) assms(2) by auto
  let ?h = "if of_nat n > h then of_nat n else h"
  have "unat ?h \<le> len" using Cons.prems n by (simp add: unat_of_nat)
  from Cons.IH[OF _ this, of True] Cons.prems(1) ack_loop_line[OF n, of "concat (map ackline ns) @ t" h b]
  show ?case by auto
qed

text \<open>A first part of such a stream is some whole lines and a piece of the next.\<close>

lemma acks_prefix:
  assumes "p @ q = concat (map ackline ns) @ t" and "CHR 0x0A \<notin> set t"
  obtains k t' where "p = concat (map ackline (take k ns)) @ t'" "CHR 0x0A \<notin> set t'"
    "t' @ q = concat (map ackline (drop k ns)) @ t"
proof -
  have "\<exists>k t'. p = concat (map ackline (take k ns)) @ t' \<and> CHR 0x0A \<notin> set t' \<and> t' @ q = concat (map ackline (drop k ns)) @ t"
    using assms
  proof (induction ns arbitrary: p)
    case Nil
    then have "CHR 0x0A \<notin> set p" by (metis UnCI append_Nil concat.simps(1) list.map(1) set_append)
    then show ?case using Nil.prems(1) by (intro exI[of _ 0] exI[of _ p]) simp
  next
    case (Cons n ns)
    have "p @ q = ackline n @ concat (map ackline ns) @ t" using Cons.prems(1) by simp
    then consider (inside) us where "p @ us = ackline n" "us \<noteq> []" | (past) p' where "p = ackline n @ p'" "p' @ q = concat (map ackline ns) @ t"
      by (auto simp: append_eq_append_conv2) (metis append_Nil append_Nil2)
    then show ?case
    proof cases
      case inside
      then obtain vs x where "us = vs @ [x]" by (metis rev_exhaust)
      with inside(1) have "p @ vs = ''ACK '' @ to_string n" by (simp add: ackline_def flip: append_assoc)
      then have "CHR 0x0A \<notin> set p" using ackline_no_eol[of n] by (metis UnCI set_append)
      then show ?thesis using Cons.prems(1) by (intro exI[of _ 0] exI[of _ p]) simp
    next
      case past
      from Cons.IH[OF past(2) Cons.prems(2)] obtain k t' where "p' = concat (map ackline (take k ns)) @ t'" "CHR 0x0A \<notin> set t'"
        "t' @ q = concat (map ackline (drop k ns)) @ t" by auto
      with past(1) show ?thesis by (intro exI[of _ "Suc k"] exI[of _ t']) simp
    qed
  qed
  with that show ?thesis by blast
qed


subsection \<open>The handshake\<close>

abbreviation saved :: "follower \<Rightarrow> string" where
  "saved f \<equiv> loadLeaderToken True f"

definition token_ok :: "string \<Rightarrow> bool" where
  "token_ok t \<longleftrightarrow> t \<noteq> [] \<and> t \<noteq> ''-'' \<and> (\<forall>c \<in> set t. \<not> is_space c)"

lemma token_ok_words: "token_ok t \<Longrightarrow> CHR '' '' \<notin> set t \<and> CHR 0x0A \<notin> set t"
  by (auto simp: token_ok_def is_space_def)

lemma replicationToken_ok:
  assumes "replicationToken (Some (dev, ino)) s \<noteq> []"
  shows "token_ok (replicationToken (Some (dev, ino)) s)"
proof -
  have "\<not> is_space c" if "c \<in> set (to_string n)" for c n using that to_string_digits[of n] is_digit_not_space by auto
  moreover have "to_string (unat dev) @ ''-'' @ to_string (unat ino) \<noteq> ''-''"
    by (metis append_is_Nil_conv butlast_snoc butlast_append not_Cons_self2 to_string_nonempty append_self_conv2 list.distinct(1))
  moreover have "\<not> is_space CHR ''-''" by (simp add: is_space_def)
  ultimately show ?thesis using assms by (auto simp: replicationToken_def token_ok_def split: if_splits)
qed

lemma saved_words: "c \<in> set (saved f) \<Longrightarrow> \<not> is_space c"
  by (auto simp: loadLeaderToken_def split: if_splits option.splits dest: set_takeWhileD)

definition resume_line :: "string \<Rightarrow> nat \<Rightarrow> string" where
  "resume_line t n = ''+RESUME '' @ t @ '' '' @ to_string n"

definition full_line :: "string \<Rightarrow> string" where
  "full_line t = ''+FULL '' @ t @ '' 0''"

lemma reply_no_eol: "token_ok t \<Longrightarrow> CHR 0x0A \<notin> set (resume_line t n) \<and> CHR 0x0A \<notin> set (full_line t)"
  by (simp add: resume_line_def full_line_def token_ok_words)

lemma read_line_Some:
  "CHR 0x0A \<notin> set l \<Longrightarrow> read_line (map BByte (l @ CHR 0x0A # rest)) pre = (Some x, as) \<Longrightarrow> x = pre @ l \<and> as = map BByte rest"
proof (induction l arbitrary: pre)
  case (Cons a l)
  from Cons.prems Cons.IH[of "pre @ [a]"] show ?case by (auto split: if_splits)
qed simp

text \<open>The request a follower sends and what the leader makes of it.\<close>

definition answered :: "follower \<Rightarrow> string \<Rightarrow> store \<Rightarrow> leader \<Rightarrow> bool \<times> string \<times> lsession \<times> leader" where
  "answered f t s l =
     (let off = logOffset (fo_store f)
      in if off \<noteq> 0 \<and> saved f = t \<and> off \<le> logOffset s
         then (True, resume_line t (unat off) @ eol, newSessionState\<lparr>ls_sentOffset := off, ls_acked := off\<rparr>, l)
         else (True, full_line t @ eol, newSessionState, l\<lparr>ld_fullResyncs := ld_fullResyncs l + 1\<rparr>))"

lemma request_line:
  obtains line where "handshake_request True f = line @ eol" "CHR 0x0A \<notin> set line" "strip_cr line = line"
    "\<forall>t s l. token_ok t \<longrightarrow> answer_sync line t s l = answered f t s l"
proof -
  define off where "off = logOffset (fo_store f)"
  define tk where "tk = (if saved f = [] \<or> off = 0 then ''-'' else saved f)"
  let ?line = "''SYNC '' @ tk @ '' '' @ to_string (unat off)"
  have tk: "CHR '' '' \<notin> set tk" "CHR 0x0A \<notin> set tk"
    using saved_words[of "CHR '' ''" f] saved_words[of "CHR 0x0A" f] by (auto simp: tk_def is_space_def)
  have req: "handshake_request True f = ?line @ eol"
    by (simp add: handshake_request_def Let_def tk_def off_def)
  have n: "CHR 0x0A \<notin> set ?line" using tk(2) by simp
  have "is_digit (last (to_string (unat off)))" using to_string_digits[of "unat off"] by simp
  then have "last ?line \<noteq> CHR 0x0D" by (auto simp: is_digit_def)
  then have strip: "strip_cr ?line = ?line" by (simp add: strip_cr_def)
  have cw: "control_words ?line = Some (''SYNC'', tk, to_string (unat off))"
    using control_words_exact[of "''SYNC''" tk "to_string (unat off)"] tk(1) by simp
  have num: "stoull (to_string (unat off)) = Some off"
    using stoull_to_string[of "unat off" "[]"] unsigned_less[of off] by simp
  have can: "(tk \<noteq> [] \<and> tk = t \<and> off \<le> logOffset s) = (off \<noteq> 0 \<and> saved f = t \<and> off \<le> logOffset s)" if "token_ok t" for t s
    using that by (auto simp: tk_def token_ok_def)
  have "answer_sync ?line t s l = answered f t s l" if "token_ok t" for t s l
    unfolding answer_sync_def cw option.case prod.case num Let_def can[OF that] answered_def
    by (simp add: resume_line_def full_line_def newSessionState_def off_def)
  then show ?thesis by (intro that[OF req n strip]) blast
qed

lemma handshake_answer:
  assumes "performHandshake (map BByte (handshake_request True f)) writes info s l = (True, sent, session, l1)"
    and "WErr \<notin> set writes" and "replicationToken info s = t" and "token_ok t"
  defines "off \<equiv> logOffset (fo_store f)"
  shows "ld_sessions l1 = ld_sessions l \<and> ld_stopping l1 = ld_stopping l \<and>
    (if off \<noteq> 0 \<and> saved f = t \<and> off \<le> logOffset s
     then sent = resume_line t (unat off) @ eol \<and> session = newSessionState\<lparr>ls_sentOffset := off, ls_acked := off\<rparr>
     else sent = full_line t @ eol \<and> session = newSessionState)"
proof -
  obtain line where l: "handshake_request True f = line @ eol" "CHR 0x0A \<notin> set line" "strip_cr line = line"
    "\<forall>t s l. token_ok t \<longrightarrow> answer_sync line t s l = answered f t s l"
    using request_line[of f] by blast
  obtain x rest where rl: "read_line (map BByte (line @ CHR 0x0A # [])) [] = (Some x, rest)"
    using assms(1) unfolding l(1) performHandshake_def by (auto split: prod.splits option.splits)
  then have x: "x = line" using read_line_Some[OF l(2) rl] by simp
  have "performHandshake (map BByte (handshake_request True f)) writes info s l =
      (case answer_sync line t s l of (ok, reply, session, l') \<Rightarrow> (ok, reply, session, l'))"
    unfolding performHandshake_def l(1) rl x l(3) assms(3) prod.case option.case
    by (simp add: write_loop_no_error[OF assms(2)] split: prod.split)
  with l(4) assms(1,4) show ?thesis by (auto simp: answered_def off_def Let_def split: if_splits)
qed

lemma handshake_succeeds:
  assumes "length (handshake_request True f) \<le> Suc kMaxControlLine" and "WErr \<notin> set writes" and "token_ok (replicationToken info s)"
  shows "fst (performHandshake (map BByte (handshake_request True f)) writes info s l)"
proof -
  obtain line where l: "handshake_request True f = line @ eol" "CHR 0x0A \<notin> set line" "strip_cr line = line"
    "\<forall>t s l. token_ok t \<longrightarrow> answer_sync line t s l = answered f t s l"
    using request_line[of f] by blast
  have "read_line (map BByte (line @ eol)) [] = (Some line, map BByte [])"
    using read_line_line[OF l(2), of "[]" "[]"] assms(1) l(1) by simp
  then show ?thesis
    unfolding performHandshake_def l(1) using l(3,4) assms(3) write_loop_no_error[OF assms(2)]
    by (simp add: answered_def Let_def)
qed

lemma handshake_resume:
  assumes "token_ok t"
  shows "handshake_reply io (resume_line t n) f = ((True, False), f)"
  using control_words_exact[of "''+RESUME''" t "to_string n"] token_ok_words[OF assms]
  by (simp add: handshake_reply_def resume_line_def)

definition reset_fine :: "string \<Rightarrow> resync_io \<Rightarrow> bool" where
  "reset_fine t io \<longleftrightarrow> rs_truncate io \<and> rs_sync io \<and> (\<exists>k. rs_save io = Some k \<and> length t \<le> k)"

lemma handshake_full:
  assumes "token_ok t" and "reset_fine t io" and "copies hash (fo_store f) vs" and "fresh_link f"
  obtains f1 where "handshake_reply io (full_line t) f = ((True, True), f1)" "copies hash (fo_store f1) []" "fresh_link f1"
    "saved f1 = t"
proof -
  obtain w where w: "so_log (fo_store f) = Some w" "wal_inv w" using assms(3) by (auto simp: copies_def)
  let ?w = "w\<lparr>wal_file := lf_sync (lf_truncate 0 (wal_file w)), wal_offset := 0\<rparr>"
  let ?s = "(fo_store f)\<lparr>so_map := sm_clear (so_map (fo_store f)), so_log := Some ?w\<rparr>"
  obtain k where k: "rs_save io = Some k" "length t \<le> k" using assms(2) by (auto simp: reset_fine_def)
  have rs: "resetForFullResync (rs_truncate io) (rs_sync io) (fo_store f) = (Inr (), ?s)"
    using assms(2) w by (simp add: reset_fine_def resetForFullResync_def truncateAll_def wal_inv_def)
  let ?f = "f\<lparr>fo_fullResyncs := fo_fullResyncs f + 1, fo_store := ?s, fo_applier := abandonOpenTransaction (fo_applier f),
    fo_stateFile := Some (take k (t @ eol))\<rparr>"
  have "control_words (full_line t) = Some (''+FULL'', t, ''0'')"
    using control_words_exact[of "''+FULL''" t "''0''"] token_ok_words[OF assms(1)] by (simp add: full_line_def)
  then have "handshake_reply io (full_line t) f = ((True, True), ?f)"
    using rs k by (simp add: handshake_reply_def full_line_def saveLeaderToken_def stateFilePath_def Let_def)
  moreover have "copies hash ?s []"
    using assms(3) w sm_clear_inv[of hash "so_map (fo_store f)"] sm_clear_abs[of hash "so_map (fo_store f)"]
    by (auto simp: copies_def wal_inv_def wal_bytes_def lf_sync_def lf_truncate_def units_map_def sm_clear_def)
  moreover have "fresh_link ?f" using assms(4) by (simp add: fresh_link_def abandonOpenTransaction_def)
  moreover have "saved ?f = t"
  proof -
    have ns: "\<forall>c \<in> set t. \<not> is_space c" "t \<noteq> []" using assms(1) by (simp_all add: token_ok_def)
    have "take k (t @ eol) = t \<or> take k (t @ eol) = t @ eol" using k(2) by (cases "k = length t") auto
    moreover have "dropWhile is_space t = t" "dropWhile is_space (t @ eol) = t @ eol" using ns by (cases t; simp)+
    moreover have "takeWhile (\<lambda>c. \<not> is_space c) t = t" "takeWhile (\<lambda>c. \<not> is_space c) (t @ eol) = t"
      using ns by (simp_all add: takeWhile_append2 is_space_def)
    ultimately show ?thesis using w(1) ns(2)
      by (auto simp: loadLeaderToken_def stateFilePath_def)
  qed
  ultimately show ?thesis using that[of ?f] by simp
qed

end
