(* ===== verification/Replication.thy ===== *)
theory Replication
  imports ReplicaLink
begin

text \<open>
  A leader and its followers as one system: the operations of both as steps that may follow
  each other in any order, with the bytes on their way between them.  The invariant relates
  every follower's log to the leader's, and every offset a session holds as acknowledged
  to what the follower has logged.
\<close>

subsection \<open>The system\<close>

text \<open>
  Where a follower's link stands: none, the request sent, or the reply acted upon; links are
  numbered in the order they are set up.
\<close>

datatype conn = Down | Asked nat | Up nat

record node =
  nd_follower :: follower
  nd_conn :: conn

text \<open>
  A link: the follower at its end, the bytes on their way down and up, and the file behind the
  session's \<open>logReader\<close> once the leader's log has been replaced by another file.  \<open>wi_pos\<close> is where
  in the log the bytes on their way end.
\<close>

record wire =
  wi_peer :: nat
  wi_file :: "string option"
  wi_down :: string
  wi_up :: string
  wi_pos :: nat

text \<open>
  \<open>cc_token\<close> is what \<open>replicationToken\<close> yields for the leader's log file, \<open>cc_used\<close> are the tokens
  so far, and \<open>cc_ids\<close> the links of the sessions in \<open>ld_sessions\<close>.
\<close>

record cluster =
  cc_store :: store
  cc_token :: string
  cc_used :: "string list"
  cc_leader :: leader
  cc_ids :: "nat list"
  cc_wires :: "nat \<Rightarrow> wire"
  cc_next :: nat
  cc_nodes :: "node list"

definition wire_file :: "cluster \<Rightarrow> wire \<Rightarrow> string" where
  "wire_file c w = (case wi_file w of None \<Rightarrow> log_bytes (cc_store c) | Some b \<Rightarrow> b)"

text \<open>The links of the sessions that \<open>reapFinishedSessions\<close> keeps.\<close>

definition live_ids :: "cluster \<Rightarrow> nat list" where
  "live_ids c = map fst (filter (\<lambda>(n, s). \<not> ls_finished s) (zip (cc_ids c) (ld_sessions (cc_leader c))))"

text \<open>The bytes a turn of \<open>sessionLoop\<close> reads from the socket.\<close>

definition session_reads :: "session_io \<Rightarrow> string \<Rightarrow> store \<Rightarrow> lsession \<Rightarrow> string" where
  "session_reads io file st s =
     (if \<not> ls_stopping s \<and> fst (shipPending (st_ship io) file st s) \<and> st_poll io = Some SysOk \<and> st_read io = SysOk
      then st_bytes io else [])"

text \<open>
  The steps.  The leader's clients read, write and commit; it compacts its log, which then is a
  file with a token never seen before; it looks again at a waiting append; it forgets finished
  sessions, answers a follower's request, and runs turns of its sessions.  A follower acts on
  the reply, receives a chunk, or loses its link.  What is taken for granted: the writes to
  the followers' own logs and state files succeed, a failed append leaves nothing in the
  leader's log, no process restarts, and no compaction falls between the answering of a
  request and the opening of the log for it.
\<close>

inductive cluster_step :: "(string \<Rightarrow> u64) \<Rightarrow> cluster \<Rightarrow> cluster \<Rightarrow> bool" for hash where
  client: "store_step hash (cc_store c) vs s' \<Longrightarrow>
    log_bytes s' = log_bytes (cc_store c) @ log_of (units_payloads vs) \<Longrightarrow> length (log_bytes s') < 2 ^ 64 \<Longrightarrow>
    cluster_step hash c
      (c\<lparr>cc_store := s',
         cc_leader := (if vs = [] then cc_leader c else onAppend_note now (logOffset s') (cc_leader c))\<rparr>)"
| compact: "store_compact io ro so (cc_store c) = (Inr res, s') \<Longrightarrow> cr_ok res \<Longrightarrow> length (log_bytes s') < 2 ^ 64 \<Longrightarrow>
    t = replicationToken (Some info) s' \<Longrightarrow> t \<noteq> [] \<Longrightarrow> t \<notin> set (cc_used c) \<Longrightarrow>
    cluster_step hash c
      (c\<lparr>cc_store := s', cc_token := t, cc_used := t # cc_used c, cc_leader := onLogReplaced (cc_leader c),
         cc_wires := (\<lambda>n. (cc_wires c n)\<lparr>wi_file := Some (wire_file c (cc_wires c n))\<rparr>)\<rparr>)"
| enter: "onAppend_enter (cc_leader c) = (r, l) \<Longrightarrow> cluster_step hash c (c\<lparr>cc_leader := l\<rparr>)"
| wake: "onAppend_wake timedOut off (cc_leader c) = (r, l) \<Longrightarrow> cluster_step hash c (c\<lparr>cc_leader := l\<rparr>)"
| reap: "cluster_step hash c (c\<lparr>cc_leader := reapFinishedSessions (cc_leader c), cc_ids := live_ids c\<rparr>)"
| accept: "j < length (cc_nodes c) \<Longrightarrow> cc_nodes c ! j = \<lparr>nd_follower = f, nd_conn = Down\<rparr> \<Longrightarrow>
    ac_poll io = Some SysOk \<Longrightarrow> ac_accepted io \<Longrightarrow> \<not> ld_stopping (cc_leader c) \<Longrightarrow>
    ac_incoming io = map BByte (handshake_request True f) \<Longrightarrow> WErr \<notin> set (ac_writes io) \<Longrightarrow>
    replicationToken (ac_info io) (cc_store c) = cc_token c \<Longrightarrow>
    performHandshake (ac_incoming io) (ac_writes io) (ac_info io) (cc_store c) (reapFinishedSessions (cc_leader c))
      = (True, sent, session, l1) \<Longrightarrow>
    accept_turn io (cc_store c) (cc_leader c) = (True, sent, l) \<Longrightarrow>
    cluster_step hash c
      (c\<lparr>cc_leader := l,
         cc_ids := live_ids c @ (if length (ld_sessions l) = length (live_ids c) then [] else [cc_next c]),
         cc_wires := (cc_wires c)(cc_next c :=
           \<lparr>wi_peer = j, wi_file = None, wi_down = sent, wi_up = [], wi_pos = unat (ls_sentOffset session)\<rparr>),
         cc_next := cc_next c + 1,
         cc_nodes := (cc_nodes c)[j :=
           \<lparr>nd_follower = f\<lparr>fo_connectAttempts := fo_connectAttempts f + 1\<rparr>, nd_conn = Asked (cc_next c)\<rparr>]\<rparr>)"
| reply: "j < length (cc_nodes c) \<Longrightarrow> cc_nodes c ! j = \<lparr>nd_follower = f, nd_conn = Asked n\<rparr> \<Longrightarrow> w = cc_wires c n \<Longrightarrow>
    read_line (map BByte (wi_down w)) [] = (Some line, map BByte rest) \<Longrightarrow> reset_fine line io \<Longrightarrow>
    handshake_reply io line f = ((ok, full), f1) \<Longrightarrow>
    sendAck as (logOffset (fo_store f1)) = (sent, sentAll) \<Longrightarrow>
    cluster_step hash c
      (c\<lparr>cc_wires := (cc_wires c)(n := w\<lparr>wi_down := rest, wi_up := wi_up w @ (if ok then sent else [])\<rparr>),
         cc_nodes := (cc_nodes c)[j :=
           if \<not> ok then \<lparr>nd_follower = link_down f1, nd_conn = Down\<rparr>
           else if \<not> sentAll then \<lparr>nd_follower = link_down (f1\<lparr>fo_linkUp := True\<rparr>), nd_conn = Down\<rparr>
           else \<lparr>nd_follower = f1\<lparr>fo_linkUp := True\<rparr>, nd_conn = Up n\<rparr>]\<rparr>)"
| receive: "j < length (cc_nodes c) \<Longrightarrow> cc_nodes c ! j = \<lparr>nd_follower = f, nd_conn = Up n\<rparr> \<Longrightarrow> w = cc_wires c n \<Longrightarrow>
    wi_down w = bytes @ rest \<Longrightarrow> flush_fine io \<Longrightarrow> consume_chunk hash io bytes f = (ok, sent, f1) \<Longrightarrow>
    cluster_step hash c
      (c\<lparr>cc_wires := (cc_wires c)(n := w\<lparr>wi_down := rest, wi_up := wi_up w @ sent\<rparr>),
         cc_nodes := (cc_nodes c)[j :=
           if ok then \<lparr>nd_follower = f1, nd_conn = Up n\<rparr> else \<lparr>nd_follower = link_down f1, nd_conn = Down\<rparr>]\<rparr>)"
| lost: "j < length (cc_nodes c) \<Longrightarrow> cc_nodes c ! j = \<lparr>nd_follower = f, nd_conn = cn\<rparr> \<Longrightarrow> cn \<noteq> Down \<Longrightarrow>
    cluster_step hash c (c\<lparr>cc_nodes := (cc_nodes c)[j := \<lparr>nd_follower = link_down f, nd_conn = Down\<rparr>]\<rparr>)"
| turn: "i < length (cc_ids c) \<Longrightarrow> n = cc_ids c ! i \<Longrightarrow> s = ld_sessions (cc_leader c) ! i \<Longrightarrow> \<not> ls_finished s \<Longrightarrow>
    w = cc_wires c n \<Longrightarrow> session_reads io (wire_file c w) (cc_store c) s = bytes \<Longrightarrow> wi_up w = bytes @ rest \<Longrightarrow> length bytes \<le> 256 \<Longrightarrow>
    session_turn clock io (wire_file c w) (cc_store c) i (cc_leader c) = (go, sent, l) \<Longrightarrow>
    cluster_step hash c
      (c\<lparr>cc_leader := l,
         cc_wires := (cc_wires c)(n := w\<lparr>wi_down := wi_down w @ sent, wi_up := rest, wi_pos := wi_pos w + length sent\<rparr>)\<rparr>)"

inductive cluster_run :: "(string \<Rightarrow> u64) \<Rightarrow> cluster \<Rightarrow> cluster \<Rightarrow> bool" for hash where
  run_start: "cluster_run hash c c"
| run_next: "cluster_run hash c c' \<Longrightarrow> cluster_step hash c' c'' \<Longrightarrow> cluster_run hash c c''"

text \<open>A leader and some followers that start with empty logs.\<close>

definition new_cluster :: "store \<Rightarrow> string \<Rightarrow> ReplConfig \<Rightarrow> (store \<times> ReplConfig) list \<Rightarrow> cluster" where
  "new_cluster s t config fs =
     \<lparr>cc_store = s, cc_token = t, cc_used = [t], cc_leader = newLeader config, cc_ids = [],
      cc_wires = (\<lambda>n. \<lparr>wi_peer = 0, wi_file = None, wi_down = [], wi_up = [], wi_pos = 0\<rparr>), cc_next = 0,
      cc_nodes = map (\<lambda>(s, cfg). \<lparr>nd_follower = newFollower s cfg None, nd_conn = Down\<rparr>) fs\<rparr>"


subsection \<open>The invariant\<close>

text \<open>The log a link streams and its units, when the leader's log holds the units \<open>us\<close>.\<close>

definition wire_log :: "log_unit list \<Rightarrow> wire \<Rightarrow> string" where
  "wire_log us w = (case wi_file w of None \<Rightarrow> log_of (units_payloads us) | Some b \<Rightarrow> b)"

definition wire_units :: "log_unit list \<Rightarrow> wire \<Rightarrow> log_unit list \<Rightarrow> bool" where
  "wire_units us w ws \<longleftrightarrow> (\<forall>u \<in> set ws. unit_ok u) \<and>
     (case wi_file w of None \<Rightarrow> ws = us | Some b \<Rightarrow> b = log_of (units_payloads ws))"

lemma wire_units_log: "wire_units us w ws \<Longrightarrow> wire_log us w = log_of (units_payloads ws)"
  by (auto simp: wire_units_def wire_log_def split: option.splits)

abbreviation flen :: "follower \<Rightarrow> nat" where
  "flen f \<equiv> length (log_bytes (fo_store f))"

text \<open>A link whose reply is on its way, and behind it the bytes \<open>stream\<close>.\<close>

definition reply_stream ::
  "(string \<Rightarrow> u64) \<Rightarrow> string \<Rightarrow> wire \<Rightarrow> follower \<Rightarrow> string \<Rightarrow> string \<Rightarrow> log_unit list \<Rightarrow> bool" where
  "reply_stream hash tok w f t stream ws \<longleftrightarrow>
     (\<exists>n m. wi_down w = resume_line t n @ eol @ stream \<and> saved f = t \<and> m \<le> length ws \<and>
        copies hash (fo_store f) (take m ws) \<and>
        log_bytes (fo_store f) @ stream = take (wi_pos w) (log_of (units_payloads ws))) \<or>
     wi_down w = full_line t @ eol @ stream \<and> (saved f = tok \<longrightarrow> log_bytes (fo_store f) = []) \<and>
     stream = take (wi_pos w) (log_of (units_payloads ws))"

lemma reply_stream_append:
  assumes "reply_stream hash tok w f t stream ws" and "wi_pos w \<le> length (log_of (units_payloads ws))"
  shows "reply_stream hash tok w f t stream (ws @ zs)"
proof -
  have tk: "take (wi_pos w) (log_of (units_payloads (ws @ zs))) = take (wi_pos w) (log_of (units_payloads ws))"
    using assms(2) by simp
  have "m \<le> length ws \<Longrightarrow> take m (ws @ zs) = take m ws \<and> m \<le> length (ws @ zs)" for m by simp
  with assms(1) show ?thesis unfolding reply_stream_def tk by metis
qed

definition asked_ok :: "(string \<Rightarrow> u64) \<Rightarrow> log_unit list \<Rightarrow> string \<Rightarrow> string list \<Rightarrow> wire \<Rightarrow> follower \<Rightarrow> bool" where
  "asked_ok hash us tok used w f \<longleftrightarrow>
     (wi_file w \<noteq> None \<longrightarrow> saved f \<noteq> tok) \<and>
     (\<exists>t stream ws. token_ok t \<and> t \<in> set used \<and> (wi_file w = None \<longleftrightarrow> t = tok) \<and> wire_units us w ws \<and>
        reply_stream hash tok w f t stream ws)"

lemma asked_okI:
  "wi_file w \<noteq> None \<longrightarrow> saved f \<noteq> tok \<Longrightarrow> token_ok t \<Longrightarrow> t \<in> set used \<Longrightarrow> (wi_file w = None) = (t = tok) \<Longrightarrow>
   wire_units us w ws \<Longrightarrow> reply_stream hash tok w f t stream ws \<Longrightarrow> asked_ok hash us tok used w f"
  unfolding asked_ok_def by (intro conjI exI)

lemma asked_okE:
  assumes "asked_ok hash us tok used w f"
  obtains t stream ws where "token_ok t" "t \<in> set used" "wi_file w = None \<longleftrightarrow> t = tok" "wire_units us w ws"
    "reply_stream hash tok w f t stream ws" "wi_file w \<noteq> None \<longrightarrow> saved f \<noteq> tok"
  using assms unfolding asked_ok_def by (elim conjE exE) (rule that)

text \<open>A link that streams.\<close>

definition up_ok :: "(string \<Rightarrow> u64) \<Rightarrow> log_unit list \<Rightarrow> string \<Rightarrow> wire \<Rightarrow> follower \<Rightarrow> bool" where
  "up_ok hash us tok w f \<longleftrightarrow>
     (wi_file w = None \<longleftrightarrow> saved f = tok) \<and>
     (\<exists>ws m k. wire_units us w ws \<and> receiving hash ws m k f \<and> received f @ wi_down w = take (wi_pos w) (wire_log us w))"

definition link_ok ::
  "(string \<Rightarrow> u64) \<Rightarrow> log_unit list \<Rightarrow> string \<Rightarrow> string list \<Rightarrow> (nat \<Rightarrow> wire) \<Rightarrow> nat \<Rightarrow> nat \<Rightarrow> conn \<Rightarrow> follower \<Rightarrow> bool" where
  "link_ok hash us tok used W k j cn f \<longleftrightarrow>
     (case cn of
        Down \<Rightarrow> fresh_link f
      | Asked n \<Rightarrow> n < k \<and> wi_peer (W n) = j \<and> wi_pos (W n) \<le> length (wire_log us (W n)) \<and> fresh_link f \<and>
          asked_ok hash us tok used (W n) f
      | Up n \<Rightarrow> n < k \<and> wi_peer (W n) = j \<and> wi_pos (W n) \<le> length (wire_log us (W n)) \<and> up_ok hash us tok (W n) f)"

text \<open>
  A follower: its own log spells out its map, and if it has saved the leader's token, its log is
  some first units of the leader's.
\<close>

definition node_ok ::
  "(string \<Rightarrow> u64) \<Rightarrow> log_unit list \<Rightarrow> string \<Rightarrow> string list \<Rightarrow> (nat \<Rightarrow> wire) \<Rightarrow> nat \<Rightarrow> nat \<Rightarrow> node \<Rightarrow> bool" where
  "node_ok hash us tok used W k j nd \<longleftrightarrow>
     (\<exists>vs. copies hash (fo_store (nd_follower nd)) vs) \<and> (saved (nd_follower nd) = [] \<or> saved (nd_follower nd) \<in> set used) \<and>
     (saved (nd_follower nd) = tok \<longrightarrow> (\<exists>m \<le> length us. copies hash (fo_store (nd_follower nd)) (take m us))) \<and>
     link_ok hash us tok used W k j (nd_conn nd) (nd_follower nd)"

text \<open>
  A session: what it has sent is what its link has taken, and every offset it holds as
  acknowledged, or will read, is an offset the follower's log has reached.  \<open>active\<close> tells that
  the follower still writes to the link.
\<close>

definition acks_ok :: "string \<Rightarrow> wire \<Rightarrow> bool \<Rightarrow> lsession \<Rightarrow> follower \<Rightarrow> bool" where
  "acks_ok tok w active s f \<longleftrightarrow>
     unat (ls_acked s) \<le> flen f \<and>
     (\<exists>ns t. ls_ackBuffer s @ wi_up w = concat (map ackline ns) @ t \<and> CHR 0x0A \<notin> set t \<and> (active \<longrightarrow> t = []) \<and>
        (\<forall>x \<in> set ns. x \<le> flen f)) \<and>
     (saved f = tok \<or> ls_acked s = 0 \<and> ls_ackBuffer s @ wi_up w = [])"

definition session_ok :: "string \<Rightarrow> (nat \<Rightarrow> wire) \<Rightarrow> nat \<Rightarrow> node list \<Rightarrow> nat \<Rightarrow> lsession \<Rightarrow> bool" where
  "session_ok tok W k nodes n s \<longleftrightarrow>
     n < k \<and> wi_peer (W n) < length nodes \<and> (\<not> ls_stopping s \<longrightarrow> wi_file (W n) = None) \<and>
     (\<not> ls_finished s \<longrightarrow> unat (ls_sentOffset s) = wi_pos (W n)) \<and>
     (wi_file (W n) = None \<longrightarrow>
        acks_ok tok (W n) (nd_conn (nodes ! wi_peer (W n)) \<in> {Asked n, Up n}) s (nd_follower (nodes ! wi_peer (W n))))"

definition cluster_inv :: "(string \<Rightarrow> u64) \<Rightarrow> cluster \<Rightarrow> log_unit list \<Rightarrow> bool" where
  "cluster_inv hash c us \<longleftrightarrow>
     (\<exists>mode h. logged hash mode (cc_store c) h) \<and> copies hash (cc_store c) us \<and> length (log_bytes (cc_store c)) < 2 ^ 64 \<and>
     token_ok (cc_token c) \<and> cc_token c \<in> set (cc_used c) \<and>
     length (cc_ids c) = length (ld_sessions (cc_leader c)) \<and> distinct (cc_ids c) \<and>
     (\<forall>j < length (cc_nodes c). node_ok hash us (cc_token c) (cc_used c) (cc_wires c) (cc_next c) j (cc_nodes c ! j)) \<and>
     (\<forall>i < length (cc_ids c). session_ok (cc_token c) (cc_wires c) (cc_next c) (cc_nodes c) (cc_ids c ! i)
        (ld_sessions (cc_leader c) ! i))"

text \<open>Changes that leave nodes and sessions alone.\<close>

lemma node_ok_wire:
  assumes "node_ok hash us tok used W k j nd" and "wi_peer (W n) \<noteq> j \<or> n \<ge> k" and "k \<le> k'"
  shows "node_ok hash us tok used (W(n := w)) k' j nd"
  using assms by (cases "nd_conn nd") (auto simp: node_ok_def link_ok_def)

lemma node_ok_off:
  assumes "node_ok hash us tok used W k j nd" and "nd_conn nd \<notin> {Asked n, Up n}"
  shows "node_ok hash us tok used (W(n := w)) k j nd"
  using assms by (cases "nd_conn nd") (auto simp: node_ok_def link_ok_def)

lemma ackline_nonempty [simp]: "ackline n \<noteq> []"
  by (simp add: ackline_def)

lemma acks_ok_follower:
  assumes "acks_ok tok w active s f" and "active' \<longrightarrow> active" and "saved f = tok \<longrightarrow> saved f' = tok \<and> flen f \<le> flen f'"
  shows "acks_ok tok w active' s f'"
proof (cases "saved f = tok")
  case True
  then have f: "saved f' = tok" "flen f \<le> flen f'" using assms(3) by simp_all
  obtain ns t where a: "unat (ls_acked s) \<le> flen f" "ls_ackBuffer s @ wi_up w = concat (map ackline ns) @ t" "CHR 0x0A \<notin> set t"
    "active \<longrightarrow> t = []" "\<forall>x \<in> set ns. x \<le> flen f" using assms(1) unfolding acks_ok_def by blast
  have "\<forall>x \<in> set ns. x \<le> flen f'" using a(5) f(2) le_trans by blast
  with a f assms(2) show ?thesis unfolding acks_ok_def by (intro conjI exI[of _ ns] exI[of _ t]) simp_all
next
  case False
  with assms(1) have "ls_acked s = 0" "ls_ackBuffer s @ wi_up w = []" by (auto simp: acks_ok_def)
  then show ?thesis unfolding acks_ok_def by (intro conjI exI[of _ "[]"]) auto
qed

lemma session_ok_other:
  assumes "session_ok tok W k nodes n' s" and "n' \<noteq> n" and "nodes ! j = nd" and "nd_conn nd' \<in> {Down, Asked n, Up n}"
    and "saved (nd_follower nd) = tok \<longrightarrow> saved (nd_follower nd') = tok \<and> flen (nd_follower nd) \<le> flen (nd_follower nd')"
    and "k \<le> k'"
  shows "session_ok tok (W(n := w)) k' (nodes[j := nd']) n' s"
proof (cases "wi_peer (W n') = j \<and> j < length nodes")
  case True
  have "acks_ok tok (W n') (nd_conn nd' \<in> {Asked n', Up n'}) s (nd_follower nd')" if "wi_file (W n') = None"
    by (rule acks_ok_follower[where f = "nd_follower nd" and active = "nd_conn nd \<in> {Asked n', Up n'}"])
      (use assms True that in \<open>auto simp: session_ok_def\<close>)
  with assms True show ?thesis by (simp add: session_ok_def)
next
  case False
  then have "nodes[j := nd'] ! wi_peer (W n') = nodes ! wi_peer (W n')"
    by (cases "j < length nodes") (auto simp: list_update_beyond)
  with assms show ?thesis by (simp add: session_ok_def)
qed


subsection \<open>The leader's own steps\<close>

lemma cluster_invD:
  assumes "cluster_inv hash c us"
  shows "copies hash (cc_store c) us" and "length (log_bytes (cc_store c)) < 2 ^ 64" and "token_ok (cc_token c)"
    and "cc_token c \<in> set (cc_used c)" and "length (cc_ids c) = length (ld_sessions (cc_leader c))" and "distinct (cc_ids c)"
    and "\<And>j. j < length (cc_nodes c) \<Longrightarrow>
      node_ok hash us (cc_token c) (cc_used c) (cc_wires c) (cc_next c) j (cc_nodes c ! j)"
    and "\<And>i. i < length (cc_ids c) \<Longrightarrow>
      session_ok (cc_token c) (cc_wires c) (cc_next c) (cc_nodes c) (cc_ids c ! i) (ld_sessions (cc_leader c) ! i)"
  using assms by (simp_all add: cluster_inv_def)

lemma store_step_units: "store_step hash s vs s' \<Longrightarrow> \<forall>u \<in> set vs. unit_ok u"
  by (cases rule: store_step.cases) (auto split: if_splits)

lemma store_step_copies:
  assumes "store_step hash s vs s'" and "copies hash s us" and "logged hash mode s h"
    and "log_bytes s' = log_bytes s @ log_of (units_payloads vs)"
  shows "copies hash s' (us @ vs)" and "\<exists>h'. logged hash mode s' h'"
proof -
  have l: "logged hash mode s' (h @ vs)" by (rule store_step_logged[OF assms(1,3)])
  then show "\<exists>h'. logged hash mode s' h'" by blast
  obtain b ys where m: "mirrors hash mode s' b ys" using l by (auto simp: logged_def)
  obtain w where w: "so_log s' = Some w" "wal_inv w" using mirrorsD[OF m] by blast
  have "units_map us = units_map h" using assms(2) logged_map[OF assms(3)] by (simp add: copies_def)
  then have "sm_abs hash (so_map s') = units_map (us @ vs)" using logged_map[OF l] by (simp add: units_map_append)
  moreover have "wal_bytes w = log_of (units_payloads (us @ vs))"
    using assms(4) w(1) copies_log[OF assms(2)] by (simp add: log_bytes_def)
  ultimately show "copies hash s' (us @ vs)"
    using mirrors_map[OF m] w assms(2) store_step_units[OF assms(1)] by (auto simp: copies_def)
qed

lemma receiving_append:
  assumes "receiving hash us m n f" and "\<forall>u \<in> set vs. unit_ok u"
  shows "receiving hash (us @ vs) m n f"
  using assms by (auto simp: receiving_def)

lemma node_ok_append:
  assumes "node_ok hash us tok used W k j nd" and "\<forall>u \<in> set vs. unit_ok u"
  shows "node_ok hash (us @ vs) tok used W k j nd"
proof -
  have wl: "wi_pos w \<le> length (wire_log us w) \<Longrightarrow> take (wi_pos w) (wire_log (us @ vs) w) = take (wi_pos w) (wire_log us w)"
    "length (wire_log us w) \<le> length (wire_log (us @ vs) w)" for w
    by (auto simp: wire_log_def split: option.split)
  have wu: "\<exists>ws'. wire_units (us @ vs) w ws' \<and> prefix ws ws' \<and> (\<forall>u \<in> set (drop (length ws) ws'). unit_ok u)"
    if "wire_units us w ws" for w ws
    using that assms(2) by (cases "wi_file w") (auto simp: wire_units_def intro: exI[of _ "us @ vs"])
  have up: "up_ok hash (us @ vs) tok w f" if h: "up_ok hash us tok w f" "wi_pos w \<le> length (wire_log us w)" for w f
  proof -
    obtain ws m k where u: "wire_units us w ws" "receiving hash ws m k f" "received f @ wi_down w = take (wi_pos w) (wire_log us w)"
      using h(1) by (auto simp: up_ok_def)
    obtain zs where "wire_units (us @ vs) w (ws @ zs)" "\<forall>u \<in> set zs. unit_ok u" using wu[OF u(1)] by (auto simp: prefix_def)
    with u receiving_append[OF u(2)] wl(1)[OF h(2)] h(1) show ?thesis unfolding up_ok_def by metis
  qed
  have ask: "asked_ok hash (us @ vs) tok used w f" if h: "asked_ok hash us tok used w f" "wi_pos w \<le> length (wire_log us w)" for w f
  proof -
    obtain t stream ws where a: "token_ok t" "t \<in> set used" "wi_file w = None \<longleftrightarrow> t = tok" "wire_units us w ws"
      "reply_stream hash tok w f t stream ws" "wi_file w \<noteq> None \<longrightarrow> saved f \<noteq> tok" by (rule asked_okE[OF h(1)])
    obtain zs where z: "wire_units (us @ vs) w (ws @ zs)" using wu[OF a(4)] by (auto simp: prefix_def)
    have "wi_pos w \<le> length (log_of (units_payloads ws))" using h(2) wire_units_log[OF a(4)] by simp
    then have "reply_stream hash tok w f t stream (ws @ zs)" by (rule reply_stream_append[OF a(5)])
    from asked_okI[OF a(6,1-3) z this] show ?thesis .
  qed
  have "link_ok hash (us @ vs) tok used W k j (nd_conn nd) (nd_follower nd)"
    using assms(1) up ask order_trans[OF _ wl(2)] by (cases "nd_conn nd") (simp_all add: node_ok_def link_ok_def)
  moreover have "\<exists>m \<le> length (us @ vs). copies hash s (take m (us @ vs))" if h: "\<exists>m \<le> length us. copies hash s (take m us)" for s
  proof -
    obtain m where "m \<le> length us" "copies hash s (take m us)" using h by blast
    then show ?thesis by (intro exI[of _ m]) simp
  qed
  ultimately show ?thesis using assms(1) by (simp add: node_ok_def)
qed

lemma cluster_inv_sessions:
  assumes "cluster_inv hash c us" and "ld_sessions l = ld_sessions (cc_leader c)"
  shows "cluster_inv hash (c\<lparr>cc_leader := l\<rparr>) us"
  using assms by (simp add: cluster_inv_def)

lemma client_inv:
  assumes "cluster_inv hash c us" and "store_step hash (cc_store c) vs s'"
    and "log_bytes s' = log_bytes (cc_store c) @ log_of (units_payloads vs)" and "length (log_bytes s') < 2 ^ 64"
  shows "cluster_inv hash (c\<lparr>cc_store := s'\<rparr>) (us @ vs)"
proof -
  obtain mode h where l: "logged hash mode (cc_store c) h" using assms(1) by (auto simp: cluster_inv_def)
  note cp = store_step_copies[OF assms(2) cluster_invD(1)[OF assms(1)] l assms(3)]
  have "node_ok hash (us @ vs) (cc_token c) (cc_used c) (cc_wires c) (cc_next c) j (cc_nodes c ! j)" if "j < length (cc_nodes c)" for j
    by (rule node_ok_append[OF cluster_invD(7)[OF assms(1) that] store_step_units[OF assms(2)]])
  with cp assms(1,4) show ?thesis unfolding cluster_inv_def by auto
qed

definition frozen :: "log_unit list \<Rightarrow> wire \<Rightarrow> wire" where
  "frozen us w = w\<lparr>wi_file := Some (wire_log us w)\<rparr>"

lemma frozen_simps [simp]:
  "wi_peer (frozen us w) = wi_peer w" "wi_down (frozen us w) = wi_down w" "wi_up (frozen us w) = wi_up w"
  "wi_pos (frozen us w) = wi_pos w" "wi_file (frozen us w) = Some (wire_log us w)" "wire_log us' (frozen us w) = wire_log us w"
  by (simp_all add: frozen_def wire_log_def)

lemma frozen_units: "wire_units us w ws \<Longrightarrow> wire_units us' (frozen us w) ws"
  using wire_units_log[of us w ws] by (simp add: wire_units_def)

lemma node_ok_frozen:
  assumes "node_ok hash us tok used W k j nd" and "tok' \<notin> set used" and "tok' \<noteq> []"
  shows "node_ok hash us' tok' (tok' # used) (\<lambda>n. frozen us (W n)) k j nd"
proof -
  let ?f = "nd_follower nd"
  have sv: "saved ?f \<noteq> tok'" using assms by (auto simp: node_ok_def)
  have ask: "asked_ok hash us' tok' (tok' # used) (frozen us w) ?f" if h: "asked_ok hash us tok used w ?f" for w
  proof -
    obtain t stream ws where a: "token_ok t" "t \<in> set used" "wi_file w = None \<longleftrightarrow> t = tok" "wire_units us w ws"
      "reply_stream hash tok w ?f t stream ws" "wi_file w \<noteq> None \<longrightarrow> saved ?f \<noteq> tok" by (rule asked_okE[OF h])
    have "reply_stream hash tok' (frozen us w) ?f t stream ws" using a(5) sv by (auto simp: reply_stream_def)
    moreover have "t \<noteq> tok'" using a(2) assms(2) by auto
    ultimately show ?thesis using a sv frozen_units[OF a(4)] by (intro asked_okI[where t = t]) auto
  qed
  have up: "up_ok hash us' tok' (frozen us w) ?f" if h: "up_ok hash us tok w ?f" for w
    using h sv frozen_units[of us w _ us'] unfolding up_ok_def by auto
  have "link_ok hash us' tok' (tok' # used) (\<lambda>n. frozen us (W n)) k j (nd_conn nd) ?f"
    using assms(1) ask up by (cases "nd_conn nd") (simp_all add: node_ok_def link_ok_def)
  with assms(1) sv show ?thesis by (auto simp: node_ok_def)
qed

lemma compact_inv:
  assumes "cluster_inv hash c us" and "store_compact io ro so (cc_store c) = (Inr res, s')" and "length (log_bytes s') < 2 ^ 64"
    and "token_ok t" and "t \<notin> set (cc_used c)"
  shows "\<exists>us'. cluster_inv hash
    (c\<lparr>cc_store := s', cc_token := t, cc_used := t # cc_used c, cc_leader := onLogReplaced (cc_leader c),
       cc_wires := (\<lambda>n. frozen us (cc_wires c n))\<rparr>) us'"
proof -
  obtain mode h where l: "logged hash mode (cc_store c) h" using assms(1) by (auto simp: cluster_inv_def)
  have l': "logged hash mode s' h" by (rule logged_compact[OF l assms(2)])
  then obtain b vs where "mirrors hash mode s' b vs" by (auto simp: logged_def)
  note cp = mirrors_copies[OF this]
  have "node_ok hash (b @ vs) t (t # cc_used c) (\<lambda>n. frozen us (cc_wires c n)) (cc_next c) j (cc_nodes c ! j)"
    if "j < length (cc_nodes c)" for j
    by (rule node_ok_frozen[OF cluster_invD(7)[OF assms(1) that] assms(5)]) (use assms(4) in \<open>simp add: token_ok_def\<close>)
  moreover have "session_ok t (\<lambda>n. frozen us (cc_wires c n)) (cc_next c) (cc_nodes c) (cc_ids c ! i) (s\<lparr>ls_stopping := True\<rparr>)"
    if "session_ok (cc_token c) (cc_wires c) (cc_next c) (cc_nodes c) (cc_ids c ! i) s" for i s
    using that by (simp add: session_ok_def)
  ultimately have "cluster_inv hash
    (c\<lparr>cc_store := s', cc_token := t, cc_used := t # cc_used c, cc_leader := onLogReplaced (cc_leader c),
       cc_wires := (\<lambda>n. frozen us (cc_wires c n))\<rparr>) (b @ vs)"
    using cp l' assms(1,3,4) unfolding cluster_inv_def by (auto simp: onLogReplaced_def)
  then show ?thesis ..
qed

text \<open>Forgetting sessions.\<close>

lemma live_sessions:
  assumes "length ids = length ss"
  shows "map snd (filter (\<lambda>(n, s). \<not> ls_finished s) (zip ids ss)) = filter (\<lambda>s. \<not> ls_finished s) ss"
  using assms by (induction ids ss rule: list_induct2) auto

lemma reap_ids:
  assumes "length (cc_ids c) = length (ld_sessions (cc_leader c))"
  shows "length (live_ids c) = length (ld_sessions (reapFinishedSessions (cc_leader c)))"
    and "i < length (live_ids c) \<Longrightarrow> \<exists>k < length (cc_ids c). live_ids c ! i = cc_ids c ! k \<and>
      ld_sessions (reapFinishedSessions (cc_leader c)) ! i = ld_sessions (cc_leader c) ! k"
    and "distinct (cc_ids c) \<Longrightarrow> distinct (live_ids c)"
proof -
  let ?z = "zip (cc_ids c) (ld_sessions (cc_leader c))" and ?p = "\<lambda>(n, s). \<not> ls_finished s"
  have ss: "ld_sessions (reapFinishedSessions (cc_leader c)) = map snd (filter ?p ?z)"
    using live_sessions[OF assms] by (simp add: reapFinishedSessions_def)
  show "length (live_ids c) = length (ld_sessions (reapFinishedSessions (cc_leader c)))" by (simp add: ss live_ids_def)
  show "\<exists>k < length (cc_ids c). live_ids c ! i = cc_ids c ! k \<and>
      ld_sessions (reapFinishedSessions (cc_leader c)) ! i = ld_sessions (cc_leader c) ! k" if i: "i < length (live_ids c)"
  proof -
    have "filter ?p ?z ! i \<in> set ?z" using i nth_mem[of i "filter ?p ?z"] by (auto simp: live_ids_def)
    then obtain k where "k < length ?z" "filter ?p ?z ! i = ?z ! k" by (metis in_set_conv_nth)
    then show ?thesis using i assms by (intro exI[of _ k]) (auto simp: ss live_ids_def nth_zip)
  qed
  show "distinct (live_ids c)" if "distinct (cc_ids c)"
  proof -
    have "distinct (map fst ?z)" using that assms by simp
    then show ?thesis unfolding live_ids_def by (rule distinct_map_filter)
  qed
qed

lemma reap_inv:
  assumes "cluster_inv hash c us"
  shows "cluster_inv hash (c\<lparr>cc_leader := reapFinishedSessions (cc_leader c), cc_ids := live_ids c\<rparr>) us"
proof -
  note r = reap_ids[OF cluster_invD(5)[OF assms]]
  have "session_ok (cc_token c) (cc_wires c) (cc_next c) (cc_nodes c) (live_ids c ! i)
      (ld_sessions (reapFinishedSessions (cc_leader c)) ! i)" if "i < length (live_ids c)" for i
    using r(2)[OF that] cluster_invD(8)[OF assms] by metis
  with assms r(1,3) show ?thesis by (simp add: cluster_inv_def)
qed


subsection \<open>A follower's steps\<close>

text \<open>A follower changes, and the link it is on.\<close>

lemma node_inv:
  assumes "cluster_inv hash c us" and "j < length (cc_nodes c)" and "cc_nodes c ! j = nd" and "wi_peer (cc_wires c n) = j"
    and "wi_peer w = j" and "wi_file w = wi_file (cc_wires c n)" and "wi_pos w = wi_pos (cc_wires c n)"
    and "node_ok hash us (cc_token c) (cc_used c) ((cc_wires c)(n := w)) (cc_next c) j nd'"
    and "nd_conn nd' \<in> {Down, Asked n, Up n}"
    and "saved (nd_follower nd) = cc_token c \<longrightarrow>
      saved (nd_follower nd') = cc_token c \<and> flen (nd_follower nd) \<le> flen (nd_follower nd')"
    and "\<And>s. wi_file w = None \<Longrightarrow> acks_ok (cc_token c) (cc_wires c n) (nd_conn nd \<in> {Asked n, Up n}) s (nd_follower nd) \<Longrightarrow>
      acks_ok (cc_token c) w (nd_conn nd' \<in> {Asked n, Up n}) s (nd_follower nd')"
  shows "cluster_inv hash (c\<lparr>cc_wires := (cc_wires c)(n := w), cc_nodes := (cc_nodes c)[j := nd']\<rparr>) us"
proof -
  let ?W = "(cc_wires c)(n := w)" and ?N = "(cc_nodes c)[j := nd']"
  have nodes: "node_ok hash us (cc_token c) (cc_used c) ?W (cc_next c) i (?N ! i)" if "i < length (cc_nodes c)" for i
  proof (cases "i = j")
    case False
    then show ?thesis using node_ok_wire[OF cluster_invD(7)[OF assms(1) that], of n] assms(4) by simp
  qed (use assms(2,8) in simp)
  have sess: "session_ok (cc_token c) ?W (cc_next c) ?N (cc_ids c ! i) (ld_sessions (cc_leader c) ! i)" if "i < length (cc_ids c)" for i
  proof (cases "cc_ids c ! i = n")
    case True
    then show ?thesis using cluster_invD(8)[OF assms(1) that] assms(2-7,11) by (auto simp: session_ok_def)
  next
    case False
    from session_ok_other[OF cluster_invD(8)[OF assms(1) that] False assms(3,9,10) order_refl] show ?thesis .
  qed
  show ?thesis using assms(1) nodes sess by (simp add: cluster_inv_def)
qed

lemma saved_same:
  assumes "fo_stateFile f' = fo_stateFile f" and "copies hash (fo_store f) us" and "copies hash (fo_store f') us'"
  shows "saved f' = saved f"
  using assms by (auto simp: loadLeaderToken_def stateFilePath_def copies_def)

lemma link_down_same [simp]:
  "fo_store (link_down f) = fo_store f" "fo_stateFile (link_down f) = fo_stateFile f" "saved (link_down f) = saved f"
  "fresh_link (link_down f)"
  by (simp_all add: link_down_def loadLeaderToken_def stateFilePath_def fresh_link_def abandonOpenTransaction_def)

lemma lost_inv:
  assumes "cluster_inv hash c us" and "j < length (cc_nodes c)" and "cc_nodes c ! j = \<lparr>nd_follower = f, nd_conn = cn\<rparr>" and "cn \<noteq> Down"
  shows "cluster_inv hash (c\<lparr>cc_nodes := (cc_nodes c)[j := \<lparr>nd_follower = link_down f, nd_conn = Down\<rparr>]\<rparr>) us"
proof -
  note nd = cluster_invD(7)[OF assms(1,2), unfolded assms(3)]
  obtain n where n: "cn = Asked n \<or> cn = Up n" using assms(4) by (cases cn) auto
  let ?nd = "\<lparr>nd_follower = link_down f, nd_conn = Down\<rparr>"
  have peer: "wi_peer (cc_wires c n) = j" using nd n by (auto simp: node_ok_def link_ok_def)
  have "node_ok hash us (cc_token c) (cc_used c) (cc_wires c) (cc_next c) j ?nd"
    using nd by (simp add: node_ok_def link_ok_def)
  then have "cluster_inv hash (c\<lparr>cc_wires := (cc_wires c)(n := cc_wires c n), cc_nodes := (cc_nodes c)[j := ?nd]\<rparr>) us"
    by (intro node_inv[OF assms(1-3) peer peer]) (auto elim: acks_ok_follower)
  then show ?thesis by simp
qed

lemma ack_piece:
  assumes "prefix sent (ackline x)"
  obtains ns t where "sent = concat (map ackline ns) @ t" "CHR 0x0A \<notin> set t" "set ns \<subseteq> {x}"
proof -
  obtain q where "sent @ q = concat (map ackline [x]) @ []" using assms by (auto simp: prefix_def)
  then obtain k t where "sent = concat (map ackline (take k [x])) @ t" "CHR 0x0A \<notin> set t"
    by (rule acks_prefix) auto
  with that[of "take k [x]" t] show ?thesis by (metis list.set(1,2) set_take_subset)
qed

lemma acks_ok_sent:
  assumes "acks_ok tok w True s f" and "prefix sent (ackline x)" and "x \<le> flen f'" and "saved f' = tok"
    and "saved f = tok \<longrightarrow> flen f \<le> flen f'" and "active \<longrightarrow> sent = [] \<or> sent = ackline x"
  shows "acks_ok tok (w\<lparr>wi_down := d, wi_up := wi_up w @ sent\<rparr>) active s f'"
proof -
  have a: "acks_ok tok w True s f'" by (rule acks_ok_follower[OF assms(1)]) (use assms in simp_all)
  obtain ns where ns: "ls_ackBuffer s @ wi_up w = concat (map ackline ns)" "\<forall>x \<in> set ns. x \<le> flen f'"
    using a by (auto simp: acks_ok_def)
  obtain ms t where ms: "sent = concat (map ackline ms) @ t" "CHR 0x0A \<notin> set t" "set ms \<subseteq> {x}" "active \<longrightarrow> t = []"
  proof (cases "sent = [] \<or> sent = ackline x")
    case True
    then show ?thesis using that[of "[]" "[]"] that[of "[x]" "[]"] by auto
  next
    case False
    then show ?thesis using ack_piece[OF assms(2)] that assms(6) by metis
  qed
  have "ls_ackBuffer s @ wi_up w @ sent = concat (map ackline (ns @ ms)) @ t" using ns(1) ms(1) by (metis append.assoc concat_append map_append)
  moreover have "\<forall>x \<in> set (ns @ ms). x \<le> flen f'" using ns(2) ms(3) assms(3) by auto
  ultimately show ?thesis
    using a ms(2,4) assms(4) unfolding acks_ok_def by (intro conjI exI[of _ "ns @ ms"] exI[of _ t]) simp_all
qed

lemma consume_chunk_sent:
  assumes "consume_chunk hash io d f = (b, sent, f')"
  shows "prefix sent (ackline (unat (logOffset (fo_store f'))))"
  using assms write_loop_prefix[of "fl_ack io" "ackline (unat (logOffset (fo_store f')))"]
  by (auto simp: consume_chunk_def Let_def sendAck_def ackline_def split: prod.splits bool.splits if_splits)

lemma copies_take_mono:
  assumes "copies hash s (take m ws)" and "copies hash s' (take m' ws)" and "m \<le> m'"
  shows "length (log_bytes s) \<le> length (log_bytes s')"
proof -
  have "take m' ws = take m ws @ drop m (take m' ws)" using assms(3) by (metis append_take_drop_id min_absorb1 take_take)
  then have "log_bytes s' = log_bytes s @ log_of (units_payloads (drop m (take m' ws)))"
    using copies_log[OF assms(1)] copies_log[OF assms(2)] by (metis log_of_simps(3) units_simps(3))
  then show ?thesis by simp
qed

text \<open>On a link to the current log a follower's offset is the length of its log.\<close>

lemma offset_flen:
  assumes "copies hash (fo_store f) (take m us)" and "length (log_of (units_payloads us)) < 2 ^ 64"
  shows "unat (logOffset (fo_store f)) = flen f"
proof -
  have "log_of (units_payloads us) = log_bytes (fo_store f) @ log_of (units_payloads (drop m us))"
    using copies_log[OF assms(1)] by (metis append_take_drop_id log_of_simps(3) units_simps(3))
  then have "flen f < 2 ^ 64" using assms(2) by simp
  then show ?thesis using copies_offset[OF assms(1)] by (simp add: unat_of_nat)
qed

lemma receive_inv:
  assumes "cluster_inv hash c us" and "j < length (cc_nodes c)" and "cc_nodes c ! j = \<lparr>nd_follower = f, nd_conn = Up n\<rparr>"
    and "w = cc_wires c n" and "wi_down w = bytes @ rest" and "flush_fine io" and "consume_chunk hash io bytes f = (ok, sent, f1)"
  shows "cluster_inv hash
      (c\<lparr>cc_wires := (cc_wires c)(n := w\<lparr>wi_down := rest, wi_up := wi_up w @ sent\<rparr>),
         cc_nodes := (cc_nodes c)[j :=
           if ok then \<lparr>nd_follower = f1, nd_conn = Up n\<rparr> else \<lparr>nd_follower = link_down f1, nd_conn = Down\<rparr>]\<rparr>) us"
proof -
  let ?w = "w\<lparr>wi_down := rest, wi_up := wi_up w @ sent\<rparr>" and ?tok = "cc_token c"
  let ?nd = "if ok then \<lparr>nd_follower = f1, nd_conn = Up n\<rparr> else \<lparr>nd_follower = link_down f1, nd_conn = Down\<rparr>"
  note nd = cluster_invD(7)[OF assms(1,2), unfolded assms(3)]
  then have n: "n < cc_next c" "wi_peer w = j" "wi_pos w \<le> length (wire_log us w)" and up: "up_ok hash us ?tok w f"
    using assms(4) by (simp_all add: node_ok_def link_ok_def)
  obtain ws m k where ws: "wire_units us w ws" "receiving hash ws m k f" "received f @ wi_down w = take (wi_pos w) (wire_log us w)"
    and cur: "wi_file w = None \<longleftrightarrow> saved f = ?tok" using up by (auto simp: up_ok_def)
  have pre: "prefix (received f @ bytes) (log_of (units_payloads ws))"
    using ws(3) assms(5) wire_units_log[OF ws(1)] by (metis append.assoc prefixI prefix_order.trans take_is_prefix)
  note r = consume_chunk_receiving[OF ws(2) pre assms(6,7)]
  obtain m' where m': "m \<le> m'" "m' \<le> length ws" "copies hash (fo_store f1) (take m' ws)" using r(3) by blast
  have cp: "copies hash (fo_store f) (take m ws)" using ws(2) by (simp add: receiving_def)
  have sv: "saved f1 = saved f" by (rule saved_same[OF r(1) cp m'(3)])
  have grow: "flen f \<le> flen f1" by (rule copies_take_mono[OF cp m'(3,1)])
  have us: "ws = us" if "wi_file w = None" using ws(1) that by (simp add: wire_units_def)
  have up': "up_ok hash us ?tok ?w f1" if h: ok
  proof -
    obtain m1 n1 where "receiving hash ws m1 n1 f1" using r(4)[OF h] by blast
    moreover have "received f1 @ rest = take (wi_pos w) (wire_log us w)" using r(5)[OF h] ws(3) assms(5) by simp
    moreover have "wire_units us ?w ws" "wire_log us ?w = wire_log us w" using ws(1) by (simp_all add: wire_units_def wire_log_def)
    ultimately show ?thesis using cur sv unfolding up_ok_def by auto
  qed
  have node: "node_ok hash us ?tok (cc_used c) ((cc_wires c)(n := ?w)) (cc_next c) j ?nd"
    using nd n up' m' sv cur us by (auto simp: node_ok_def link_ok_def wire_log_def intro: exI[of _ m'])
  have acks: "acks_ok ?tok ?w (nd_conn ?nd \<in> {Asked n, Up n}) s (nd_follower ?nd)"
    if h: "wi_file ?w = None" "acks_ok ?tok w True s f" for s
  proof -
    have "unat (logOffset (fo_store f1)) = flen f1"
      using offset_flen[of hash f1 m' us] m'(3) us h(1) cluster_invD(2)[OF assms(1)] copies_log[OF cluster_invD(1)[OF assms(1)]] by simp
    then have "acks_ok ?tok ?w ok s f1"
      using acks_ok_sent[OF h(2) consume_chunk_sent[OF assms(7)]] sv cur h(1) grow r(6) by simp
    then show ?thesis by (cases ok) (auto elim: acks_ok_follower)
  qed
  show ?thesis
    by (rule node_inv[OF assms(1-3), where w = ?w and nd' = ?nd])
      (use n assms(4) node acks sv grow in \<open>auto split: if_splits\<close>)
qed

lemma reply_outcome:
  assumes "asked_ok hash us tok used w f" and "fresh_link f" and "copies hash (fo_store f) vs"
    and "read_line (map BByte (wi_down w)) [] = (Some line, map BByte rest)" and "reset_fine line io"
    and "handshake_reply io line f = ((ok, full), f1)"
  obtains ws m where "ok" "wire_units us w ws" "m \<le> length ws" "copies hash (fo_store f1) (take m ws)" "fresh_link f1"
    "log_bytes (fo_store f1) @ rest = take (wi_pos w) (wire_log us w)" "wi_file w = None \<longleftrightarrow> saved f1 = tok" "saved f1 \<in> set used"
    "saved f = tok \<longrightarrow> saved f1 = tok \<and> flen f \<le> flen f1"
proof -
  obtain t stream ws where a: "token_ok t" "t \<in> set used" "wi_file w = None \<longleftrightarrow> t = tok" "wire_units us w ws"
    "reply_stream hash tok w f t stream ws" "wi_file w \<noteq> None \<longrightarrow> saved f \<noteq> tok" by (rule asked_okE[OF assms(1)])
  note wl = wire_units_log[OF a(4)] and ne = reply_no_eol[OF a(1)]
  from a(5) consider
    (resume) n m where "wi_down w = resume_line t n @ eol @ stream" "saved f = t" "m \<le> length ws"
      "copies hash (fo_store f) (take m ws)" "log_bytes (fo_store f) @ stream = take (wi_pos w) (log_of (units_payloads ws))"
  | (full) "wi_down w = full_line t @ eol @ stream" "saved f = tok \<longrightarrow> log_bytes (fo_store f) = []"
      "stream = take (wi_pos w) (log_of (units_payloads ws))" by (auto simp: reply_stream_def)
  then show ?thesis
  proof cases
    case resume
    have "read_line (map BByte (resume_line t n @ CHR 0x0A # stream)) [] = (Some line, map BByte rest)"
      using assms(4) resume(1) by simp
    from read_line_Some[OF conjunct1[OF ne] this] have "line = resume_line t n" "map BByte rest = map BByte stream" by simp_all
    then have "line = resume_line t n" "rest = stream" by (simp_all add: inj_map_eq_map inj_def)
    moreover from this(1) handshake_resume[OF a(1), of io n f] assms(6) have "ok" "f1 = f" by simp_all
    ultimately show ?thesis using resume assms(2) a(2,3,4) wl by (intro that[of ws m]) simp_all
  next
    case full
    have "read_line (map BByte (full_line t @ CHR 0x0A # stream)) [] = (Some line, map BByte rest)"
      using assms(4) full(1) by simp
    from read_line_Some[OF conjunct2[OF ne] this] have "line = full_line t" "map BByte rest = map BByte stream" by simp_all
    then have l: "line = full_line t" "rest = stream" by (simp_all add: inj_map_eq_map inj_def)
    have "reset_fine t io" using assms(5) l(1) by (auto simp: reset_fine_def full_line_def)
    from handshake_full[OF a(1) this assms(3,2)] obtain f2 where
      f2: "handshake_reply io (full_line t) f = ((True, True), f2)" "copies hash (fo_store f2) []" "fresh_link f2" "saved f2 = t" by blast
    then have "ok" "f1 = f2" using assms(6) l(1) by auto
    with f2 full a wl l(2) copies_log[OF f2(2)] show ?thesis by (intro that[of ws 0]) (simp_all, blast)
  qed
qed

lemma reply_inv:
  assumes "cluster_inv hash c us" and "j < length (cc_nodes c)" and "cc_nodes c ! j = \<lparr>nd_follower = f, nd_conn = Asked n\<rparr>"
    and "w = cc_wires c n" and "read_line (map BByte (wi_down w)) [] = (Some line, map BByte rest)" and "reset_fine line io"
    and "handshake_reply io line f = ((ok, full), f1)" and "sendAck as (logOffset (fo_store f1)) = (sent, sentAll)"
  shows "cluster_inv hash
      (c\<lparr>cc_wires := (cc_wires c)(n := w\<lparr>wi_down := rest, wi_up := wi_up w @ (if ok then sent else [])\<rparr>),
         cc_nodes := (cc_nodes c)[j :=
           if \<not> ok then \<lparr>nd_follower = link_down f1, nd_conn = Down\<rparr>
           else if \<not> sentAll then \<lparr>nd_follower = link_down (f1\<lparr>fo_linkUp := True\<rparr>), nd_conn = Down\<rparr>
           else \<lparr>nd_follower = f1\<lparr>fo_linkUp := True\<rparr>, nd_conn = Up n\<rparr>]\<rparr>) us"
proof -
  let ?w = "w\<lparr>wi_down := rest, wi_up := wi_up w @ sent\<rparr>" and ?tok = "cc_token c" and ?g = "f1\<lparr>fo_linkUp := True\<rparr>"
  let ?nd = "if \<not> sentAll then \<lparr>nd_follower = link_down ?g, nd_conn = Down\<rparr> else \<lparr>nd_follower = ?g, nd_conn = Up n\<rparr>"
  note nd = cluster_invD(7)[OF assms(1,2), unfolded assms(3)]
  then have n: "n < cc_next c" "wi_peer w = j" "wi_pos w \<le> length (wire_log us w)" and ask: "asked_ok hash us ?tok (cc_used c) w f"
    and fr: "fresh_link f" and "\<exists>vs. copies hash (fo_store f) vs"
    using assms(4) by (simp_all add: node_ok_def link_ok_def)
  then obtain ws m where r: "ok" "wire_units us w ws" "m \<le> length ws" "copies hash (fo_store f1) (take m ws)" "fresh_link f1"
    "log_bytes (fo_store f1) @ rest = take (wi_pos w) (wire_log us w)" "wi_file w = None \<longleftrightarrow> saved f1 = ?tok" "saved f1 \<in> set (cc_used c)"
    "saved f = ?tok \<longrightarrow> saved f1 = ?tok \<and> flen f \<le> flen f1"
    using reply_outcome[OF ask fr _ assms(5-7)] by metis
  have g: "fo_store ?g = fo_store f1" "saved ?g = saved f1" "fresh_link ?g"
    using r(5) by (simp_all add: loadLeaderToken_def stateFilePath_def fresh_link_def)
  have us: "ws = us" if "wi_file w = None" using r(2) that by (simp add: wire_units_def)
  have wok: "\<forall>u \<in> set ws. unit_ok u" using r(2) by (simp add: wire_units_def)
  note st = receiving_start[OF g(3), unfolded g(1), OF r(4) wok r(3)]
  have "wire_units us ?w ws" "wire_log us ?w = wire_log us w" using r(2) by (simp_all add: wire_units_def wire_log_def)
  then have up: "up_ok hash us ?tok ?w ?g" using st r(6,7) g unfolding up_ok_def by auto
  have node: "node_ok hash us ?tok (cc_used c) ((cc_wires c)(n := ?w)) (cc_next c) j ?nd"
    using n up r g us by (auto simp: node_ok_def link_ok_def wire_log_def intro: exI[of _ m])
  have acks: "acks_ok ?tok ?w (nd_conn ?nd \<in> {Asked n, Up n}) s (nd_follower ?nd)"
    if h: "wi_file ?w = None" "acks_ok ?tok w True s f" for s
  proof -
    have off: "unat (logOffset (fo_store f1)) = flen f1"
      using offset_flen[of hash f1 m us] r(4) us h(1) cluster_invD(2)[OF assms(1)] copies_log[OF cluster_invD(1)[OF assms(1)]] by simp
    have "prefix sent (ackline (flen f1))" "sentAll \<longrightarrow> sent = ackline (flen f1)"
      using assms(8) off write_loop_prefix[of as "ackline (flen f1)"] write_loop_ok[of as "ackline (flen f1)"]
      by (auto simp: sendAck_def ackline_def)
    then have "acks_ok ?tok ?w sentAll s ?g"
      using acks_ok_sent[OF h(2), of sent "flen f1" ?g sentAll rest] g r(7,9) h(1) by auto
    then show ?thesis by (cases sentAll) (auto elim: acks_ok_follower)
  qed
  have "cluster_inv hash (c\<lparr>cc_wires := (cc_wires c)(n := ?w), cc_nodes := (cc_nodes c)[j := ?nd]\<rparr>) us"
    by (rule node_inv[OF assms(1-3), where w = ?w and nd' = ?nd])
      (use n assms(4) node acks r(9) g in \<open>auto split: if_splits\<close>)
  then show ?thesis using r(1) by simp
qed


subsection \<open>A handshake and a turn of a session\<close>

text \<open>What the leader answers, in terms of the two logs.\<close>

lemma answer_ok:
  assumes "cluster_inv hash c us" and "j < length (cc_nodes c)" and "cc_nodes c ! j = \<lparr>nd_follower = f, nd_conn = Down\<rparr>"
    and "performHandshake (map BByte (handshake_request True f)) writes info (cc_store c) l = (True, sent, session, l1)"
    and "WErr \<notin> set writes" and "replicationToken info (cc_store c) = cc_token c"
    and "w = \<lparr>wi_peer = j, wi_file = None, wi_down = sent, wi_up = [], wi_pos = unat (ls_sentOffset session)\<rparr>"
  shows "ld_sessions l1 = ld_sessions l" and "asked_ok hash us (cc_token c) (cc_used c) w f" and "wi_pos w \<le> length (wire_log us w)"
    and "acks_ok (cc_token c) w True session f" and "\<not> ls_stopping session"
proof -
  note inv = cluster_invD[OF assms(1)] and nd = cluster_invD(7)[OF assms(1,2), unfolded assms(3)]
  let ?tok = "cc_token c" and ?off = "logOffset (fo_store f)"
  note ans = handshake_answer[OF assms(4,5,6) inv(3)]
  then show "ld_sessions l1 = ld_sessions l" by blast
  have log: "log_bytes (cc_store c) = log_of (units_payloads us)" by (rule copies_log[OF inv(1)])
  have units: "wire_units us w us" using inv(1) assms(7) by (simp add: wire_units_def copies_def)
  have wl: "wire_log us w = log_of (units_payloads us)" using assms(7) by (simp add: wire_log_def)
  have at: "asked_ok hash us ?tok (cc_used c) w f" if "reply_stream hash ?tok w f ?tok [] us"
    by (rule asked_okI[where t = ?tok and ws = us]) (use that assms(7) inv units in simp_all)
  have "asked_ok hash us ?tok (cc_used c) w f \<and> wi_pos w \<le> length (wire_log us w) \<and> acks_ok ?tok w True session f \<and>
      \<not> ls_stopping session"
  proof (cases "saved f = ?tok")
    case True
    then obtain m where m: "m \<le> length us" "copies hash (fo_store f) (take m us)" using nd by (auto simp: node_ok_def)
    have off: "unat ?off = flen f" using offset_flen[OF m(2)] inv(2) log by simp
    have split: "log_of (units_payloads us) = log_bytes (fo_store f) @ log_of (units_payloads (drop m us))"
      using copies_log[OF m(2)] by (metis append_take_drop_id log_of_simps(3) units_simps(3))
    have lo: "unat (logOffset (cc_store c)) = length (log_bytes (cc_store c))"
      using copies_offset[OF inv(1)] inv(2) by (simp add: unat_of_nat)
    have le: "?off \<le> logOffset (cc_store c)" using off lo log split by (simp add: word_le_nat_alt)
    show ?thesis
    proof (cases "?off = 0")
      case zero: True
      then have "log_bytes (fo_store f) = []" using off by simp
      moreover have "sent = full_line ?tok @ eol" "session = newSessionState" using ans zero by simp_all
      ultimately show ?thesis using assms(7) True
        by (intro conjI at) (auto simp: reply_stream_def acks_ok_def newSessionState_def intro: exI[of _ "[]"])
    next
      case False
      then have "sent = resume_line ?tok (unat ?off) @ eol" "session = newSessionState\<lparr>ls_sentOffset := ?off, ls_acked := ?off\<rparr>"
        using ans True le by simp_all
      then show ?thesis using assms(7) True m off split wl
        by (intro conjI at) (auto simp: reply_stream_def acks_ok_def newSessionState_def intro: exI[of _ "[]"])
    qed
  next
    case False
    then have "sent = full_line ?tok @ eol" "session = newSessionState" using ans by simp_all
    then show ?thesis using assms(7) False
      by (intro conjI at) (auto simp: reply_stream_def acks_ok_def newSessionState_def intro: exI[of _ "[]"])
  qed
  then show "asked_ok hash us ?tok (cc_used c) w f" and "wi_pos w \<le> length (wire_log us w)"
    and "acks_ok ?tok w True session f" and "\<not> ls_stopping session" by simp_all
qed

lemma accept_inv:
  assumes "cluster_inv hash c us" and "j < length (cc_nodes c)" and "cc_nodes c ! j = \<lparr>nd_follower = f, nd_conn = Down\<rparr>"
    and "performHandshake (map BByte (handshake_request True f)) writes info (cc_store c) (cc_leader c) = (True, sent, session, l1)"
    and "WErr \<notin> set writes" and "replicationToken info (cc_store c) = cc_token c"
    and "ld_sessions l = ld_sessions (cc_leader c) \<and> ids = [] \<or> ld_sessions l = ld_sessions (cc_leader c) @ [session] \<and> ids = [cc_next c]"
  shows "cluster_inv hash
      (c\<lparr>cc_leader := l, cc_ids := cc_ids c @ ids,
         cc_wires := (cc_wires c)(cc_next c :=
           \<lparr>wi_peer = j, wi_file = None, wi_down = sent, wi_up = [], wi_pos = unat (ls_sentOffset session)\<rparr>),
         cc_next := cc_next c + 1,
         cc_nodes := (cc_nodes c)[j :=
           \<lparr>nd_follower = f\<lparr>fo_connectAttempts := fo_connectAttempts f + 1\<rparr>, nd_conn = Asked (cc_next c)\<rparr>]\<rparr>) us"
proof -
  note inv = cluster_invD[OF assms(1)] and nd = cluster_invD(7)[OF assms(1,2), unfolded assms(3)]
  let ?w = "\<lparr>wi_peer = j, wi_file = None, wi_down = sent, wi_up = [], wi_pos = unat (ls_sentOffset session)\<rparr>"
  let ?g = "f\<lparr>fo_connectAttempts := fo_connectAttempts f + 1\<rparr>" and ?k = "cc_next c" and ?tok = "cc_token c"
  let ?W = "(cc_wires c)(?k := ?w)" and ?N = "(cc_nodes c)[j := \<lparr>nd_follower = ?g, nd_conn = Asked ?k\<rparr>]"
  note an = answer_ok[OF assms(1-6) refl]
  have g: "fo_store ?g = fo_store f" "saved ?g = saved f" "fresh_link ?g = fresh_link f"
    by (simp_all add: loadLeaderToken_def stateFilePath_def fresh_link_def)
  have ag: "asked_ok hash us ?tok (cc_used c) ?w ?g" "acks_ok ?tok ?w True session ?g"
    using an(2,4) g by (simp_all add: asked_ok_def reply_stream_def acks_ok_def)
  have nodes: "node_ok hash us ?tok (cc_used c) ?W (?k + 1) i (?N ! i)" if "i < length (cc_nodes c)" for i
  proof (cases "i = j")
    case True
    then show ?thesis using nd g ag an(3) assms(2) by (simp add: node_ok_def link_ok_def)
  next
    case False
    then show ?thesis using node_ok_wire[OF inv(7)[OF that], of ?k "?k + 1"] by simp
  qed
  have old: "session_ok ?tok ?W (?k + 1) ?N (cc_ids c ! i) (ld_sessions (cc_leader c) ! i)" if "i < length (cc_ids c)" for i
    by (rule session_ok_other[OF inv(8)[OF that] _ assms(3)]) (use inv(8)[OF that] g in \<open>auto simp: session_ok_def\<close>)
  have new: "session_ok ?tok ?W (?k + 1) ?N ?k session" using ag(2) an(5) assms(2) by (simp add: session_ok_def)
  have "cc_ids c ! i < ?k" if "i < length (cc_ids c)" for i using inv(8)[OF that] by (simp add: session_ok_def)
  then have fresh: "?k \<notin> set (cc_ids c)" by (metis in_set_conv_nth less_irrefl)
  have "session_ok ?tok ?W (?k + 1) ?N ((cc_ids c @ ids) ! i) (ld_sessions l ! i)" if "i < length (cc_ids c @ ids)" for i
    using that old new inv(5) assms(7) by (cases "i < length (cc_ids c)") (auto simp: nth_append)
  moreover have "length (cc_ids c @ ids) = length (ld_sessions l)" "distinct (cc_ids c @ ids)"
    using assms(7) inv(5,6) fresh by auto
  ultimately show ?thesis using assms(1) nodes unfolding cluster_inv_def by simp
qed

lemma noteAck_same [simp]:
  "ld_sessions (noteAck clock offset l) = ld_sessions l" "ld_stopping (noteAck clock offset l) = ld_stopping l"
proof -
  have "ld_sessions (noteAck clock offset l) = ld_sessions l \<and> ld_stopping (noteAck clock offset l) = ld_stopping l"
  proof (induction clock offset l rule: noteAck.induct)
    case (1 clock offset l)
    show ?case
    proof (cases "ld_pending l")
      case (Cons r rest)
      then show ?thesis using "1.IH"[OF Cons] by (subst (1 2) noteAck.simps) (auto simp: Let_def)
    qed (subst (1 2) noteAck.simps, simp)
  qed
  then show "ld_sessions (noteAck clock offset l) = ld_sessions l" "ld_stopping (noteAck clock offset l) = ld_stopping l" by simp_all
qed

lemma drain_acks_ok:
  assumes "drain_session ans bytes s = (ok, ack, s')" and "length bytes \<le> 256" and "acks_ok tok w a s f"
    and "saved f = tok \<longrightarrow> flen f < 2 ^ 64" and "wi_up w = (if ans = SysOk then bytes else []) @ rest"
  shows "acks_ok tok (w\<lparr>wi_down := d, wi_up := rest, wi_pos := q\<rparr>) a s' f"
proof (cases "ans = SysOk \<and> bytes \<noteq> []")
  case True
  let ?p = "ls_ackBuffer s @ bytes"
  obtain ns t where a: "unat (ls_acked s) \<le> flen f" "?p @ rest = concat (map ackline ns) @ t" "CHR 0x0A \<notin> set t" "a \<longrightarrow> t = []"
    "\<forall>x \<in> set ns. x \<le> flen f" "saved f = tok" using assms(3,5) True by (auto simp: acks_ok_def)
  show ?thesis
  proof (cases "length ?p > kMaxControlLine")
    case long: True
    then have "s' = s\<lparr>ls_ackBuffer := ?p\<rparr>" using assms(1,2) True by (auto simp: drain_session_def Let_def)
    then show ?thesis using a unfolding acks_ok_def by (intro conjI exI[of _ ns] exI[of _ t]) simp_all
  next
    case False
    obtain k t' where p: "?p = concat (map ackline (take k ns)) @ t'" "CHR 0x0A \<notin> set t'"
      "t' @ rest = concat (map ackline (drop k ns)) @ t" by (rule acks_prefix[OF a(2,3)])
    have le: "\<forall>x \<in> set (take k ns). x \<le> flen f" using a(5) by (meson in_set_takeD)
    obtain h b where al: "ack_loop ?p 0 False = (t', h, b)" "unat h \<le> flen f"
      using ack_loop_lines[OF le _ _ p(2), of 0 False] assms(4) a(6) unfolding p(1) by auto
    have "ls_ackBuffer s' = t'" "unat (ls_acked s') \<le> flen f"
      using assms(1,2) True False al a(1) by (auto simp: drain_session_def Let_def split: if_splits)
    moreover have "\<forall>x \<in> set (drop k ns). x \<le> flen f" using a(5) by (meson in_set_dropD)
    ultimately show ?thesis using a(3,4,6) p(3) unfolding acks_ok_def
      by (intro conjI exI[of _ "drop k ns"] exI[of _ t]) simp_all
  qed
next
  case False
  then have "s' = s" "wi_up w = rest" using assms(1,5) by (auto simp: drain_session_def split: sys_ans.splits)
  then show ?thesis using assms(3) by (simp add: acks_ok_def)
qed

lemma drain_same:
  "drain_session ans bytes s = (ok, ack, s') \<Longrightarrow>
   ls_stopping s' = ls_stopping s \<and> ls_finished s' = ls_finished s \<and> ls_sentOffset s' = ls_sentOffset s"
  by (auto simp: drain_session_def Let_def split: sys_ans.splits if_splits prod.splits)

lemma drainAcks_sessions:
  assumes "drainAcks clock ans bytes i l = (ok, l')" and "drain_session ans bytes (ld_sessions l ! i) = (ok', ack, s')"
  shows "ok = ok'" and "ld_sessions l' = (ld_sessions l)[i := s']"
  using assms by (auto simp: drainAcks_def Let_def split: option.splits)

lemma acks_ok_same:
  "acks_ok tok w a s f \<Longrightarrow> ls_acked s' = ls_acked s \<Longrightarrow> ls_ackBuffer s' = ls_ackBuffer s \<Longrightarrow> wi_up w' = wi_up w \<Longrightarrow>
   acks_ok tok w' a s' f"
  by (simp add: acks_ok_def)

text \<open>A turn: the session ships, and takes in what it reads.\<close>

lemma session_turn_effect:
  assumes "session_turn clock io file st i l = (go, sent, l')" and "i < length (ld_sessions l)" and "s = ld_sessions l ! i"
    and "session_reads io file st s = bytes" and "length bytes \<le> 256"
  obtains s' where "ld_sessions l' = (ld_sessions l)[i := s']" "\<not> ls_stopping s' \<longrightarrow> \<not> ls_stopping s"
    "ls_stopping s \<longrightarrow> sent = [] \<and> bytes = []" "sent = take (length sent) (drop (unat (ls_sentOffset s)) file)"
    "\<not> ls_finished s' \<longrightarrow> unat (ls_sentOffset s') = unat (ls_sentOffset s) + length sent"
    "\<And>tok w a f rest d q. acks_ok tok w a s f \<Longrightarrow> saved f = tok \<longrightarrow> flen f < 2 ^ 64 \<Longrightarrow> wi_up w = bytes @ rest \<Longrightarrow>
      acks_ok tok (w\<lparr>wi_down := d, wi_up := rest, wi_pos := q\<rparr>) a s' f"
proof (cases "ls_stopping s")
  case True
  then have "bytes = []" "sent = []" "ld_sessions l' = (ld_sessions l)[i := s\<lparr>ls_finished := True\<rparr>]"
    using assms by (auto simp: session_reads_def session_turn_def finish_session_def)
  then show ?thesis using True by (intro that[of "s\<lparr>ls_finished := True\<rparr>"]) (auto elim: acks_ok_same)
next
  case False
  obtain r out s1 where sh: "shipPending (st_ship io) file st s = (r, out, s1)" using prod_cases3 by blast
  note e = ship_loop_sends[OF sh[unfolded shipPending_def]]
  let ?l = "l\<lparr>ld_sessions := (ld_sessions l)[i := s1]\<rparr>"
  have s1: "ld_sessions ?l ! i = s1" using assms(2) by simp
  have fin: "ld_sessions (finish_session i m) = (ld_sessions m)[i := (ld_sessions m ! i)\<lparr>ls_finished := True\<rparr>]" for m
    by (simp add: finish_session_def)
  show ?thesis
  proof (cases "r \<and> st_poll io = Some SysOk")
    case True2: True
    obtain ok ack s2 where d: "drain_session (st_read io) (st_bytes io) s1 = (ok, ack, s2)" using prod_cases3 by blast
    obtain ok' l2 where dl: "drainAcks clock (st_read io) (st_bytes io) i ?l = (ok', l2)" by fastforce
    note ds = drainAcks_sessions[OF dl, unfolded s1, OF d] and sm = drain_same[OF d]
    have b: "bytes = (if st_read io = SysOk then st_bytes io else [])" using assms(4) False sh True2 by (simp add: session_reads_def)
    let ?s = "if ok then s2 else s2\<lparr>ls_finished := True\<rparr>"
    have "sent = out" "ld_sessions l' = (ld_sessions l)[i := ?s]"
      using assms(1,3) False sh True2 dl ds fin assms(2) unfolding session_turn_def by (auto split: bool.splits)
    moreover have "acks_ok tok (w\<lparr>wi_down := d, wi_up := rest, wi_pos := q\<rparr>) a ?s f"
      if "acks_ok tok w a s f" "saved f = tok \<longrightarrow> flen f < 2 ^ 64" "wi_up w = bytes @ rest" for tok w a f rest d q
    proof -
      have a1: "acks_ok tok w a s1 f" using that(1) e by (auto simp: same_acks_def elim: acks_ok_same)
      have "acks_ok tok (w\<lparr>wi_down := d, wi_up := rest, wi_pos := q\<rparr>) a s2 f"
      proof (cases "st_read io = SysOk")
        case True
        with drain_acks_ok[OF d _ a1 that(2)] b assms(5) that(3) show ?thesis by simp
      next
        case False
        with d have "s2 = s1" by (auto simp: drain_session_def split: sys_ans.splits)
        with a1 b that(3) False show ?thesis by (auto elim: acks_ok_same)
      qed
      then show ?thesis by (cases ok) (auto elim: acks_ok_same)
    qed
    ultimately show ?thesis using e sm True2 False by (intro that[of ?s]) auto
  next
    case False2: False
    then have b: "bytes = []" using assms(4) False sh by (auto simp: session_reads_def)
    obtain g where g: "sent = out" "ld_sessions l' = (ld_sessions l)[i := s1\<lparr>ls_finished := g\<rparr>]" "\<not> r \<longrightarrow> g"
    proof (cases "\<not> r \<or> st_poll io = Some SysErr")
      case True
      then have "sent = out" "ld_sessions l' = (ld_sessions l)[i := s1\<lparr>ls_finished := True\<rparr>]"
        using assms(1,2,3) False False2 sh fin unfolding session_turn_def by (auto simp: Let_def split: if_splits)
      with that[of True] show ?thesis by simp
    next
      case False3: False
      then have "st_poll io = Some SysEintr \<or> st_poll io = None" using False2 by (cases "st_poll io") (auto, metis sys_ans.exhaust)
      then have "sent = out" "ld_sessions l' = (ld_sessions l)[i := s1]"
        using assms(1,2,3) False False2 False3 sh unfolding session_turn_def by (auto simp: Let_def)
      with that[of "ls_finished s1"] False3 show ?thesis by simp
    qed
    have "acks_ok tok (w\<lparr>wi_down := d, wi_up := rest, wi_pos := q\<rparr>) a (s1\<lparr>ls_finished := g\<rparr>) f"
      if "acks_ok tok w a s f" "saved f = tok \<longrightarrow> flen f < 2 ^ 64" "wi_up w = bytes @ rest" for tok w a f rest d q
      by (rule acks_ok_same[OF that(1)]) (use e b that(3) in \<open>simp_all add: same_acks_def\<close>)
    with g e False b show ?thesis by (intro that[of "s1\<lparr>ls_finished := g\<rparr>"]) auto
  qed
qed

text \<open>More of the log on its way.\<close>

lemma node_ok_shipped:
  assumes "node_ok hash us tok used W k j nd" and "sent = take (length sent) (drop (wi_pos (W n)) (wire_log us (W n)))"
    and "w = (W n)\<lparr>wi_down := wi_down (W n) @ sent, wi_up := up, wi_pos := wi_pos (W n) + length sent\<rparr>"
  shows "node_ok hash us tok used (W(n := w)) k j nd"
proof (cases "nd_conn nd \<in> {Asked n, Up n}")
  case False
  then show ?thesis by (rule node_ok_off[OF assms(1)])
next
  case True
  let ?f = "nd_follower nd" and ?log = "wire_log us (W n)" and ?pos = "wi_pos (W n)"
  have pos: "?pos \<le> length ?log" using assms(1) True by (auto simp: node_ok_def link_ok_def)
  have len: "?pos + length sent \<le> length ?log" using arg_cong[OF assms(2), of length] pos by simp
  have more: "take ?pos ?log @ sent = take (?pos + length sent) ?log" using assms(2) by (simp add: take_add)
  have w: "wire_log us w = ?log" "wire_units us w ws = wire_units us (W n) ws" for ws
    using assms(3) by (simp_all add: wire_log_def wire_units_def)
  have wd: "wi_down w = wi_down (W n) @ sent" "wi_pos w = ?pos + length sent" "wi_file w = wi_file (W n)" by (simp_all add: assms(3))
  have "asked_ok hash us tok used w ?f" if h: "asked_ok hash us tok used (W n) ?f"
  proof -
    obtain t stream ws where a: "token_ok t" "t \<in> set used" "wi_file (W n) = None \<longleftrightarrow> t = tok" "wire_units us (W n) ws"
      "reply_stream hash tok (W n) ?f t stream ws" "wi_file (W n) \<noteq> None \<longrightarrow> saved ?f \<noteq> tok" by (rule asked_okE[OF h])
    have "take ?pos (log_of (units_payloads ws)) @ sent = take (?pos + length sent) (log_of (units_payloads ws))"
      using more wire_units_log[OF a(4)] by simp
    then have "reply_stream hash tok w ?f t (stream @ sent) ws"
      using a(5) unfolding assms(3) reply_stream_def by (elim disjE exE conjE) (simp_all, metis append.assoc)
    from asked_okI[OF _ a(1,2) _ _ this, of us] a w assms(3) show ?thesis by simp
  qed
  moreover have "up_ok hash us tok w ?f" if h: "up_ok hash us tok (W n) ?f"
  proof -
    have "received ?f @ wi_down w = take (wi_pos w) (wire_log us w)" if "received ?f @ wi_down (W n) = take ?pos ?log"
      unfolding wd w(1) by (simp only: append.assoc[symmetric] that more)
    then show ?thesis using h w wd(3) unfolding up_ok_def by auto
  qed
  ultimately show ?thesis using assms(1,3) True len w by (auto simp: node_ok_def link_ok_def)
qed

lemma wire_file_log: "cluster_inv hash c us \<Longrightarrow> wire_file c w = wire_log us w"
  using copies_log[OF cluster_invD(1)] by (auto simp: wire_file_def wire_log_def split: option.split)

lemma saved_bound:
  assumes "cluster_inv hash c us" and "j < length (cc_nodes c)" and "saved (nd_follower (cc_nodes c ! j)) = cc_token c"
  obtains m where "m \<le> length us" "copies hash (fo_store (nd_follower (cc_nodes c ! j))) (take m us)"
    "prefix (log_bytes (fo_store (nd_follower (cc_nodes c ! j)))) (log_bytes (cc_store c))"
    "flen (nd_follower (cc_nodes c ! j)) < 2 ^ 64"
proof -
  let ?f = "nd_follower (cc_nodes c ! j)"
  obtain m where m: "m \<le> length us" "copies hash (fo_store ?f) (take m us)"
    using cluster_invD(7)[OF assms(1,2)] assms(3) by (auto simp: node_ok_def)
  have "log_of (units_payloads us) = log_bytes (fo_store ?f) @ log_of (units_payloads (drop m us))"
    using copies_log[OF m(2)] by (metis append_take_drop_id log_of_simps(3) units_simps(3))
  then have "prefix (log_bytes (fo_store ?f)) (log_bytes (cc_store c))"
    using copies_log[OF cluster_invD(1)[OF assms(1)]] by simp
  moreover from this have "flen ?f < 2 ^ 64" using cluster_invD(2)[OF assms(1)] prefix_length_le by fastforce
  ultimately show ?thesis using that m by blast
qed

lemma turn_inv:
  assumes "cluster_inv hash c us" and "i < length (cc_ids c)" and "n = cc_ids c ! i" and "s = ld_sessions (cc_leader c) ! i"
    and "\<not> ls_finished s" and "w = cc_wires c n" and "session_reads io (wire_file c w) (cc_store c) s = bytes"
    and "wi_up w = bytes @ rest" and "length bytes \<le> 256"
    and "session_turn clock io (wire_file c w) (cc_store c) i (cc_leader c) = (go, sent, l)"
  shows "cluster_inv hash
      (c\<lparr>cc_leader := l,
         cc_wires := (cc_wires c)(n := w\<lparr>wi_down := wi_down w @ sent, wi_up := rest, wi_pos := wi_pos w + length sent\<rparr>)\<rparr>) us"
proof -
  let ?w = "w\<lparr>wi_down := wi_down w @ sent, wi_up := rest, wi_pos := wi_pos w + length sent\<rparr>" and ?tok = "cc_token c"
  let ?W = "(cc_wires c)(n := ?w)" and ?S = "ld_sessions (cc_leader c)" and ?f = "nd_follower (cc_nodes c ! wi_peer w)"
  note inv = cluster_invD[OF assms(1)]
  have i: "i < length ?S" using assms(2) inv(5) by simp
  obtain s' where t: "ld_sessions l = ?S[i := s']" "\<not> ls_stopping s' \<longrightarrow> \<not> ls_stopping s" "ls_stopping s \<longrightarrow> sent = [] \<and> bytes = []"
    "sent = take (length sent) (drop (unat (ls_sentOffset s)) (wire_file c w))"
    "\<not> ls_finished s' \<longrightarrow> unat (ls_sentOffset s') = unat (ls_sentOffset s) + length sent"
    "\<And>tok w a f rest d q. acks_ok tok w a s f \<Longrightarrow> saved f = tok \<longrightarrow> flen f < 2 ^ 64 \<Longrightarrow> wi_up w = bytes @ rest \<Longrightarrow>
      acks_ok tok (w\<lparr>wi_down := d, wi_up := rest, wi_pos := q\<rparr>) a s' f"
    using session_turn_effect[OF assms(10) i assms(4,7,9)] by metis
  have so: "session_ok ?tok (cc_wires c) (cc_next c) (cc_nodes c) n s" using inv(8)[OF assms(2)] assms(3,4) by simp
  then have pos: "unat (ls_sentOffset s) = wi_pos w" and peer: "wi_peer w < length (cc_nodes c)"
    using assms(5,6) by (auto simp: session_ok_def)
  have sent: "sent = take (length sent) (drop (wi_pos (cc_wires c n)) (wire_log us (cc_wires c n)))"
    using t(4) pos wire_file_log[OF assms(1)] assms(6) by simp
  have nodes: "node_ok hash us ?tok (cc_used c) ?W (cc_next c) j (cc_nodes c ! j)" if "j < length (cc_nodes c)" for j
    by (rule node_ok_shipped[OF inv(7)[OF that] sent]) (simp add: assms(6))
  have bound: "saved ?f = ?tok \<longrightarrow> flen ?f < 2 ^ 64" using saved_bound[OF assms(1) peer] by blast
  have new: "session_ok ?tok ?W (cc_next c) (cc_nodes c) n s'"
    using so t(2,5) pos t(6)[OF _ bound assms(8)] unfolding assms(6) by (auto simp: session_ok_def)
  have "session_ok ?tok ?W (cc_next c) (cc_nodes c) (cc_ids c ! k) (?S[i := s'] ! k)" if "k < length (cc_ids c)" for k
  proof (cases "k = i")
    case True
    then show ?thesis using new i assms(3) by simp
  next
    case False
    then have "cc_ids c ! k \<noteq> n" using inv(6) that assms(2,3) by (simp add: nth_eq_iff_index_eq)
    then show ?thesis using inv(8)[OF that] False by (simp add: session_ok_def)
  qed
  then show ?thesis using assms(1) nodes t(1) unfolding cluster_inv_def by simp
qed

text \<open>Every step keeps the invariant.\<close>

lemma cluster_step_inv:
  assumes "cluster_step hash c c'" and "cluster_inv hash c us"
  shows "\<exists>us'. cluster_inv hash c' us'"
  using assms(1)
proof (cases rule: cluster_step.cases)
  case (client vs s' now)
  have "cluster_inv hash (c\<lparr>cc_store := s', cc_leader := (if vs = [] then cc_leader c else onAppend_note now (logOffset s') (cc_leader c))\<rparr>) (us @ vs)"
    using cluster_inv_sessions[OF client_inv[OF assms(2) client(2-4)],
        of "if vs = [] then cc_leader c else onAppend_note now (logOffset s') (cc_leader c)"]
    by (simp add: onAppend_note_def)
  then show ?thesis unfolding client(1) ..
next
  case (compact io ro so res s' t info)
  have tk: "token_ok t" using replicationToken_ok[of "fst info" "snd info" s'] compact(5,6) by simp
  have "frozen us w = w\<lparr>wi_file := Some (wire_file c w)\<rparr>" for w by (simp add: frozen_def wire_file_log[OF assms(2)])
  with compact_inv[OF assms(2) compact(2,4) tk compact(7)] show ?thesis unfolding compact(1) by simp
next
  case (enter r l)
  then have "ld_sessions l = ld_sessions (cc_leader c)" by (auto simp: onAppend_enter_def split: if_splits)
  then show ?thesis unfolding enter(1) using cluster_inv_sessions[OF assms(2)] by blast
next
  case (wake timedOut off r l)
  then have "ld_sessions l = ld_sessions (cc_leader c)" by (auto simp: onAppend_wake_def split: if_splits)
  then show ?thesis unfolding wake(1) using cluster_inv_sessions[OF assms(2)] by blast
next
  case reap
  then show ?thesis using reap_inv[OF assms(2)] by blast
next
  case (accept j f io sent session l1 l)
  let ?c = "c\<lparr>cc_leader := reapFinishedSessions (cc_leader c), cc_ids := live_ids c\<rparr>"
  have l1: "ld_sessions l1 = ld_sessions (reapFinishedSessions (cc_leader c))"
    using answer_ok(1)[OF assms(2) accept(2,3) accept(10)[unfolded accept(7)] accept(8,9) refl] .
  have len: "length (live_ids c) = length (ld_sessions (reapFinishedSessions (cc_leader c)))"
    by (rule reap_ids(1)[OF cluster_invD(5)[OF assms(2)]])
  have "ld_sessions l = ld_sessions l1 \<or> ld_sessions l = ld_sessions l1 @ [session]"
    using accept(4,5,6,10,11) by (auto simp: accept_turn_def Let_def split: if_splits)
  then have "ld_sessions l = ld_sessions (cc_leader ?c) \<and> (if length (ld_sessions l) = length (live_ids c) then [] else [cc_next c]) = [] \<or>
      ld_sessions l = ld_sessions (cc_leader ?c) @ [session] \<and>
      (if length (ld_sessions l) = length (live_ids c) then [] else [cc_next c]) = [cc_next ?c]"
    using l1 len by auto
  from accept_inv[OF reap_inv[OF assms(2)] _ _ _ accept(8) _ this, where j = j and f = f and info = "ac_info io"] accept
  show ?thesis unfolding accept(1) by (intro exI[of _ us]) simp
next
  case (reply j f n w line rest io ok full f1 as sent sentAll)
  then show ?thesis using reply_inv[OF assms(2) reply(2-8)] by blast
next
  case (receive j f n w bytes rest io ok sent f1)
  then show ?thesis using receive_inv[OF assms(2) receive(2-7)] by blast
next
  case (lost j f cn)
  then show ?thesis using lost_inv[OF assms(2) lost(2-4)] by blast
next
  case (turn i n s w io bytes rest clock go sent l)
  then show ?thesis using turn_inv[OF assms(2) turn(2-10)] by blast
qed

end
