(* ===== verification/ReplProperties.thy ===== *)
theory ReplProperties
  imports Replication
begin

text \<open>
  What replication guarantees: a follower that knows the leader's log holds a first part of it,
  and an acknowledged append is in a follower's log.
\<close>

subsection \<open>Reachable systems\<close>

definition started :: "(string \<Rightarrow> u64) \<Rightarrow> store \<Rightarrow> bool" where
  "started hash s \<longleftrightarrow> (\<exists>cfg io. cfg_plain cfg \<and> newStore hash io True True cfg None = Some (Inr s))"

lemma started_copies: "started hash s \<Longrightarrow> copies hash s [] \<and> (\<exists>mode h. logged hash mode s h)"
  using copies_empty newStore_logged[OF _ _ run_refl] by (metis started_def)

lemma new_cluster_inv:
  assumes "started hash s" and "t = replicationToken (Some info) s" and "t \<noteq> []" and "\<forall>p \<in> set fs. started hash (fst p)"
  shows "cluster_inv hash (new_cluster s t config fs) []"
proof -
  have tk: "token_ok t" using replicationToken_ok[of "fst info" "snd info" s] assms(2,3) by simp
  have "node_ok hash [] t [t] W k j \<lparr>nd_follower = newFollower sf cfg None, nd_conn = Down\<rparr>" if "started hash sf" for sf cfg W k j
  proof -
    have "saved (newFollower sf cfg None) = []" by (simp add: loadLeaderToken_def newFollower_def)
    then show ?thesis using started_copies[OF that] tk
      by (auto simp: node_ok_def link_ok_def fresh_link_def newFollower_def newApplier_def token_ok_def)
  qed
  then have nodes: "node_ok hash [] t [t] W k j (cc_nodes (new_cluster s t config fs) ! j)"
    if "j < length fs" for W k j
    using that assms(4) nth_mem[of j fs] by (cases "fs ! j") (force simp: new_cluster_def)
  have "log_bytes s = []" using started_copies[OF assms(1)] copies_log by fastforce
  with started_copies[OF assms(1)] tk nodes show ?thesis
    unfolding cluster_inv_def by (simp add: new_cluster_def newLeader_def)
qed

lemma cluster_run_inv:
  assumes "cluster_run hash c c'" and "cluster_inv hash c us"
  shows "\<exists>us'. cluster_inv hash c' us'"
  using assms by (induction rule: cluster_run.induct) (auto dest: cluster_step_inv)

subsection \<open>Steps that succeed\<close>

text \<open>A session that nothing disturbs ships the rest of the log.\<close>

lemma ship_step:
  assumes "cluster_inv hash c us" and "i < length (cc_ids c)" and "n = cc_ids c ! i" and "w = cc_wires c n"
    and "s = ld_sessions (cc_leader c) ! i" and "\<not> ls_finished s" and "\<not> ls_stopping s" and "wi_pos w \<le> length (log_bytes (cc_store c))"
  obtains s' where "same_acks s s'" "\<not> ls_stopping s'"
    "cluster_step hash c (c\<lparr>cc_leader := (cc_leader c)\<lparr>ld_sessions := (ld_sessions (cc_leader c))[i := s']\<rparr>,
       cc_wires := (cc_wires c)(n := w\<lparr>wi_down := wi_down w @ drop (wi_pos w) (log_bytes (cc_store c)),
         wi_pos := length (log_bytes (cc_store c))\<rparr>)\<rparr>)"
proof -
  let ?io = "\<lparr>st_ship = [], st_poll = None, st_read = SysOk, st_bytes = []\<rparr>" and ?log = "log_bytes (cc_store c)"
  note inv = cluster_invD[OF assms(1)]
  have so: "wi_file w = None" "unat (ls_sentOffset s) = wi_pos w"
    using inv(8)[OF assms(2)] assms by (simp_all add: session_ok_def)
  then have wf: "wire_file c w = ?log" by (simp add: wire_file_def)
  obtain s' where s': "ship_loop [] ?log (logOffset (cc_store c)) s = (True, drop (wi_pos w) ?log, s')" "same_acks s s'"
    "ls_stopping s' = ls_stopping s"
    using ship_all[of "logOffset (cc_store c)" ?log s] copies_offset[OF inv(1)] inv(2) so(2) assms(8) by auto
  have st: "session_turn (\<lambda>_. 0) ?io (wire_file c w) (cc_store c) i (cc_leader c) =
      (True, drop (wi_pos w) ?log, (cc_leader c)\<lparr>ld_sessions := (ld_sessions (cc_leader c))[i := s']\<rparr>)"
    using s'(1) assms(5,7) by (simp add: session_turn_def shipPending_def wf)
  have "session_reads ?io (wire_file c w) (cc_store c) s = []" by (simp add: session_reads_def)
  from cluster_step.turn[OF assms(2,3,5,6,4) this _ _ st, of "wi_up w"] assms(8) s' assms(7) that[of s'] show ?thesis
    by (simp add: same_acks_def)
qed

text \<open>A linked follower that takes everything on its way logs and acknowledges it.\<close>

lemma receive_step:
  assumes "cluster_inv hash c us" and "j < length (cc_nodes c)" and "cc_nodes c ! j = \<lparr>nd_follower = f, nd_conn = Up n\<rparr>"
    and "w = cc_wires c n" and "wi_file w = None" and "wi_pos w = length (log_bytes (cc_store c))"
    and "length (log_bytes (cc_store c)) - flen f \<le> kMaxBufferedTransactionBytes" and "flen f < length (log_bytes (cc_store c))"
  obtains f' where "copies hash (fo_store f') us" "saved f' = cc_token c"
    "cluster_step hash c (c\<lparr>cc_wires := (cc_wires c)(n := w\<lparr>wi_down := [], wi_up := wi_up w @ ackline (length (log_bytes (cc_store c)))\<rparr>),
       cc_nodes := (cc_nodes c)[j := \<lparr>nd_follower = f', nd_conn = Up n\<rparr>]\<rparr>)"
proof -
  note inv = cluster_invD[OF assms(1)]
  have up: "up_ok hash us (cc_token c) w f" using inv(7)[OF assms(2)] assms(3,4) by (simp add: node_ok_def link_ok_def)
  have log: "log_bytes (cc_store c) = log_of (units_payloads us)" by (rule copies_log[OF inv(1)])
  obtain m k where r: "receiving hash us m k f" "received f @ wi_down w = log_of (units_payloads us)" "saved f = cc_token c"
    using up assms(5,6) log by (auto simp: up_ok_def wire_units_def wire_log_def)
  have io: "flush_fine demo_flush" "WErr \<notin> set (fl_ack demo_flush)" by (simp_all add: flush_fine_def demo_flush_def)
  obtain b sent f' where c: "consume_chunk hash demo_flush (wi_down w) f = (b, sent, f')" using prod_cases3 by blast
  have pre: "prefix (received f @ wi_down w) (log_of (units_payloads us))" using r(2) by simp
  have b: "b" using consume_chunk_goes_on[OF r(1) pre io] assms(7) log c by simp
  note cr = consume_chunk_receiving[OF r(1) pre io(1) c]
  obtain m' n' where r': "receiving hash us m' n' f'" using cr(4)[OF b] by blast
  have cp: "copies hash (fo_store f') us" by (rule receiving_all[OF r']) (use cr(5)[OF b] r(2) in simp)
  have sv: "saved f' = cc_token c"
    using saved_same[OF cr(1) _ cp, of "take m us"] r(1,3) by (simp add: receiving_def)
  have "flen f' = length (log_bytes (cc_store c))" using copies_log[OF cp] log by simp
  then have off: "unat (logOffset (fo_store f')) = length (log_bytes (cc_store c))"
    using copies_offset[OF cp] inv(2) by (simp add: unat_of_nat)
  have "fo_store f' \<noteq> fo_store f" using \<open>flen f' = _\<close> assms(8) by auto
  then have "sent \<noteq> []"
    using c b write_loop_no_error[OF io(2)] consume_records_keeps
    by (fastforce simp: consume_chunk_def Let_def sendAck_def split: prod.splits bool.splits if_splits)
  then have "sent = ackline (length (log_bytes (cc_store c)))" using cr(6)[OF b] off by simp
  with cluster_step.receive[OF assms(2,3,4) _ io(1) c, of "[]"] b cp sv that[of f'] show ?thesis by simp
qed

text \<open>A session that reads one more acknowledgement.\<close>

lemma drain_step:
  assumes "cluster_inv hash c us" and "i < length (cc_ids c)" and "n = cc_ids c ! i" and "w = cc_wires c n"
    and "s = ld_sessions (cc_leader c) ! i" and "\<not> ls_finished s" and "\<not> ls_stopping s" and "ls_ackBuffer s = []"
    and "wi_pos w = length (log_bytes (cc_store c))" and "wi_up w = ackline 0 @ ackline (wi_pos w)" and "length (wi_up w) \<le> 256"
    and "unat (ls_acked s) < wi_pos w"
  obtains l where "ld_sessions l = (ld_sessions (cc_leader c))[i := s\<lparr>ls_acked := of_nat (wi_pos w)\<rparr>]"
    "ld_stopping l = ld_stopping (cc_leader c)"
    "cluster_step hash c (c\<lparr>cc_leader := l, cc_wires := (cc_wires c)(n := w\<lparr>wi_up := []\<rparr>)\<rparr>)"
proof -
  let ?io = "\<lparr>st_ship = [], st_poll = Some SysOk, st_read = SysOk, st_bytes = wi_up w\<rparr>"
  let ?s = "s\<lparr>ls_acked := of_nat (wi_pos w)\<rparr>" and ?off = "of_nat (wi_pos w) :: u64" and ?S = "ld_sessions (cc_leader c)"
  note inv = cluster_invD[OF assms(1)]
  have so: "wi_file w = None" "unat (ls_sentOffset s) = wi_pos w"
    using inv(8)[OF assms(2)] assms by (simp_all add: session_ok_def)
  have p64: "wi_pos w < 2 ^ 64" using inv(2) assms(9) by simp
  then have un: "unat ?off = wi_pos w" by (simp add: unat_of_nat)
  have "logOffset (cc_store c) = ?off" using copies_offset[OF inv(1)] assms(9) by simp
  then have "ls_sentOffset s = logOffset (cc_store c)" using so(2) un by (metis word_unat_eq_iff)
  then have sh: "shipPending [] (wire_file c w) (cc_store c) s = (True, [], s)"
    by (simp add: shipPending_def ship_loop.simps[of "[]"])
  have "ack_loop (wi_up w) 0 False = ([], ?off, True)"
    using ack_loop_line[of 0 "ackline (wi_pos w)" 0 False] ack_loop_line[OF p64, of "[]" 0 True] ack_loop_rest[of "[]"] assms(10,12)
    by (auto simp: word_less_nat_alt un)
  moreover have "?off > ls_acked s" using assms(12) un by (simp add: word_less_nat_alt)
  ultimately have d: "drain_session SysOk (wi_up w) s = (True, Some ?off, ?s)"
    using assms(8,10,11) by (simp add: drain_session_def kMaxControlLine_def Let_def)
  let ?l = "noteAck (\<lambda>_. 0) ?off ((cc_leader c)\<lparr>ld_sessions := ?S[i := s, i := ?s]\<rparr>)"
  have i: "i < length ?S" using assms(2) inv(5) by simp
  have st: "session_turn (\<lambda>_. 0) ?io (wire_file c w) (cc_store c) i (cc_leader c) = (True, [], ?l)"
    using sh d i assms(5,7) by (simp add: session_turn_def drainAcks_def Let_def)
  have "session_reads ?io (wire_file c w) (cc_store c) s = wi_up w" using sh assms(7) by (simp add: session_reads_def)
  from cluster_step.turn[OF assms(2,3,5,6,4) this _ assms(11) st, of "[]"]
  have "cluster_step hash c (c\<lparr>cc_leader := ?l, cc_wires := (cc_wires c)(n := w\<lparr>wi_up := []\<rparr>)\<rparr>)" by simp
  moreover have "ld_sessions ?l = ?S[i := ?s]" "ld_stopping ?l = ld_stopping (cc_leader c)" by simp_all
  ultimately show ?thesis using that by blast
qed

subsection \<open>A run\<close>

text \<open>A leader takes a write, and a follower links up, receives and acknowledges it.\<close>

abbreviation demo_value :: string where
  "demo_value \<equiv> ''111111111111111111111111111111''"

definition demo_write :: log_unit where
  "demo_write = Single (SetCommand ''a'' demo_value)"

definition demo_system :: "store \<Rightarrow> cluster" where
  "demo_system s = new_cluster s ''1-2'' (defaultReplConfig\<lparr>rp_mode := Sync\<rparr>) [(s, defaultReplConfig)]"

lemma demo_started:
  obtains s where "newStore demo_hash demo_io True True demo_cfg None = Some (Inr s)" "started demo_hash s"
    "so_logPath s = ''kv.log''" "replicationToken (Some (1, 2)) s = ''1-2''"
proof -
  obtain s where s: "newStore demo_hash demo_io True True demo_cfg None = Some (Inr s)" using newStore_starts[of demo_cfg] by auto
  have p: "so_logPath s = ''kv.log''"
    using s by (auto simp: newStore_def recoverFromLog_def replay_def newApplier_def newWal_def freshStore_def demo_cfg_def Let_def
        split: option.splits)
  have "to_string (unat (1 :: u64)) = ''1''" "to_string (unat (2 :: u64)) = ''2''"
    by (simp_all add: to_string.simps digit_char_def) code_simp+
  then have "replicationToken (Some (1, 2)) s = ''1-2''" using p by (simp add: replicationToken_def)
  with s p that show ?thesis using demo_fine(1) started_def by blast
qed

lemma demo_client:
  assumes "started demo_hash s"
  obtains s1 where "store_step demo_hash s [demo_write] s1" "log_bytes s1 = log_of (units_payloads [demo_write])"
    "log_bytes s = []" "so_logPath s1 = so_logPath s" "sm_abs demo_hash (so_map s1) = [''a'' \<mapsto> demo_value]"
proof -
  obtain cfg io where c: "cfg_plain cfg" "newStore demo_hash io True True cfg None = Some (Inr s)" using assms by (auto simp: started_def)
  note m = newStore_empty[OF c]
  obtain s1 where s1: "store_set demo_hash [WOk 3, WEintr] True ''a'' demo_value s = (Inr (), s1)" using store_set_succeeds[OF m] by blast
  have fits: "command_fits (SetCommand ''a'' demo_value)" by (simp add: command_fits_def payload_ok_def unat_kMaxPayloadBytes)
  note m1 = store_set_mirrors[OF m s1 fits]
  have "so_logPath s1 = so_logPath s"
    using s1 by (auto simp: store_set_def notifyAppend_def Let_def split: option.splits prod.splits sum.splits)
  moreover have "log_bytes s = []" "log_bytes s1 = log_of (units_payloads [demo_write])"
    using copies_log[OF mirrors_copies[OF m]] copies_log[OF mirrors_copies[OF m1]] by (simp_all add: demo_write_def)
  moreover have "sm_abs demo_hash (so_map s1) = [''a'' \<mapsto> demo_value]"
    using mirrors_map(4)[OF m1] by (simp add: units_map_def mut_apply_def)
  ultimately show ?thesis using that store_step.set_step[OF s1 fits] by (simp add: demo_write_def)
qed

lemma demo_full_line: "full_line ''1-2'' = ''+FULL 1-2 0''"
  by (simp add: full_line_def)

lemma demo_token: "token_ok ''1-2''"
  by (simp add: token_ok_def is_space_def)

lemma demo_request:
  assumes "logOffset s = 0"
  shows "handshake_request True (newFollower s cfg None) = ''SYNC - 0'' @ eol"
proof -
  have "to_string 0 = ''0''" by code_simp
  then show ?thesis using assms by (simp add: handshake_request_def newFollower_def loadLeaderToken_def)
qed

lemma demo_asked:
  assumes "started demo_hash s" and "so_logPath s = ''kv.log''" and "replicationToken (Some (1, 2)) s = ''1-2''"
  obtains c f where "cluster_run demo_hash (demo_system s) c" "cc_nodes c = [\<lparr>nd_follower = f, nd_conn = Asked 0\<rparr>]"
    "cc_ids c = [0]" "ld_sessions (cc_leader c) = [newSessionState]" "\<not> ld_stopping (cc_leader c)" "cc_token c = ''1-2''"
    "cc_wires c 0 = \<lparr>wi_peer = 0, wi_file = None, wi_down = full_line ''1-2'' @ eol, wi_up = [], wi_pos = 0\<rparr>"
    "log_bytes (cc_store c) = log_of (units_payloads [demo_write])" "sm_abs demo_hash (so_map (cc_store c)) = [''a'' \<mapsto> demo_value]"
    "cc_used c = [''1-2'']" "so_logPath (cc_store c) = ''kv.log''"
proof -
  let ?f = "newFollower s defaultReplConfig None" and ?t = "''1-2''" and ?c = "demo_system s"
  let ?ld = "newLeader (defaultReplConfig\<lparr>rp_mode := Sync\<rparr>)"
  obtain s1 where s1: "store_step demo_hash s [demo_write] s1" "log_bytes s1 = log_of (units_payloads [demo_write])"
    "log_bytes s = []" "so_logPath s1 = so_logPath s" "sm_abs demo_hash (so_map s1) = [''a'' \<mapsto> demo_value]"
    by (rule demo_client[OF assms(1)])
  let ?c1 = "?c\<lparr>cc_store := s1\<rparr>"
  have "length (log_bytes s1) < 2 ^ 64" by (simp add: s1(2) demo_write_def)
  then have step1: "cluster_step demo_hash ?c ?c1"
    using cluster_step.client[of demo_hash ?c "[demo_write]" s1 0] s1
    by (simp add: demo_system_def new_cluster_def onAppend_note_def newLeader_def)
  have tok: "replicationToken (Some (1, 2)) s1 = ?t" using assms(2,3) s1(4) by (simp add: replicationToken_def)
  have off: "logOffset s = 0" using started_copies[OF assms(1)] copies_offset[of demo_hash s "[]"] s1(3) by simp
  obtain sent session l2 where hs: "performHandshake (map BByte (handshake_request True ?f)) [] (Some (1, 2)) s1 ?ld = (True, sent, session, l2)"
    using handshake_succeeds[of ?f "[]" "Some (1, 2)" s1 ?ld] tok demo_token demo_request[OF off]
    by (cases "performHandshake (map BByte (handshake_request True ?f)) [] (Some (1, 2)) s1 ?ld") (simp add: kMaxControlLine_def)
  have ans: "sent = full_line ?t @ eol" "session = newSessionState" "ld_sessions l2 = []" "\<not> ld_stopping l2"
    using handshake_answer[OF hs _ tok demo_token] off by (simp_all add: newLeader_def newFollower_def)
  let ?io = "\<lparr>ac_poll = Some SysOk, ac_accepted = True, ac_incoming = map BByte (handshake_request True ?f), ac_writes = [],
    ac_info = Some (1, 2), ac_pipe = True, ac_open = True, ac_stopping = False\<rparr>"
  let ?l = "l2\<lparr>ld_connections := ld_connections l2 + 1, ld_stopping := False, ld_sessions := [newSessionState]\<rparr>"
  have reap: "reapFinishedSessions ?ld = ?ld" by (simp add: reapFinishedSessions_def newLeader_def)
  have at: "accept_turn ?io s1 ?ld = (True, sent, ?l)"
    using hs ans by (simp add: accept_turn_def Let_def reap) (simp add: newLeader_def)
  have "\<exists>c f. cluster_step demo_hash ?c1 c \<and> cc_nodes c = [\<lparr>nd_follower = f, nd_conn = Asked 0\<rparr>] \<and> cc_ids c = [0] \<and>
      cc_leader c = ?l \<and> cc_token c = ?t \<and> cc_store c = s1 \<and> cc_used c = [?t] \<and>
      cc_wires c 0 = \<lparr>wi_peer = 0, wi_file = None, wi_down = full_line ?t @ eol, wi_up = [], wi_pos = 0\<rparr>"
    by (rule exI, rule exI, intro conjI, rule cluster_step.accept[of 0 ?c1 ?f ?io sent session l2 ?l])
      (use hs at tok ans in \<open>simp_all add: demo_system_def new_cluster_def reap live_ids_def newSessionState_def\<close>,
       simp_all add: newLeader_def)
  then obtain c f where "cluster_step demo_hash ?c1 c" "cc_nodes c = [\<lparr>nd_follower = f, nd_conn = Asked 0\<rparr>]" "cc_ids c = [0]"
      "cc_leader c = ?l" "cc_token c = ?t" "cc_store c = s1" "cc_used c = [?t]"
      "cc_wires c 0 = \<lparr>wi_peer = 0, wi_file = None, wi_down = full_line ?t @ eol, wi_up = [], wi_pos = 0\<rparr>" by blast
  with that[of c f] run_next[OF run_next[OF run_start step1]] s1 assms(2) show ?thesis by simp
qed

lemma demo_linked:
  assumes "started demo_hash s" and "so_logPath s = ''kv.log''" and "replicationToken (Some (1, 2)) s = ''1-2''"
  obtains c f where "cluster_run demo_hash (demo_system s) c" "cc_nodes c = [\<lparr>nd_follower = f, nd_conn = Up 0\<rparr>]" "flen f = 0"
    "cc_ids c = [0]" "ld_sessions (cc_leader c) = [newSessionState]" "\<not> ld_stopping (cc_leader c)" "cc_token c = ''1-2''"
    "cc_wires c 0 = \<lparr>wi_peer = 0, wi_file = None, wi_down = [], wi_up = ackline 0, wi_pos = 0\<rparr>"
    "log_bytes (cc_store c) = log_of (units_payloads [demo_write])" "sm_abs demo_hash (so_map (cc_store c)) = [''a'' \<mapsto> demo_value]"
    "cc_used c = [''1-2'']" "so_logPath (cc_store c) = ''kv.log''"
proof -
  let ?t = "''1-2''" and ?io = "\<lparr>rs_truncate = True, rs_sync = True, rs_save = Some 100\<rparr>"
  obtain c f where c: "cluster_run demo_hash (demo_system s) c" "cc_nodes c = [\<lparr>nd_follower = f, nd_conn = Asked 0\<rparr>]"
    "cc_ids c = [0]" "ld_sessions (cc_leader c) = [newSessionState]" "\<not> ld_stopping (cc_leader c)" "cc_token c = ?t"
    "cc_wires c 0 = \<lparr>wi_peer = 0, wi_file = None, wi_down = full_line ?t @ eol, wi_up = [], wi_pos = 0\<rparr>"
    "log_bytes (cc_store c) = log_of (units_payloads [demo_write])" "sm_abs demo_hash (so_map (cc_store c)) = [''a'' \<mapsto> demo_value]"
    "cc_used c = [''1-2'']" "so_logPath (cc_store c) = ''kv.log''"
    by (rule demo_asked[OF assms])
  have "cluster_inv demo_hash (demo_system s) []"
    unfolding demo_system_def by (rule new_cluster_inv[OF assms(1) assms(3)[symmetric]]) (use assms(1) in simp_all)
  from cluster_run_inv[OF c(1) this] obtain us where "cluster_inv demo_hash c us" by blast
  from cluster_invD(7)[OF this, of 0] obtain vs where f: "copies demo_hash (fo_store f) vs" "fresh_link f"
    using c(2) by (auto simp: node_ok_def link_ok_def)
  have "reset_fine ?t ?io" by (simp add: reset_fine_def)
  from handshake_full[OF demo_token this f] obtain g where g: "handshake_reply ?io (full_line ?t) f = ((True, True), g)"
    "copies demo_hash (fo_store g) []" by blast
  have off: "logOffset (fo_store g) = 0" "flen g = 0" using copies_offset[OF g(2)] copies_log[OF g(2)] by simp_all
  have rl: "read_line (map BByte (wi_down (cc_wires c 0))) [] = (Some (full_line ?t), map BByte [])"
    using read_line_line[of "full_line ?t" "[]" "[]"] by (simp add: c(7) demo_full_line kMaxControlLine_def)
  have ack: "sendAck [] (logOffset (fo_store g)) = (ackline 0, True)" by (simp add: sendAck_def ackline_def off)
  have "reset_fine (full_line ?t) ?io" by (simp add: reset_fine_def demo_full_line)
  from cluster_step.reply[where hash = demo_hash, OF _ _ refl rl this g(1) ack, of 0] c(2)
  have step: "cluster_step demo_hash c
      (c\<lparr>cc_wires := (cc_wires c)(0 := (cc_wires c 0)\<lparr>wi_down := [], wi_up := wi_up (cc_wires c 0) @ ackline 0\<rparr>),
         cc_nodes := [\<lparr>nd_follower = g\<lparr>fo_linkUp := True\<rparr>, nd_conn = Up 0\<rparr>]\<rparr>)" by simp
  with that[OF run_next[OF c(1) step], of "g\<lparr>fo_linkUp := True\<rparr>"] c off(2) show ?thesis by simp
qed

lemma demo_acknowledged:
  assumes "started demo_hash s" and "so_logPath s = ''kv.log''" and "replicationToken (Some (1, 2)) s = ''1-2''"
  obtains c nd se where "cluster_run demo_hash (demo_system s) c" "cc_nodes c = [nd]" "saved (nd_follower nd) = cc_token c"
    "sm_abs demo_hash (so_map (fo_store (nd_follower nd))) = [''a'' \<mapsto> demo_value]"
    "sm_abs demo_hash (so_map (cc_store c)) = [''a'' \<mapsto> demo_value]" "length (log_bytes (cc_store c)) = 48"
    "ld_sessions (cc_leader c) = [se]" "\<not> ls_stopping se" "ls_acked se = 48" "\<not> ld_stopping (cc_leader c)"
    "cc_used c = [''1-2'']" "so_logPath (cc_store c) = ''kv.log''"
proof -
  have inv0: "cluster_inv demo_hash (demo_system s) []"
    unfolding demo_system_def by (rule new_cluster_inv[OF assms(1) assms(3)[symmetric]]) (use assms(1) in simp_all)
  obtain c f where c: "cluster_run demo_hash (demo_system s) c" "cc_nodes c = [\<lparr>nd_follower = f, nd_conn = Up 0\<rparr>]" "flen f = 0"
    "cc_ids c = [0]" "ld_sessions (cc_leader c) = [newSessionState]" "\<not> ld_stopping (cc_leader c)" "cc_token c = ''1-2''"
    "cc_wires c 0 = \<lparr>wi_peer = 0, wi_file = None, wi_down = [], wi_up = ackline 0, wi_pos = 0\<rparr>"
    "log_bytes (cc_store c) = log_of (units_payloads [demo_write])" "sm_abs demo_hash (so_map (cc_store c)) = [''a'' \<mapsto> demo_value]"
    "cc_used c = [''1-2'']" "so_logPath (cc_store c) = ''kv.log''"
    by (rule demo_linked[OF assms])
  have len: "length (log_bytes (cc_store c)) = 48" by (simp add: c(9) demo_write_def)
  from cluster_run_inv[OF c(1) inv0] obtain us where inv: "cluster_inv demo_hash c us" by blast
  obtain s1 where s1: "same_acks newSessionState s1" "\<not> ls_stopping s1"
    "cluster_step demo_hash c (c\<lparr>cc_leader := (cc_leader c)\<lparr>ld_sessions := [s1]\<rparr>, cc_wires := (cc_wires c)(0 :=
       \<lparr>wi_peer = 0, wi_file = None, wi_down = log_bytes (cc_store c), wi_up = ackline 0, wi_pos = 48\<rparr>)\<rparr>)" (is "cluster_step _ _ ?c1")
    by (rule ship_step[OF inv, of 0 0 "cc_wires c 0" newSessionState]) (use c len in \<open>simp_all add: newSessionState_def\<close>)
  note run1 = run_next[OF c(1) s1(3)]
  from cluster_run_inv[OF run1 inv0] obtain us1 where inv1: "cluster_inv demo_hash ?c1 us1" by blast
  obtain f' where f': "copies demo_hash (fo_store f') us1" "saved f' = cc_token ?c1"
    "cluster_step demo_hash ?c1 (?c1\<lparr>cc_wires := (cc_wires ?c1)(0 :=
       \<lparr>wi_peer = 0, wi_file = None, wi_down = [], wi_up = ackline 0 @ ackline 48, wi_pos = 48\<rparr>),
       cc_nodes := [\<lparr>nd_follower = f', nd_conn = Up 0\<rparr>]\<rparr>)" (is "cluster_step _ _ ?c2")
    by (rule receive_step[OF inv1, of 0 f 0 "cc_wires ?c1 0"]) (use c len in \<open>simp_all add: kMaxBufferedTransactionBytes_def\<close>)
  note run2 = run_next[OF run1 f'(3)]
  from cluster_run_inv[OF run2 inv0] obtain us2 where inv2: "cluster_inv demo_hash ?c2 us2" by blast
  have k: "ls_ackBuffer s1 = []" "ls_acked s1 = 0" "\<not> ls_finished s1" using s1(1) by (simp_all add: same_acks_def newSessionState_def)
  have al: "length (ackline 0 @ ackline 48) = 13" by code_simp
  obtain l where l: "ld_sessions l = [s1\<lparr>ls_acked := of_nat 48\<rparr>]" "ld_stopping l = ld_stopping (cc_leader ?c2)"
    "cluster_step demo_hash ?c2 (?c2\<lparr>cc_leader := l, cc_wires := (cc_wires ?c2)(0 := (cc_wires ?c2 0)\<lparr>wi_up := []\<rparr>)\<rparr>)"
    by (rule drain_step[OF inv2, of 0 0 "cc_wires ?c2 0" s1]) (use c k s1(2) len al in simp_all)
  have "sm_abs demo_hash (so_map (fo_store f')) = sm_abs demo_hash (so_map (cc_store ?c1))"
    using f'(1) cluster_invD(1)[OF inv1] by (simp add: copies_def)
  with that[OF run_next[OF run2 l(3)], of "\<lparr>nd_follower = f', nd_conn = Up 0\<rparr>"] l c s1 f' len show ?thesis by simp
qed





end
