(* ===== verification/ReplLimits.thy ===== *)
theory ReplLimits
  imports ReplProperties
begin

text \<open>
  Where the guarantees of replication end: sessions outlive the log they stream, a resumed link
  trusts the token and the offset alone, pipelined acknowledgements cost a link, and a
  follower restarted inside a transaction applies the rest of it alone.
\<close>

subsection \<open>An acknowledgement for a log that is gone\<close>

lemma set_again:
  assumes "mirrors hash mode s b ws" and "command_fits (SetCommand k v)"
  obtains s' where "store_set hash [WOk 3, WEintr] True k v s = (Inr (), s')" "mirrors hash mode s' b (ws @ [Single (SetCommand k v)])"
    "so_logPath s' = so_logPath s"
proof -
  obtain s' where s': "store_set hash [WOk 3, WEintr] True k v s = (Inr (), s')" using store_set_succeeds[OF assms(1)] by blast
  moreover have "so_logPath s' = so_logPath s"
    using s' by (auto simp: store_set_def notifyAppend_def Let_def split: option.splits prod.splits sum.splits)
  ultimately show ?thesis using that store_set_mirrors[OF assms(1) s' assms(2)] by blast
qed

lemma set_step:
  assumes "cluster_inv hash c us" and "command_fits (SetCommand k v)"
    and "length (log_bytes (cc_store c)) + length (frame (serialize (SetCommand k v))) < 2 ^ 64"
  obtains s' now where "length (log_bytes s') = length (log_bytes (cc_store c)) + length (frame (serialize (SetCommand k v)))"
    "sm_abs hash (so_map s') = (sm_abs hash (so_map (cc_store c)))(k \<mapsto> v)" "so_logPath s' = so_logPath (cc_store c)"
    "cluster_step hash c (c\<lparr>cc_store := s', cc_leader := onAppend_note now (logOffset s') (cc_leader c)\<rparr>)"
proof -
  obtain mode h where "logged hash mode (cc_store c) h" using assms(1) by (auto simp: cluster_inv_def)
  then obtain b ws where m: "mirrors hash mode (cc_store c) b ws" by (auto simp: logged_def)
  obtain s' where s': "store_set hash [WOk 3, WEintr] True k v (cc_store c) = (Inr (), s')"
    and m': "mirrors hash mode s' b (ws @ [Single (SetCommand k v)])" and path: "so_logPath s' = so_logPath (cc_store c)"
    by (rule set_again[OF m assms(2)])
  have lg: "log_bytes s' = log_bytes (cc_store c) @ log_of (units_payloads [Single (SetCommand k v)])"
    using copies_log[OF mirrors_copies[OF m]] copies_log[OF mirrors_copies[OF m']] by simp
  have "sm_abs hash (so_map s') = (sm_abs hash (so_map (cc_store c)))(k \<mapsto> v)"
    using mirrors_map(4)[OF m] mirrors_map(4)[OF m'] units_map_append[of "b @ ws" "[Single (SetCommand k v)]"] by (simp add: mut_apply_def)
  then show ?thesis
    using that[of s' 0] path cluster_step.client[OF store_step.set_step[OF s' assms(2)] lg, of 0] lg assms(3) by simp
qed

lemma compact_fine:
  assumes "copies hash s us" and "co_fine io"
  obtains res s' where "store_compact io True True s = (Inr res, s')" "cr_ok res" "so_map s' = so_map s" "so_logPath s' = so_logPath s"
    "log_bytes s' = log_of (snapshot_payloads (sm_snapshot (so_map s)))"
proof -
  obtain w where w: "so_log s = Some w" using assms(1) by (auto simp: copies_def)
  let ?rw = "rewrite io (sm_snapshot (so_map s)) \<lparr>st_log = wal_file w, st_temp = so_temp s\<rparr>"
  have ok: "cr_ok (fst ?rw)" by (rule rewrite_fine[OF assms(2)])
  let ?lf = "\<lparr>lf_bytes = log_of (snapshot_payloads (sm_snapshot (so_map s))), lf_durable = log_of (snapshot_payloads (sm_snapshot (so_map s)))\<rparr>"
  obtain s' where s': "store_compact io True True s = (Inr (fst ?rw), s')" "so_map s' = so_map s" "so_logPath s' = so_logPath s"
    "so_log s' = Some (w\<lparr>wal_fd := True, wal_file := ?lf, wal_offset := of_nat (length (lf_bytes ?lf))\<rparr>)"
    using w ok rewrite_ok(1)[OF ok] by (simp add: store_compact_def reopenAfterCompaction_def split_beta Let_def)
  with that[OF s'(1) ok] show ?thesis by (simp add: log_bytes_def wal_bytes_def)
qed

text \<open>A map with one entry is compacted to one record.\<close>

lemma snapshot_single:
  assumes "sm_inv hash m" and "sm_abs hash m = [k \<mapsto> v]"
  shows "sm_snapshot m = [(k, v)]"
proof -
  let ?es = "sm_snapshot m"
  have d: "distinct (map fst ?es)" and m: "map_of ?es = [k \<mapsto> v]"
    using sm_snapshot_distinct[OF assms(1)] sm_snapshot_map[OF assms(1)] assms(2) by simp_all
  have "set ?es = {(k, v)}"
  proof -
    have "(x, y) \<in> set ?es \<longleftrightarrow> x = k \<and> y = v" for x y
      using map_of_eq_Some_iff[OF d, of x y] m by (auto split: if_splits)
    then show ?thesis by auto
  qed
  moreover have "distinct ?es" using d by (simp add: distinct_map)
  ultimately show ?thesis by (metis distinct_card One_nat_def card.empty card_insert_disjoint empty_iff finite.emptyI length_0_conv
        length_Suc_conv set_ConsD singletonD insert_iff list.set_intros(1))
qed

text \<open>The system of the run above, after another write to the same key and a compaction.\<close>

lemma demo_compacted:
  assumes "started demo_hash s" and "so_logPath s = ''kv.log''" and "replicationToken (Some (1, 2)) s = ''1-2''"
  obtains c nd se where "cluster_run demo_hash (demo_system s) c" "cc_nodes c = [nd]"
    "sm_abs demo_hash (so_map (fo_store (nd_follower nd))) = [''a'' \<mapsto> demo_value]" "length (log_bytes (cc_store c)) = 19"
    "ld_sessions (cc_leader c) = [se]" "ls_acked se = 48" "\<not> ld_stopping (cc_leader c)"
proof -
  have inv0: "cluster_inv demo_hash (demo_system s) []"
    unfolding demo_system_def by (rule new_cluster_inv[OF assms(1) assms(3)[symmetric]]) (use assms(1) in simp_all)
  obtain c nd se where c: "cluster_run demo_hash (demo_system s) c" "cc_nodes c = [nd]" "saved (nd_follower nd) = cc_token c"
    "sm_abs demo_hash (so_map (fo_store (nd_follower nd))) = [''a'' \<mapsto> demo_value]" "sm_abs demo_hash (so_map (cc_store c)) = [''a'' \<mapsto> demo_value]"
    "length (log_bytes (cc_store c)) = 48"
    "ld_sessions (cc_leader c) = [se]" "\<not> ls_stopping se" "ls_acked se = 48" "\<not> ld_stopping (cc_leader c)"
    "cc_used c = [''1-2'']" "so_logPath (cc_store c) = ''kv.log''"
    by (rule demo_acknowledged[OF assms])
  have fits: "command_fits (SetCommand ''a'' ''1'')"
    by (simp add: command_fits_def payload_ok_def unat_kMaxPayloadBytes)
  obtain us where inv: "cluster_inv demo_hash c us" using cluster_run_inv[OF c(1) inv0] by blast
  have "length (log_bytes (cc_store c)) + length (frame (serialize (SetCommand ''a'' ''1''))) < 2 ^ 64" using c(6) by simp
  then obtain s1 now where s1: "sm_abs demo_hash (so_map s1) = (sm_abs demo_hash (so_map (cc_store c)))(''a'' \<mapsto> ''1'')"
    "so_logPath s1 = so_logPath (cc_store c)"
    "cluster_step demo_hash c (c\<lparr>cc_store := s1, cc_leader := onAppend_note now (logOffset s1) (cc_leader c)\<rparr>)" (is "cluster_step _ _ ?c1")
    by (rule set_step[OF inv fits]) blast
  note run1 = run_next[OF c(1) s1(3)]
  obtain us1 where inv1: "cluster_inv demo_hash ?c1 us1" using cluster_run_inv[OF run1 inv0] by blast
  let ?io = "\<lparr>co_statBefore = True, co_open = True, co_writes = [], co_sync = True, co_rename = True, co_unlink = True,
    co_statAfter = True, co_strerror = []\<rparr>"
  have "copies demo_hash s1 us1" using cluster_invD(1)[OF inv1] by simp
  moreover have "co_fine ?io" by (simp add: co_fine_def)
  ultimately obtain res s2 where s2: "store_compact ?io True True s1 = (Inr res, s2)" "cr_ok res" "so_map s2 = so_map s1"
    "so_logPath s2 = so_logPath s1" "log_bytes s2 = log_of (snapshot_payloads (sm_snapshot (so_map s1)))" by (rule compact_fine)
  have "sm_snapshot (so_map s1) = [(''a'', ''1'')]"
    by (rule snapshot_single[of demo_hash]) (use \<open>copies demo_hash s1 us1\<close> s1(1) c(5) in \<open>simp_all add: copies_def\<close>)
  then have len2: "length (log_bytes s2) = 19" using s2(5) by simp
  have "to_string (unat (1 :: u64)) = ''1''" "to_string (unat (3 :: u64)) = ''3''" by code_simp+
  then have tok: "replicationToken (Some (1, 3)) s2 = ''1-3''" using s2(4) s1(2) c(12) by (simp add: replicationToken_def)
  let ?c2 = "?c1\<lparr>cc_store := s2, cc_token := ''1-3'', cc_used := [''1-3'', ''1-2''], cc_leader := onLogReplaced (cc_leader ?c1),
    cc_wires := (\<lambda>n. (cc_wires ?c1 n)\<lparr>wi_file := Some (wire_file ?c1 (cc_wires ?c1 n))\<rparr>)\<rparr>"
  have step2: "cluster_step demo_hash ?c1 ?c2"
    using cluster_step.compact[of ?io True True ?c1 res s2 "''1-3''" "(1, 3)" demo_hash] s2 len2 tok c(11) by simp
  from that[OF run_next[OF run1 step2], of nd "se\<lparr>ls_stopping := True\<rparr>"] c len2 show ?thesis
    by (simp add: onLogReplaced_def onAppend_note_def)
qed

text \<open>
  C32. A compaction tells the sessions to stop, but they stay in the list with the offsets acknowledged
  for the old log.  So a run exists in which a synchronous write after a compaction is
  reported as acknowledged at once, while no follower has it.
\<close>

theorem sync_ack_after_compaction:
  "\<exists>s c. newStore demo_hash demo_io True True demo_cfg None = Some (Inr s) \<and> cluster_run demo_hash (demo_system s) c \<and>
     onAppend_wake False (logOffset (cc_store c)) (cc_leader c) = (Returned_acked, cc_leader c) \<and> \<not> ld_stopping (cc_leader c) \<and>
     sm_abs demo_hash (so_map (cc_store c)) ''b'' = Some ''2'' \<and>
     map (\<lambda>nd. sm_abs demo_hash (so_map (fo_store (nd_follower nd))) ''b'') (cc_nodes c) = [None]"
proof -
  obtain s where s: "newStore demo_hash demo_io True True demo_cfg None = Some (Inr s)" "started demo_hash s"
    "so_logPath s = ''kv.log''" "replicationToken (Some (1, 2)) s = ''1-2''" by (rule demo_started)
  have inv0: "cluster_inv demo_hash (demo_system s) []"
    unfolding demo_system_def by (rule new_cluster_inv[OF s(2) s(4)[symmetric]]) (use s(2) in simp_all)
  obtain c nd se where c: "cluster_run demo_hash (demo_system s) c" "cc_nodes c = [nd]"
    "sm_abs demo_hash (so_map (fo_store (nd_follower nd))) = [''a'' \<mapsto> demo_value]" "length (log_bytes (cc_store c)) = 19"
    "ld_sessions (cc_leader c) = [se]" "ls_acked se = 48" "\<not> ld_stopping (cc_leader c)" by (rule demo_compacted[OF s(2-4)])
  obtain us where inv: "cluster_inv demo_hash c us" using cluster_run_inv[OF c(1) inv0] by blast
  have fits: "command_fits (SetCommand ''b'' ''2'')" by (simp add: command_fits_def payload_ok_def unat_kMaxPayloadBytes)
  have "length (log_bytes (cc_store c)) + length (frame (serialize (SetCommand ''b'' ''2''))) < 2 ^ 64" using c(4) by simp
  then obtain s' now where s': "length (log_bytes s') = 38" "sm_abs demo_hash (so_map s') = (sm_abs demo_hash (so_map (cc_store c)))(''b'' \<mapsto> ''2'')"
    "cluster_step demo_hash c (c\<lparr>cc_store := s', cc_leader := onAppend_note now (logOffset s') (cc_leader c)\<rparr>)" (is "cluster_step _ _ ?c")
    by (rule set_step[OF inv fits]) (use c(4) in simp)
  note run = run_next[OF c(1) s'(3)]
  obtain us' where inv': "cluster_inv demo_hash ?c us'" using cluster_run_inv[OF run inv0] by blast
  have "logOffset s' = 38" using copies_offset[OF cluster_invD(1)[OF inv']] s'(1) by simp
  then have "onAppend_wake False (logOffset (cc_store ?c)) (cc_leader ?c) = (Returned_acked, cc_leader ?c)" "\<not> ld_stopping (cc_leader ?c)"
    using c(5-7) by (simp_all add: onAppend_wake_def onAppend_acked_def onAppend_note_def)
  moreover have "sm_abs demo_hash (so_map (cc_store ?c)) ''b'' = Some ''2''" using s'(2) by simp
  moreover have "map (\<lambda>nd. sm_abs demo_hash (so_map (fo_store (nd_follower nd))) ''b'') (cc_nodes ?c) = [None]" using c(2,3) by simp
  ultimately show ?thesis using s(1) run by (intro exI[of _ s] exI[of _ ?c] conjI)
qed



subsection \<open>Acknowledgements in one piece\<close>

lemma acks_last: "ns \<noteq> [] \<Longrightarrow> last (concat (map ackline ns)) = CHR 0x0A"
  by (induction ns rule: rev_induct) (simp_all add: ackline_def)





subsection \<open>A restart inside a transaction\<close>

lemma feed_snoc:
  "feed f ps s = (length ps, s') \<Longrightarrow> f p s' = (False, s'') \<Longrightarrow> feed f (ps @ [p]) s = (length ps, s'')"
proof (induction ps arbitrary: s)
  case (Cons a ps)
  obtain b s1 where f: "f a s = (b, s1)" by fastforce
  with Cons.prems(1) have "b" "feed f ps s1 = (length ps, s')" by (cases b; auto simp: split_beta Let_def prod_eq_iff)+
  with Cons.IH[OF this(2) Cons.prems(2)] f show ?case by simp
qed simp

lemma whole_0: "whole 0 ps = 0"
  by (cases ps) simp_all

lemma append_fine:
  assumes "so_log s = Some w" and "wal_inv w" and "flush_fine io" and "ps \<noteq> []"
  obtains off w' where "appendReplicatedRecords (fl_writes io) (fl_sync io) ps s = (Inr off, s\<lparr>so_log := Some w'\<rparr>)"
    "wal_bytes w' = wal_bytes w @ log_of ps"
proof -
  have ne: "log_of ps \<noteq> []" using assms(4) by (cases ps) simp_all
  obtain off w' where ap: "appendBytes (fl_writes io) (fl_sync io) (log_of ps) (length ps) w = (Inr off, w')"
    using appendBytes_succeeds[of w "fl_writes io" "fl_sync io" "log_of ps" "length ps"] assms(2,3)
    by (auto simp: flush_fine_def wal_inv_def)
  with that appendBytes_ok(1)[OF ap ne] assms(1,4) show ?thesis
    by (simp add: appendReplicatedRecords_def wal_appendBatch_def log_of_def)
qed

text \<open>The rest of a transaction, without its beginning: the commands are applied one by one and the end is refused.\<close>

lemma applier_takes_rest:
  assumes "sm_inv hash (so_map s)" and "maxMemoryBytes (so_map s) = 0" and "\<forall>mu \<in> set mus. command_fits (mut_command mu)"
  obtains a' s' where "feed (applier_apply hash) (map mutation_payload mus @ [serializeCommitMarker i]) (newApplier, s) = (length mus, a', s')"
    "sm_abs hash (so_map s') = foldl mut_apply (sm_abs hash (so_map s)) mus" "so_log s' = so_log s"
proof -
  let ?us = "map (\<lambda>mu. Single (mut_command mu)) mus"
  have ps: "units_payloads ?us = map mutation_payload mus" by (induction mus) (simp_all add: mutation_payload_command)
  have ms: "concat (map unit_muts ?us) = map (\<lambda>mu. toMutation (mut_command mu)) mus" by (induction mus) simp_all
  obtain a' s' where f: "feed (applier_apply hash) (map mutation_payload mus) (newApplier, s) = (length mus, a', s')" "\<not> ap_inside a'"
    "sm_abs hash (so_map s') = foldl mut_apply (sm_abs hash (so_map s)) mus" "so_log s' = so_log s"
    using feed_applier_units[of hash s ?us newApplier] assms unfolding ps ms mut_apply_canons by (auto simp: newApplier_def)
  have "applier_apply hash (serializeCommitMarker i) (a', s') = (False, a', s')" using f(2) by (simp add: applier_apply_def)
  with f(1) feed_snoc[of "applier_apply hash" "map mutation_payload mus" "(newApplier, s)" "(a', s')"] that f(3,4) show ?thesis by simp
qed

text \<open>What the restart finds: the log as it was cut, and the map without the transaction.\<close>

lemma recovered_inside:
  assumes "cfg_plain cfg" and "io_fine io" and "\<forall>u \<in> set (us @ [Txn i mus]). unit_ok u" and "j \<le> length mus"
    and "lf_bytes lf = log_of (units_payloads us @ take (Suc j) (unit_payloads (Txn i mus)))"
  obtains s w where "newStore hash io True True cfg (Some lf) = Some (Inr s)" "so_log s = Some w" "sm_inv hash (so_map s)"
    "maxMemoryBytes (so_map s) = 0" "sm_abs hash (so_map s) = units_map us" "wal_inv w" "wal_bytes w = lf_bytes lf"
proof -
  let ?t = "unit_payloads (Txn i mus)" let ?ws = "us @ [Txn i mus]" let ?n = "length (units_payloads us) + Suc j"
  have tl: "length ?t = length mus + 2" by simp
  have tk: "take ?n (units_payloads ?ws) = units_payloads us @ take (Suc j) ?t" by simp
  have ws: "units_payloads ?ws = (units_payloads us @ take (Suc j) ?t) @ drop (Suc j) ?t" by (simp del: unit_payloads.simps)
  then have n: "whole (length (lf_bytes lf)) (units_payloads ?ws) = ?n"
    using whole_append[of "units_payloads us @ take (Suc j) ?t" 0 "drop (Suc j) ?t"] assms(4,5) tl
    by (simp del: unit_payloads.simps add: min_def whole_0)
  have "log_of (units_payloads ?ws) = lf_bytes lf @ log_of (drop (Suc j) ?t)" by (simp only: ws assms(5) log_of_simps append_assoc)
  then have pre: "prefix (lf_bytes lf) (log_of (units_payloads ?ws))" by simp
  have "units_in ?n ?ws = length us" using units_in_append[of us "Suc j" "[Txn i mus]"] tl assms(4) by (simp del: unit_payloads.simps)
  from recover_units[OF assms(1,2,3) pre, of hash, unfolded n this tk] that assms(5) show ?thesis by auto
qed

text \<open>What it makes of the rest of the transaction.\<close>

lemma rest_refused:
  assumes "so_log s = Some w" and "sm_inv hash (so_map s)" and "maxMemoryBytes (so_map s) = 0" and "wal_inv w"
    and "unit_ok (Txn i mus)" and "flush_fine fio" and "length (log_of (unit_payloads (Txn i mus))) \<le> kMaxBufferedTransactionBytes"
  obtains f' where "consume_chunk hash fio (log_of (map mutation_payload (drop j mus) @ [serializeCommitMarker i])) (newFollower s rcfg st) = (False, [], f')"
    "log_bytes (fo_store f') = wal_bytes w @ log_of (map mutation_payload (drop j mus) @ [serializeCommitMarker i])"
    "sm_abs hash (so_map (fo_store f')) = foldl mut_apply (sm_abs hash (so_map s)) (drop j mus)"
proof -
  let ?rest = "map mutation_payload (drop j mus) @ [serializeCommitMarker i]"
  let ?f = "newFollower s rcfg st"
  let ?f1 = "?f\<lparr>fo_recvBuffer := log_of ?rest, fo_bytesReceived := of_nat (length (log_of ?rest))\<rparr>"
  have ok: "\<forall>p \<in> set ?rest. payload_ok p" using unit_payloads_ok[OF assms(5)] by (auto dest: in_set_dropD)
  have "log_of (map mutation_payload mus) = log_of (map mutation_payload (take j mus)) @ log_of (map mutation_payload (drop j mus))"
    by (metis append_take_drop_id log_of_simps(3) map_append)
  then have "length (log_of ?rest) \<le> length (log_of (unit_payloads (Txn i mus)))" by simp
  with sum_payloads_le[of ?rest] assms(7) have sz: "fo_pendingBytes ?f1 + sum_list (map length ?rest) \<le> kMaxBufferedTransactionBytes"
    by (simp add: newFollower_def)
  have inn: "\<not> inside_after False ?rest" and ne: "?rest \<noteq> []" by (simp_all add: inside_after_append)
  have r: "consume_records 0 ?f1 = (True, length (log_of ?rest), ?f1\<lparr>fo_insideTransaction := False,
      fo_pendingBytes := sum_list (map length ?rest), fo_pending := ?rest\<rparr>)"
    using consume_records_log[of ?f1 "[]" ?rest "[]"] consume_records_goes_on[of ?f1 "[]" ?rest "[]", OF _ ok torn_Nil sz] ok inn
    by (simp add: newFollower_def)
  obtain off w' where w': "appendReplicatedRecords (fl_writes fio) (fl_sync fio) ?rest s = (Inr off, s\<lparr>so_log := Some w'\<rparr>)"
    "wal_bytes w' = wal_bytes w @ log_of ?rest" by (rule append_fine[OF assms(1,4,6) ne])
  have "\<forall>mu \<in> set (drop j mus). command_fits (mut_command mu)"
    using assms(5) by (simp del: mut_command.simps) (meson in_set_dropD)
  then obtain a' s' where fd: "feed (applier_apply hash) ?rest (newApplier, s\<lparr>so_log := Some w'\<rparr>) = (length (drop j mus), a', s')"
    "sm_abs hash (so_map s') = foldl mut_apply (sm_abs hash (so_map s)) (drop j mus)" "so_log s' = Some w'"
    using applier_takes_rest[of hash "s\<lparr>so_log := Some w'\<rparr>" "drop j mus" i] assms(2,3) by auto
  with that r w' show ?thesis by (simp add: consume_chunk_def flushPending_def newFollower_def log_bytes_def Let_def)
qed

text \<open>
  C34. A follower that was interrupted while it wrote a transaction to its log goes on, after a
  restart, in the middle of that transaction: it applies the remaining writes one by one, refuses
  the end and drops the link, with the leader's log complete on its disk.  When it resumes it
  never gets the first writes again, so it serves a map that lacks them.
\<close>

theorem restart_splits_transaction:
  assumes "cfg_plain cfg" and "io_fine io" and "\<forall>u \<in> set (us @ [Txn i mus]). unit_ok u" and "j \<le> length mus"
    and "lf_bytes lf = log_of (units_payloads us @ take (Suc j) (unit_payloads (Txn i mus)))"
    and "flush_fine fio" and "length (log_of (unit_payloads (Txn i mus))) \<le> kMaxBufferedTransactionBytes"
  shows "\<exists>s f'. newStore hash io True True cfg (Some lf) = Some (Inr s) \<and>
    consume_chunk hash fio (log_of (drop (Suc j) (unit_payloads (Txn i mus)))) (newFollower s rcfg st) = (False, [], f') \<and>
    log_bytes (fo_store f') = log_of (units_payloads (us @ [Txn i mus])) \<and>
    sm_abs hash (so_map (fo_store f')) = foldl mut_apply (units_map us) (drop j mus)"
proof -
  let ?t = "unit_payloads (Txn i mus)"
  have dr: "drop (Suc j) ?t = map mutation_payload (drop j mus) @ [serializeCommitMarker i]" using assms(4) by (simp add: drop_map)
  have ok: "unit_ok (Txn i mus)" using assms(3) by simp
  obtain s w where s: "newStore hash io True True cfg (Some lf) = Some (Inr s)" "so_log s = Some w" "sm_inv hash (so_map s)"
    "maxMemoryBytes (so_map s) = 0" "sm_abs hash (so_map s) = units_map us" "wal_inv w" "wal_bytes w = lf_bytes lf"
    by (rule recovered_inside[OF assms(1-5)])
  obtain f' where f': "consume_chunk hash fio (log_of (drop (Suc j) ?t)) (newFollower s rcfg st) = (False, [], f')"
    "log_bytes (fo_store f') = wal_bytes w @ log_of (drop (Suc j) ?t)"
    "sm_abs hash (so_map (fo_store f')) = foldl mut_apply (sm_abs hash (so_map s)) (drop j mus)"
    unfolding dr by (rule rest_refused[OF s(2-4,6) ok assms(6,7)])
  have "log_of ?t = log_of (take (Suc j) ?t) @ log_of (drop (Suc j) ?t)" by (metis append_take_drop_id log_of_simps(3))
  then have "log_bytes (fo_store f') = log_of (units_payloads (us @ [Txn i mus]))"
    using f'(2) s(7) assms(5) by (simp del: unit_payloads.simps)
  with s(1,5) f'(1,3) show ?thesis by auto
qed

theorem restart_splits_transaction_witness:
  "let mus = [\<lparr>erase = False, key = ''a'', val = ''1''\<rparr>, \<lparr>erase = False, key = ''b'', val = ''2''\<rparr>];
       lf = \<lparr>lf_bytes = log_of (take 2 (unit_payloads (Txn 7 mus))), lf_durable = []\<rparr>
   in \<exists>s f'. newStore demo_hash demo_io True True demo_cfg (Some lf) = Some (Inr s) \<and>
     consume_chunk demo_hash demo_flush (log_of (drop 2 (unit_payloads (Txn 7 mus)))) (newFollower s defaultReplConfig None) = (False, [], f') \<and>
     log_bytes (fo_store f') = log_of (unit_payloads (Txn 7 mus)) \<and>
     sm_abs demo_hash (so_map (fo_store f')) = [''b'' \<mapsto> ''2''] \<and> units_map [Txn 7 mus] = [''a'' \<mapsto> ''1'', ''b'' \<mapsto> ''2'']"
proof -
  let ?mus = "[\<lparr>erase = False, key = ''a'', val = ''1''\<rparr>, \<lparr>erase = False, key = ''b'', val = ''2''\<rparr>]"
  let ?lf = "\<lparr>lf_bytes = log_of (take 2 (unit_payloads (Txn 7 ?mus))), lf_durable = []\<rparr>"
  have ok: "\<forall>u \<in> set ([] @ [Txn 7 ?mus]). unit_ok u"
    by (simp add: command_fits_def payload_ok_def unat_kMaxPayloadBytes)
  have l: "lf_bytes ?lf = log_of (units_payloads [] @ take (Suc 1) (unit_payloads (Txn 7 ?mus)))" by (simp add: numeral_2_eq_2)
  have sz: "length (log_of (unit_payloads (Txn 7 ?mus))) \<le> kMaxBufferedTransactionBytes"
    by (simp add: mutation_payload_def kMaxBufferedTransactionBytes_def)
  from restart_splits_transaction[OF demo_fine(1,2) ok _ l _ sz, of demo_flush demo_hash defaultReplConfig None]
  show ?thesis by (simp add: Let_def demo_flush_def flush_fine_def units_map_def mut_apply_def numeral_2_eq_2 del: unit_payloads.simps)
qed



subsection \<open>A resumed link\<close>

lemma offset_words:
  "a \<noteq> 0 \<Longrightarrow> a \<le> b \<Longrightarrow> b < 2 ^ 64 \<Longrightarrow> (of_nat a :: u64) \<noteq> 0 \<and> (of_nat a :: u64) \<le> of_nat b \<and> unat (of_nat a :: u64) = a"
  by (simp add: word_le_nat_alt unat_of_nat word_unat_eq_iff)



end
