(* ===== verification/Clients.thy ===== *)
theory Clients
  imports Durability EventLoop
begin

text \<open>
  Many clients on one store with a log: their lines go to their sessions in any order, clients
  leave and others take their place, the background sync runs in between.  From the lines and
  the replies alone one can tell which writes and transactions the server has acknowledged; the
  log holds exactly these, in that order, so a crash and a restart give back a first part
  of them.
\<close>

subsection \<open>What the clients see\<close>

datatype client_event = Line nat string line_result | Gone nat | Tick

definition failed :: "line_result \<Rightarrow> bool" where
  "failed r = (case r of Inl e \<Rightarrow> True | Inr (reply, quit) \<Rightarrow> take 5 reply = ''-ERR '')"

text \<open>
  A client's own account: the writes of its open transaction, and the groups of writes that one
  reply acknowledges.
\<close>

definition observe_line ::
  "parsed_command \<Rightarrow> line_result \<Rightarrow> mutation list option \<Rightarrow> mutation list option \<times> mutation list list" where
  "observe_line cmd r buf =
     (if failed r then (buf, [])
      else case pc_type cmd of
        Set \<Rightarrow> (let mu = \<lparr>erase = False, key = pc_key cmd, val = pc_value cmd\<rparr>
                in case buf of None \<Rightarrow> (None, [[mu]]) | Some mus \<Rightarrow> (Some (mus @ [mu]), []))
      | Del \<Rightarrow> (let mu = \<lparr>erase = True, key = pc_key cmd, val = []\<rparr>
                in case buf of None \<Rightarrow> (None, [[mu]]) | Some mus \<Rightarrow> (Some (mus @ [mu]), []))
      | Begin \<Rightarrow> (Some [], [])
      | Commit \<Rightarrow> (None, case buf of Some (mu # mus) \<Rightarrow> [mu # mus] | _ \<Rightarrow> [])
      | Rollback \<Rightarrow> (None, [])
      | _ \<Rightarrow> (buf, []))"

fun observe ::
  "(nat \<Rightarrow> mutation list option) \<times> mutation list list \<Rightarrow> client_event \<Rightarrow>
   (nat \<Rightarrow> mutation list option) \<times> mutation list list" where
  "observe (b, acks) (Line i line r) =
     (let (buf, a) = observe_line (parse line) r (b i) in (b(i := buf), acks @ a))"
| "observe (b, acks) (Gone i) = (b(i := None), acks)"
| "observe (b, acks) Tick = (b, acks)"

definition acked :: "client_event list \<Rightarrow> mutation list list" where
  "acked es = snd (foldl observe (\<lambda>_. None, []) es)"

text \<open>The map some acknowledged groups spell out.\<close>

definition groups_map :: "mutation list list \<Rightarrow> string \<rightharpoonup> string" where
  "groups_map gs = foldl mut_apply Map.empty (concat gs)"


subsection \<open>Runs of the server's clients\<close>

text \<open>
  A line is at most as long as the input buffers of connections and of the event loop.  A line
  that fails is one that left the log alone: an append that failed part-way, or a log that
  could not be reopened, is outside these runs.
\<close>

inductive clients_step ::
  "(string \<Rightarrow> u64) \<Rightarrow> (nat \<Rightarrow> session) \<times> store \<Rightarrow> client_event \<Rightarrow> (nat \<Rightarrow> session) \<times> store \<Rightarrow> bool" for hash where
  c_line: "handleLine hash io line (ss i) s = (r, se, s') \<Longrightarrow> length line \<le> kMaxLineLength + kLoopReadChunk \<Longrightarrow>
    failed r \<longrightarrow> so_log s' = so_log s \<Longrightarrow> clients_step hash (ss, s) (Line i line r) (ss(i := se), s')"
| c_gone: "clients_step hash (ss, s) (Gone i) (ss(i := newSession), session_destroy (ss i) s)"
| c_tick: "so_log s = Some w \<Longrightarrow> clients_step hash (ss, s) Tick (ss, s\<lparr>so_log := Some (syncTick ok w)\<rparr>)"

inductive clients_run ::
  "(string \<Rightarrow> u64) \<Rightarrow> (nat \<Rightarrow> session) \<times> store \<Rightarrow> client_event list \<Rightarrow> (nat \<Rightarrow> session) \<times> store \<Rightarrow> bool" for hash where
  cr_nil: "clients_run hash x [] x"
| cr_snoc: "clients_run hash x es y \<Longrightarrow> clients_step hash y e z \<Longrightarrow> clients_run hash x (es @ [e]) z"


subsection \<open>One line\<close>

lemma parse_short:
  "length (pc_key (parse line)) \<le> length line \<and> length (pc_value (parse line)) \<le> length line"
proof -
  have w: "length (first_word s) \<le> length s" "length (after_word s) \<le> length s" "length (dropWhile sp s) \<le> length s" for s
    using length_takeWhile_le[of "\<lambda>c. \<not> sp c" "dropWhile sp s"] length_dropWhile_le[of sp s]
      length_dropWhile_le[of "\<lambda>c. \<not> sp c" "dropWhile sp s"]
    by (simp_all add: first_word_def after_word_def)
  have "length (first_word (after_word line)) \<le> length line"
    "length (dropWhile sp (after_word (after_word line))) \<le> length line"
    using w(1)[of "after_word line"] w(2)[of line] w(2)[of "after_word line"] w(3)[of "after_word (after_word line)"]
    by linarith+
  then show ?thesis
    by (auto simp: parse_eq parse_words_def Let_def invalid_def parsedCommand_def split: option.split)
qed

lemma short_fits:
  assumes "length line \<le> kMaxLineLength + kLoopReadChunk"
  shows "command_fits (SetCommand (pc_key (parse line)) (pc_value (parse line)))"
    and "command_fits (DelCommand (pc_key (parse line)))"
  using parse_short[of line] assms
  by (simp_all add: command_fits_def payload_ok_def unat_kMaxPayloadBytes kMaxLineLength_def kLoopReadChunk_def)

definition session_fits :: "session \<Rightarrow> bool" where
  "session_fits se \<longleftrightarrow> (case se_txn se of None \<Rightarrow> True
     | Some t \<Rightarrow> tx_active t \<and> (\<forall>mu \<in> set (tx_mutations t). command_fits (mut_command mu)))"

definition session_muts :: "session \<Rightarrow> mutation list option" where
  "session_muts se = map_option tx_mutations (se_txn se)"

text \<open>A line's effect on the log is what the client makes of the reply.\<close>

definition line_logged ::
  "(string \<Rightarrow> u64) \<Rightarrow> FsyncMode \<Rightarrow> log_unit list \<Rightarrow> parsed_command \<Rightarrow> session \<Rightarrow>
   line_result \<times> session \<times> store \<Rightarrow> bool" where
  "line_logged hash mode h cmd se res =
     (case res of (r, se', s') \<Rightarrow>
        \<exists>vs. logged hash mode s' (h @ vs) \<and> session_fits se' \<and>
             observe_line cmd r (session_muts se) = (session_muts se', map unit_muts vs))"

lemmas line_logged_defs = line_logged_def session_fits_def session_muts_def observe_line_def

lemma line_loggedI:
  "logged hash mode s' (h @ vs) \<Longrightarrow> session_fits se' \<Longrightarrow>
   observe_line cmd r (session_muts se) = (session_muts se', map unit_muts vs) \<Longrightarrow>
   line_logged hash mode h cmd se (r, se', s')"
  by (auto simp: line_logged_def)

lemma failed_simps [simp]:
  "failed (Inl e)" "failed (Inr (''-ERR '' @ b, q))" "\<not> failed (Inr (reply_ok, q))"
  "\<not> failed (Inr (CHR ''$'' # b, q))"
  by (simp_all add: failed_def)

lemma line_set:
  assumes "logged hash mode s h" "session_fits se" "pc_type (parse line) = Set"
    and "length line \<le> kMaxLineLength + kLoopReadChunk"
    and "handleLine hash io line se s = (r, se', s')" "failed r \<longrightarrow> so_log s' = so_log s"
  shows "line_logged hash mode h (parse line) se (r, se', s')"
proof -
  let ?k = "pc_key (parse line)" and ?v = "pc_value (parse line)"
  note fits = short_fits(1)[OF assms(4)]
  consider (ro) "so_readOnly s" | (txn) t where "\<not> so_readOnly s" "se_txn se = Some t"
    | (now) "\<not> so_readOnly s" "se_txn se = None" by fastforce
  then show ?thesis
  proof cases
    case ro
    with assms show ?thesis
      by (intro line_loggedI[where vs = "[]"]) (auto simp: handleLine_def Let_def line_logged_defs failed_def)
  next
    case txn
    with assms fits show ?thesis
      by (intro line_loggedI[where vs = "[]"])
        (auto simp: handleLine_def Let_def line_logged_defs failed_def txn_set_def)
  next
    case now
    obtain x s1 where x: "store_set hash (li_writes io) (li_sync io) ?k ?v s = (x, s1)" by fastforce
    show ?thesis
    proof (cases x)
      case (Inl e)
      with now x assms have "r = Inl e" "se' = se" "s' = s1" by (auto simp: handleLine_def Let_def)
      with x Inl assms logged_failed[OF assms(1), of s'] store_set_error[of hash _ _ _ _ s e s'] show ?thesis
        by (intro line_loggedI[where vs = "[]"]) (auto simp: observe_line_def)
    next
      case (Inr u)
      with now x assms(3,5) have r: "r = Inr (reply_ok, False)" "se' = se" "s' = s1"
        by (auto simp: handleLine_def Let_def)
      have "logged hash mode s' (h @ [Single (SetCommand ?k ?v)])"
        using store_step_logged[OF set_step[OF _ fits] assms(1)] x Inr r(3) by blast
      with r now assms(2,3) show ?thesis
        by (intro line_loggedI) (auto simp: line_logged_defs failed_def)
    qed
  qed
qed

lemma line_del:
  assumes "logged hash mode s h" "session_fits se" "pc_type (parse line) = Del"
    and "length line \<le> kMaxLineLength + kLoopReadChunk"
    and "handleLine hash io line se s = (r, se', s')" "failed r \<longrightarrow> so_log s' = so_log s"
  shows "line_logged hash mode h (parse line) se (r, se', s')"
proof -
  let ?k = "pc_key (parse line)"
  note fits = short_fits(2)[OF assms(4)]
  consider (ro) "so_readOnly s" | (txn) t where "\<not> so_readOnly s" "se_txn se = Some t"
    | (now) "\<not> so_readOnly s" "se_txn se = None" by fastforce
  then show ?thesis
  proof cases
    case ro
    with assms show ?thesis
      by (intro line_loggedI[where vs = "[]"]) (auto simp: handleLine_def Let_def line_logged_defs failed_def)
  next
    case txn
    with assms fits show ?thesis
      by (intro line_loggedI[where vs = "[]"])
        (auto simp: handleLine_def Let_def line_logged_defs failed_def txn_del_def)
  next
    case now
    obtain x s1 where x: "store_del hash (li_writes io) (li_sync io) ?k s = (x, s1)" by fastforce
    show ?thesis
    proof (cases x)
      case (Inl e)
      with now x assms have "r = Inl e" "se' = se" "s' = s1" by (auto simp: handleLine_def Let_def)
      with x Inl assms logged_failed[OF assms(1), of s'] store_del_error[of hash _ _ _ s e s'] show ?thesis
        by (intro line_loggedI[where vs = "[]"]) (auto simp: observe_line_def)
    next
      case (Inr u)
      with now x assms(3,5) have r: "r = Inr (reply_ok, False)" "se' = se" "s' = s1"
        by (auto simp: handleLine_def Let_def)
      have "logged hash mode s' (h @ [Single (DelCommand ?k)])"
        using store_step_logged[OF del_step[OF _ fits] assms(1)] x Inr r(3) by blast
      with r now assms(2,3) show ?thesis
        by (intro line_loggedI) (auto simp: line_logged_defs failed_def)
    qed
  qed
qed

lemma line_compact:
  assumes "logged hash mode s h" "session_fits se" "pc_type (parse line) = Compact"
    and "handleLine hash io line se s = (r, se', s')" "failed r \<longrightarrow> so_log s' = so_log s"
  shows "line_logged hash mode h (parse line) se (r, se', s')"
proof -
  obtain x s1 where x: "store_compact (li_compact io) (li_reopen io) (li_seek io) s = (x, s1)" by fastforce
  have "se' = se" "s' = s \<or> s' = s1"
    using assms(3,4) x by (auto simp: handleLine_def Let_def split: sum.splits if_splits)
  moreover have "logged hash mode s' h"
  proof (cases "so_log s' = so_log s")
    case True
    then show ?thesis using store_compact_map[OF x] \<open>s' = s \<or> s' = s1\<close> by (auto intro: logged_failed[OF assms(1)])
  next
    case False
    then obtain y where "x = Inr y" "s' = s1"
      using assms(3-5) x by (cases x) (auto simp: handleLine_def Let_def split: if_splits)
    with x logged_compact[OF assms(1)] show ?thesis by blast
  qed
  ultimately show ?thesis using assms(2,3)
    by (intro line_loggedI[where vs = "[]"]) (auto simp: observe_line_def)
qed

lemma line_commit:
  assumes "logged hash mode s h" "session_fits se" "pc_type (parse line) = Commit"
    and "handleLine hash io line se s = (r, se', s')" "failed r \<longrightarrow> so_log s' = so_log s"
  shows "line_logged hash mode h (parse line) se (r, se', s')"
proof (cases "se_txn se")
  case None
  with assms show ?thesis
    by (intro line_loggedI[where vs = "[]"]) (auto simp: handleLine_def Let_def line_logged_defs failed_def)
next
  case (Some t)
  let ?mus = "tx_mutations t"
  have t: "tx_active t" "\<forall>mu \<in> set ?mus. command_fits (mut_command mu)"
    using assms(2) Some by (simp_all add: session_fits_def del: mut_command.simps)
  obtain b s1 where c: "commitTransaction hash (li_writes io) (li_sync io) (tx_id t) ?mus s = (b, s1)" by fastforce
  show ?thesis
  proof (cases b)
    case True
    with assms(3,4) Some t(1) c have r: "r = Inr (''$committed='' @ to_string (length ?mus) @ eol, False)"
      "se_txn se' = None" "s' = s1"
      by (auto simp: handleLine_def Let_def txn_commit_def pendingOperations_def txn_destroy_def)
    have "commitTransaction hash (li_writes io) (li_sync io) (tx_id t) ?mus s = (True, s')" using c True r(3) by simp
    note store_step_logged[OF commit_step[OF this t(2)] assms(1)]
    then show ?thesis using r Some assms(3)
      by (intro line_loggedI) (auto simp: line_logged_defs failed_def split: list.split)
  next
    case False
    with assms(3,4) Some t(1) c have r: "failed r" "se' = se" "s' = s1"
      by (auto simp: handleLine_def Let_def txn_commit_def failed_def)
    with c False assms(1,2,5) show ?thesis
      by (intro line_loggedI[where vs = "[]"]) (auto simp: observe_line_def intro: logged_failed dest: commit_error)
  qed
qed

lemma line_get:
  assumes "logged hash mode s h" "session_fits se" "pc_type (parse line) = Get"
    and "handleLine hash io line se s = (r, se', s')"
  shows "line_logged hash mode h (parse line) se (r, se', s')"
proof -
  have "se' = se" "s' = s \<or> s' = snd (store_get hash (pc_key (parse line)) s)"
    using assms(3,4) by (auto simp: handleLine_def Let_def txn_get_def split_beta split: option.splits if_splits)
  moreover from this(2) have "logged hash mode s' h"
    using assms(1) store_step_logged[OF get_step assms(1)] by auto
  ultimately show ?thesis using assms(2,3)
    by (intro line_loggedI[where vs = "[]"]) (auto simp: observe_line_def)
qed

lemma line_other:
  assumes "logged hash mode s h" "session_fits se"
    and "pc_type (parse line) \<in> {Stats, Begin, Rollback, Quit, Invalid}"
    and "handleLine hash io line se s = (r, se', s')"
  shows "line_logged hash mode h (parse line) se (r, se', s')"
proof -
  have "so_log s' = so_log s \<and> so_map s' = so_map s"
    using assms(3,4)
    by (auto simp: handleLine_def Let_def newTransaction_def nextTransactionId_def txn_rollback_def txn_destroy_def
        noteRollback_def split: option.splits if_splits)
  then have l: "logged hash mode s' h" by (auto intro: logged_failed[OF assms(1)])
  have "session_fits se' \<and> observe_line (parse line) r (session_muts se) = (session_muts se', [])"
    using assms(3)
  proof (elim insertE emptyE)
    assume "pc_type (parse line) = Begin"
    with assms(2,4) show ?thesis
      by (cases "se_txn se") (auto simp: handleLine_def newTransaction_def nextTransactionId_def line_logged_defs failed_def)
  next
    assume "pc_type (parse line) = Rollback"
    with assms(2,4) show ?thesis
      by (cases "se_txn se") (auto simp: handleLine_def split_beta Let_def line_logged_defs failed_def)
  qed (use assms(2,4) in \<open>simp_all add: handleLine_def observe_line_def\<close>)
  with l show ?thesis by (intro line_loggedI[where vs = "[]"]) auto
qed

lemma line_effect:
  assumes "logged hash mode s h" "session_fits se" "length line \<le> kMaxLineLength + kLoopReadChunk"
    and "handleLine hash io line se s = (r, se', s')" "failed r \<longrightarrow> so_log s' = so_log s"
  shows "line_logged hash mode h (parse line) se (r, se', s')"
  using line_set[OF assms(1,2) _ assms(3-5)] line_del[OF assms(1,2) _ assms(3-5)] line_compact[OF assms(1,2) _ assms(4,5)]
    line_commit[OF assms(1,2) _ assms(4,5)] line_get[OF assms(1,2) _ assms(4)] line_other[OF assms(1,2) _ assms(4)]
  by (cases "pc_type (parse line)") simp_all


subsection \<open>All clients\<close>

definition clients_inv ::
  "(string \<Rightarrow> u64) \<Rightarrow> FsyncMode \<Rightarrow> client_event list \<Rightarrow> (nat \<Rightarrow> session) \<times> store \<Rightarrow> bool" where
  "clients_inv hash mode es x = (case x of (ss, s) \<Rightarrow>
     (\<exists>h. logged hash mode s h \<and> (\<forall>i. session_fits (ss i)) \<and>
          foldl observe (\<lambda>_. None, []) es = (\<lambda>i. session_muts (ss i), map unit_muts h)))"

lemma session_destroy_frame:
  "so_log (session_destroy se s) = so_log s" "so_map (session_destroy se s) = so_map s"
  by (simp_all add: session_destroy_def txn_destroy_def txn_rollback_def noteRollback_def split: option.split)

lemma clients_inv_step:
  assumes "clients_step hash x e y" and "clients_inv hash mode es x"
  shows "clients_inv hash mode (es @ [e]) y"
  using assms(1)
proof (cases rule: clients_step.cases)
  case (c_line io line ss i s r se s')
  then obtain h where h: "logged hash mode s h" "\<forall>i. session_fits (ss i)"
      "foldl observe (\<lambda>_. None, []) es = (\<lambda>i. session_muts (ss i), map unit_muts h)"
    using assms(2) by (auto simp: clients_inv_def)
  from line_effect[OF h(1) _ c_line(5,4,6)] h(2) obtain vs where vs: "logged hash mode s' (h @ vs)" "session_fits se"
      "observe_line (parse line) r (session_muts (ss i)) = (session_muts se, map unit_muts vs)"
    by (auto simp: line_logged_def)
  have "foldl observe (\<lambda>_. None, []) (es @ [e]) = (\<lambda>j. session_muts ((ss(i := se)) j), map unit_muts (h @ vs))"
    using h(3) vs(3) c_line(2) by (auto simp: fun_eq_iff)
  with vs h(2) c_line(3) show ?thesis by (auto simp: clients_inv_def)
next
  case (c_gone ss s i)
  then obtain h where h: "logged hash mode s h" "\<forall>i. session_fits (ss i)"
      "foldl observe (\<lambda>_. None, []) es = (\<lambda>i. session_muts (ss i), map unit_muts h)"
    using assms(2) by (auto simp: clients_inv_def)
  have "session_fits newSession" "session_muts newSession = None"
    by (simp_all add: newSession_def session_fits_def session_muts_def)
  with h c_gone logged_failed[OF h(1) session_destroy_frame] show ?thesis
    by (auto simp: clients_inv_def fun_eq_iff intro!: exI[of _ h])
next
  case (c_tick s w ss ok)
  with assms(2) logged_same[of hash mode s _ "s\<lparr>so_log := Some (syncTick ok w)\<rparr>"] syncTick_mirrors[of hash mode s _ _ w ok]
  show ?thesis by (fastforce simp: clients_inv_def)
qed

lemma clients_inv_run:
  "clients_run hash x es y \<Longrightarrow> clients_inv hash mode [] x \<Longrightarrow> clients_inv hash mode es y"
  by (induction rule: clients_run.induct) (auto intro: clients_inv_step)

lemma clients_inv_start:
  "cfg_plain cfg \<Longrightarrow> newStore hash io True True cfg None = Some (Inr s) \<Longrightarrow>
   clients_inv hash (cfg_fsyncMode cfg) [] (\<lambda>_. newSession, s)"
  using newStore_logged[OF _ _ run_refl, of cfg hash io s]
  by (auto simp: clients_inv_def newSession_def session_fits_def session_muts_def)

lemma groups_units: "groups_map (map unit_muts us) = units_map us"
  by (simp add: groups_map_def units_map_def)

lemma clients_acked:
  assumes "cfg_plain cfg" "newStore hash io True True cfg None = Some (Inr s0)"
    and "clients_run hash (\<lambda>_. newSession, s0) es (ss, s)"
  obtains h where "logged hash (cfg_fsyncMode cfg) s h" "acked es = map unit_muts h"
  using clients_inv_run[OF assms(3) clients_inv_start[OF assms(1,2)]] by (auto simp: clients_inv_def acked_def)

text \<open>A new client's GET is answered from the map.\<close>

lemma fresh_get_reply:
  assumes "sm_inv hash (so_map s)" "pc_type (parse line) = Get"
  shows "fst (handleLine hash io line newSession s)
    = Inr (get_reply (sm_abs hash (so_map s) (pc_key (parse line))), False)"
proof -
  have "fst (store_get hash (pc_key (parse line)) s) = sm_abs hash (so_map s) (pc_key (parse line))"
    using assms(1) by (simp add: store_get_def split_beta Let_def sm_get_result)
  with assms(2) show ?thesis
    by (auto simp: handleLine_def Let_def newSession_def get_reply_def split_beta split: option.split)
qed

end
