(* ===== verification/Socket.thy ===== *)
theory Socket
  imports Prelude
begin

text \<open>
  Sockets, \<open>src/src/net/socket.cpp\<close>: the owner of a descriptor \<open>FileDescriptor\<close>, the listening
  socket and the outgoing connection.  Objects live at addresses, because assigning an object to
  itself is a case of its own; the kernel's table of open descriptors is part of the state,
  and so are the close calls that hit no open descriptor.  Shown here: under the language's rules
  for lifetimes a descriptor has one owner at most, is closed once and is never forgotten, and
  the constructors keep that on every error path.
\<close>

subsection \<open>Descriptors and their owners\<close>

text \<open>
  The member \<open>fd_\<close> of every live object, the open descriptors, the arguments of \<open>close\<close> calls on
  descriptors that were not open, and the descriptors handed out by \<open>release\<close>.
\<close>

record fd_world =
  fw_objs :: "nat \<rightharpoonup> int"
  fw_open :: "int list"
  fw_badCloses :: "int list"
  fw_released :: "int list"

definition fd_get :: "nat \<Rightarrow> fd_world \<Rightarrow> int" where
  "fd_get a w = (case fw_objs w a of Some fd \<Rightarrow> fd | None \<Rightarrow> -1)"

definition fd_valid :: "nat \<Rightarrow> fd_world \<Rightarrow> bool" where
  "fd_valid a w = (fd_get a w \<ge> 0)"

text \<open>The system call \<open>close\<close>.\<close>

definition sys_close :: "int \<Rightarrow> fd_world \<Rightarrow> fd_world" where
  "sys_close fd w =
     (if fd \<in> set (fw_open w) then w\<lparr>fw_open := removeAll fd (fw_open w)\<rparr>
      else w\<lparr>fw_badCloses := fw_badCloses w @ [fd]\<rparr>)"

text \<open>A call that makes a descriptor, or fails with a negative number.\<close>

definition sys_open :: "int \<Rightarrow> fd_world \<Rightarrow> fd_world" where
  "sys_open fd w = (if fd \<ge> 0 then w\<lparr>fw_open := fd # fw_open w\<rparr> else w)"

definition fd_default :: "nat \<Rightarrow> fd_world \<Rightarrow> fd_world" where
  "fd_default a w = w\<lparr>fw_objs := (fw_objs w)(a \<mapsto> -1)\<rparr>"

definition fd_construct :: "nat \<Rightarrow> int \<Rightarrow> fd_world \<Rightarrow> fd_world" where
  "fd_construct a fd w = w\<lparr>fw_objs := (fw_objs w)(a \<mapsto> fd)\<rparr>"

definition fd_reset :: "nat \<Rightarrow> fd_world \<Rightarrow> fd_world" where
  "fd_reset a w =
     (if fd_get a w \<ge> 0
      then let w' = sys_close (fd_get a w) w in w'\<lparr>fw_objs := (fw_objs w')(a \<mapsto> -1)\<rparr>
      else w)"

definition fd_destroy :: "nat \<Rightarrow> fd_world \<Rightarrow> fd_world" where
  "fd_destroy a w = (let w' = fd_reset a w in w'\<lparr>fw_objs := (fw_objs w')(a := None)\<rparr>)"

definition fd_move :: "nat \<Rightarrow> nat \<Rightarrow> fd_world \<Rightarrow> fd_world" where
  "fd_move a other w = w\<lparr>fw_objs := (fw_objs w)(a \<mapsto> fd_get other w, other \<mapsto> -1)\<rparr>"

definition fd_assign :: "nat \<Rightarrow> nat \<Rightarrow> fd_world \<Rightarrow> fd_world" where
  "fd_assign a other w =
     (if a \<noteq> other
      then let w' = fd_reset a w in w'\<lparr>fw_objs := (fw_objs w')(a \<mapsto> fd_get other w', other \<mapsto> -1)\<rparr>
      else w)"

definition fd_release :: "nat \<Rightarrow> fd_world \<Rightarrow> int \<times> fd_world" where
  "fd_release a w =
     (fd_get a w,
      w\<lparr>fw_objs := (fw_objs w)(a \<mapsto> -1),
        fw_released := (if fd_get a w \<ge> 0 then [fd_get a w] else []) @ fw_released w\<rparr>)"


subsection \<open>Sockets\<close>

text \<open>
  The listening socket holds one \<open>FileDescriptor\<close>, at address \<open>a\<close>; \<open>t\<close> is the temporary it is
  assigned from.  An exception in the constructor destroys the member.  The kernel's answers are
  the descriptor of \<open>socket\<close>, whether the option is set, on which ports \<open>bind\<close> succeeds and
  for which backlogs \<open>listen\<close> does.
\<close>

record listen_io =
  li_socket :: int
  li_reuse :: bool
  li_bind :: "u16 \<Rightarrow> bool"
  li_listen :: "int \<Rightarrow> bool"
  li_strerror :: string

definition syscallError :: "string \<Rightarrow> string \<Rightarrow> syscall_error" where
  "syscallError what err = SyscallError (what @ '' failed: '' @ err)"

definition newListeningSocket :: "listen_io \<Rightarrow> u16 \<Rightarrow> int \<Rightarrow> nat \<Rightarrow> nat \<Rightarrow> fd_world \<Rightarrow> (syscall_error + unit) \<times> fd_world" where
  "newListeningSocket io port backlog a t w =
     (let fail = (\<lambda>what w. (Inl (syscallError what (li_strerror io)), fd_destroy a w));
          w = sys_open (li_socket io) (fd_default a w)
      in if li_socket io < 0 then fail ''socket'' w
         else let w = fd_destroy t (fd_assign a t (fd_construct t (li_socket io) w))
           in if \<not> li_reuse io then fail ''setsockopt(SO_REUSEADDR)'' w
              else if \<not> li_bind io port then fail ''bind'' w
              else if \<not> li_listen io backlog then fail ''listen'' w
              else (Inr (), w))"

datatype errno = EINTR | ECONNABORTED | EAGAIN | EWOULDBLOCK | OtherErrno string

definition errno_text :: "errno \<Rightarrow> string" where
  "errno_text e = (case e of OtherErrno text \<Rightarrow> text | _ \<Rightarrow> [])"

text \<open>\<open>accept\<close> into the object at address \<open>r\<close>; the kernel's answer is the descriptor or the error.\<close>

definition sock_accept :: "errno + int \<Rightarrow> nat \<Rightarrow> fd_world \<Rightarrow> (syscall_error + unit) \<times> fd_world" where
  "sock_accept ans r w =
     (case ans of
        Inl e \<Rightarrow>
          if e = EINTR then (Inr (), fd_default r w)
          else if e = ECONNABORTED then (Inr (), fd_default r w)
          else if e = EAGAIN \<or> e = EWOULDBLOCK then (Inr (), fd_default r w)
          else (Inl (syscallError ''accept'' (errno_text e)), w)
      | Inr client \<Rightarrow> (Inr (), fd_construct r client (sys_open client w)))"

text \<open>\<open>setNonBlocking\<close>, given the answers of both \<open>fcntl\<close> calls: the result and the flags that were set.\<close>

definition O_NONBLOCK :: int where "O_NONBLOCK = 2048"

definition setNonBlocking :: "int \<Rightarrow> bool \<Rightarrow> bool \<times> int option" where
  "setNonBlocking flags setOk = (if flags < 0 then (False, None) else (setOk, Some (or flags O_NONBLOCK)))"

text \<open>
  \<open>connectTo\<close>: \<open>owned\<close> at address \<open>t\<close>, the result at \<open>r\<close>; the failure to set \<open>TCP_NODELAY\<close> is ignored.
\<close>

record connect_io =
  ct_socket :: int
  ct_address :: bool
  ct_connect :: bool

definition connectTo :: "connect_io \<Rightarrow> nat \<Rightarrow> nat \<Rightarrow> fd_world \<Rightarrow> fd_world" where
  "connectTo io r t w =
     (let w = sys_open (ct_socket io) w
      in if ct_socket io < 0 then fd_default r w
         else let w = fd_construct t (ct_socket io) w
           in if \<not> ct_address io then fd_destroy t (fd_default r w)
              else if \<not> ct_connect io then fd_destroy t (fd_default r w)
              else fd_destroy t (fd_move r t w))"


subsection \<open>Ownership\<close>

text \<open>
  What a program may do with descriptors.  \<open>OpenInto\<close> wraps the answer of a call that makes a
  descriptor; the kernel never answers with one that is open.  The other conditions are the
  language's rules on the lifetime of objects.
\<close>

datatype fd_op = Default nat | OpenInto nat int | Move nat nat | Assign nat nat | Reset nat | Release nat | Destroy nat

definition live :: "nat \<Rightarrow> fd_world \<Rightarrow> bool" where
  "live a w = (fw_objs w a \<noteq> None)"

fun fd_legal :: "fd_op \<Rightarrow> fd_world \<Rightarrow> bool" where
  "fd_legal (Default a) w = (\<not> live a w)"
| "fd_legal (OpenInto a fd) w = (\<not> live a w \<and> (fd \<ge> 0 \<longrightarrow> fd \<notin> set (fw_open w)))"
| "fd_legal (Move a b) w = (\<not> live a w \<and> live b w)"
| "fd_legal (Assign a b) w = (live a w \<and> live b w)"
| "fd_legal (Reset a) w = live a w"
| "fd_legal (Release a) w = live a w"
| "fd_legal (Destroy a) w = live a w"

fun fd_step :: "fd_op \<Rightarrow> fd_world \<Rightarrow> fd_world" where
  "fd_step (Default a) w = fd_default a w"
| "fd_step (OpenInto a fd) w = fd_construct a fd (sys_open fd w)"
| "fd_step (Move a b) w = fd_move a b w"
| "fd_step (Assign a b) w = fd_assign a b w"
| "fd_step (Reset a) w = fd_reset a w"
| "fd_step (Release a) w = snd (fd_release a w)"
| "fd_step (Destroy a) w = fd_destroy a w"

fun fd_run :: "fd_op list \<Rightarrow> fd_world \<Rightarrow> fd_world option" where
  "fd_run [] w = Some w"
| "fd_run (x # xs) w = (if fd_legal x w then fd_run xs (fd_step x w) else None)"

definition no_descriptors :: fd_world where
  "no_descriptors = \<lparr>fw_objs = Map.empty, fw_open = [], fw_badCloses = [], fw_released = []\<rparr>"

definition owns :: "fd_world \<Rightarrow> nat \<Rightarrow> int \<Rightarrow> bool" where
  "owns w a fd \<longleftrightarrow> fw_objs w a = Some fd \<and> 0 \<le> fd"

text \<open>Each descriptor is open exactly while one object owns it or its owner has released it.\<close>

definition fd_inv :: "fd_world \<Rightarrow> bool" where
  "fd_inv w \<longleftrightarrow> fw_badCloses w = [] \<and> set (fw_released w) \<subseteq> set (fw_open w) \<and>
     (\<forall>a b fd. owns w a fd \<longrightarrow> owns w b fd \<longrightarrow> a = b) \<and>
     (\<forall>a fd. owns w a fd \<longrightarrow> fd \<in> set (fw_open w) \<and> fd \<notin> set (fw_released w)) \<and>
     (\<forall>fd. fd \<in> set (fw_open w) \<longrightarrow> 0 \<le> fd \<and> (fd \<in> set (fw_released w) \<or> (\<exists>a. owns w a fd)))"

lemma fd_invI:
  assumes "fw_badCloses w = []" and "set (fw_released w) \<subseteq> set (fw_open w)" and "\<And>a b fd. owns w a fd \<Longrightarrow> owns w b fd \<Longrightarrow> a = b"
    and "\<And>a fd. owns w a fd \<Longrightarrow> fd \<in> set (fw_open w) \<and> fd \<notin> set (fw_released w)"
    and "\<And>fd. fd \<in> set (fw_open w) \<Longrightarrow> 0 \<le> fd \<and> (fd \<in> set (fw_released w) \<or> (\<exists>a. owns w a fd))"
  shows "fd_inv w"
  using assms unfolding fd_inv_def by blast

lemma fd_invD:
  assumes "fd_inv w"
  shows "fw_badCloses w = []" and "owns w a fd \<Longrightarrow> owns w b fd \<Longrightarrow> a = b"
    and "owns w a fd \<Longrightarrow> fd \<in> set (fw_open w)" and "owns w a fd \<Longrightarrow> fd \<notin> set (fw_released w)"
    and "fd \<in> set (fw_open w) \<Longrightarrow> 0 \<le> fd" and "fd \<in> set (fw_open w) \<Longrightarrow> fd \<notin> set (fw_released w) \<Longrightarrow> \<exists>a. owns w a fd"
    and "set (fw_released w) \<subseteq> set (fw_open w)"
  using assms unfolding fd_inv_def by blast+

lemma valid_owns: "fd_valid a w \<longleftrightarrow> owns w a (fd_get a w)"
  by (auto simp: fd_valid_def fd_get_def owns_def split: option.splits)

lemma owns_valid: "owns w a fd \<Longrightarrow> fd_valid a w \<and> fd_get a w = fd"
  by (simp add: fd_valid_def fd_get_def owns_def)

text \<open>Two worlds with the same owners, descriptors and releases.\<close>

lemma fd_inv_cong:
  assumes "fd_inv w" and "\<And>a fd. owns w' a fd = owns w a fd" and "fw_open w' = fw_open w"
    and "fw_badCloses w' = fw_badCloses w" and "fw_released w' = fw_released w"
  shows "fd_inv w'"
  using assms by (simp add: fd_inv_def)

lemma fd_reset_simps:
  assumes "fd_inv w"
  shows "fw_objs (fd_reset a w) = (if fd_valid a w then (fw_objs w)(a \<mapsto> -1) else fw_objs w)"
    and "fw_open (fd_reset a w) = (if fd_valid a w then removeAll (fd_get a w) (fw_open w) else fw_open w)"
    and "fw_badCloses (fd_reset a w) = []" and "fw_released (fd_reset a w) = fw_released w"
  using fd_invD(1)[OF assms] fd_invD(3)[OF assms, of a "fd_get a w"]
  by (auto simp: fd_reset_def valid_owns[symmetric] sys_close_def Let_def) (auto simp: fd_valid_def)

lemma owns_reset:
  assumes "fd_inv w"
  shows "owns (fd_reset a w) b fd \<longleftrightarrow> owns w b fd \<and> a \<noteq> b"
  using owns_valid[of w a fd] by (auto simp: owns_def fd_reset_simps[OF assms])

lemma fd_reset_inv:
  assumes "fd_inv w"
  shows "fd_inv (fd_reset a w)"
proof (cases "fd_valid a w")
  case True
  then have a: "owns w a (fd_get a w)" by (simp add: valid_owns)
  note d = fd_invD[OF assms]
  show ?thesis
  proof (rule fd_invI)
    fix b fd assume o: "owns (fd_reset a w) b fd"
    then have "fd \<noteq> fd_get a w" using d(2)[OF a] by (auto simp: owns_reset[OF assms])
    with o d(3,4) show "fd \<in> set (fw_open (fd_reset a w)) \<and> fd \<notin> set (fw_released (fd_reset a w))"
      by (auto simp: owns_reset[OF assms] fd_reset_simps[OF assms])
  next
    fix fd assume "fd \<in> set (fw_open (fd_reset a w))"
    then have fd: "fd \<in> set (fw_open w)" "fd \<noteq> fd_get a w" using True by (auto simp: fd_reset_simps[OF assms])
    have "fd \<in> set (fw_released w) \<or> (\<exists>b. owns w b fd \<and> a \<noteq> b)" using d(6)[OF fd(1)] fd(2) owns_valid by blast
    with d(5)[OF fd(1)] show "0 \<le> fd \<and> (fd \<in> set (fw_released (fd_reset a w)) \<or> (\<exists>b. owns (fd_reset a w) b fd))"
      by (simp add: owns_reset[OF assms] fd_reset_simps[OF assms])
  qed (use d(2,7) d(4)[OF a] in \<open>auto simp: owns_reset[OF assms] fd_reset_simps[OF assms]\<close>)
next
  case False
  then show ?thesis using assms by (simp add: fd_reset_def fd_valid_def)
qed

text \<open>Handing a descriptor from \<open>b\<close> to \<open>a\<close>, which holds none.\<close>

lemma fd_pass_inv:
  assumes "fd_inv w" and "\<not> fd_valid a w" and "a \<noteq> b"
  shows "fd_inv (w\<lparr>fw_objs := (fw_objs w)(a \<mapsto> fd_get b w, b \<mapsto> -1)\<rparr>)" (is "fd_inv ?w")
proof -
  note d = fd_invD[OF assms(1)]
  have a: "\<not> owns w a fd" for fd using assms(2) owns_valid by blast
  have o: "owns ?w x fd \<longleftrightarrow> (if x = a then owns w b fd else x \<noteq> b \<and> owns w x fd)" for x fd
    using assms(3) owns_valid[of w b fd] valid_owns[of b w] by (auto simp: owns_def fd_valid_def)
  show ?thesis
  proof (rule fd_invI)
    fix x y fd assume "owns ?w x fd" "owns ?w y fd"
    then show "x = y" using d(2) by (auto simp: o split: if_splits)
  next
    fix fd assume "fd \<in> set (fw_open ?w)"
    then have fd: "fd \<in> set (fw_open w)" by simp
    have "\<exists>x. owns ?w x fd" if "owns w x fd" for x
      by (rule exI[of _ "if x = b then a else x"]) (use that a assms(3) in \<open>auto simp: o\<close>)
    with d(5,6)[OF fd] show "0 \<le> fd \<and> (fd \<in> set (fw_released ?w) \<or> (\<exists>x. owns ?w x fd))" by auto
  qed (use d in \<open>auto simp: o split: if_splits\<close>)
qed

lemma fd_reset_invalid: "fd_inv w \<Longrightarrow> \<not> fd_valid a (fd_reset a w)"
  by (simp add: valid_owns owns_reset)

lemma fd_drop_inv:
  assumes "fd_inv w" and "\<not> fd_valid a w" and "v = None \<or> v = Some (-1)"
  shows "fd_inv (w\<lparr>fw_objs := (fw_objs w)(a := v)\<rparr>)"
proof (rule fd_inv_cong[OF assms(1)])
  show "owns (w\<lparr>fw_objs := (fw_objs w)(a := v)\<rparr>) b fd = owns w b fd" for b fd
    using assms(2,3) owns_valid[of w a fd] by (auto simp: owns_def)
qed simp_all

lemma fd_open_inv:
  assumes "fd_inv w" and "\<not> live a w" and "fd \<ge> 0 \<Longrightarrow> fd \<notin> set (fw_open w)"
  shows "fd_inv (fd_construct a fd (sys_open fd w))" (is "fd_inv ?w")
proof (rule fd_invI)
  note d = fd_invD[OF assms(1)]
  have a: "\<not> owns w a x" for x using assms(2) by (simp add: owns_def live_def)
  have o: "owns ?w b x \<longleftrightarrow> (if b = a then x = fd \<and> 0 \<le> fd else owns w b x)" for b x
    by (auto simp: owns_def fd_construct_def sys_open_def)
  have w: "fw_open ?w = (if fd \<ge> 0 then fd # fw_open w else fw_open w)" "fw_released ?w = fw_released w"
    by (simp_all add: fd_construct_def sys_open_def)
  show "fw_badCloses ?w = []" using d(1) by (simp add: fd_construct_def sys_open_def)
  show "set (fw_released ?w) \<subseteq> set (fw_open ?w)" using d(7) by (auto simp: w)
  show "x = y" if "owns ?w x f" "owns ?w y f" for x y f
    using that d(2,3) assms(3) by (auto simp: o split: if_splits)
  show "f \<in> set (fw_open ?w) \<and> f \<notin> set (fw_released ?w)" if "owns ?w x f" for x f
    using that d(3,4,7) assms(3) by (auto simp: o w split: if_splits)
  show "0 \<le> f \<and> (f \<in> set (fw_released ?w) \<or> (\<exists>x. owns ?w x f))" if f: "f \<in> set (fw_open ?w)" for f
  proof (cases "f = fd \<and> 0 \<le> fd")
    case True
    then show ?thesis using o[of a f] by auto
  next
    case False
    then have f: "f \<in> set (fw_open w)" using f w by (auto split: if_splits)
    show ?thesis unfolding w(2) using o a d(5)[OF f] d(6)[OF f] by metis
  qed
qed

lemma fd_release_inv:
  assumes "fd_inv w"
  shows "fd_inv (snd (fd_release a w))" (is "fd_inv ?w")
proof (cases "fd_valid a w")
  case True
  then have a: "owns w a (fd_get a w)" "0 \<le> fd_get a w" by (simp_all add: valid_owns owns_def)
  note d = fd_invD[OF assms]
  have o: "owns ?w b fd \<longleftrightarrow> owns w b fd \<and> a \<noteq> b" for b fd by (auto simp: owns_def fd_release_def)
  have w: "fw_open ?w = fw_open w" "fw_released ?w = fd_get a w # fw_released w" "fw_badCloses ?w = fw_badCloses w"
    using a(2) by (simp_all add: fd_release_def)
  show ?thesis
  proof (rule fd_invI)
    fix b fd assume b: "owns ?w b fd"
    then have "fd \<noteq> fd_get a w" using d(2)[OF a(1)] by (auto simp: o)
    with b d(3,4) show "fd \<in> set (fw_open ?w) \<and> fd \<notin> set (fw_released ?w)" by (auto simp: o w)
  next
    fix fd assume "fd \<in> set (fw_open ?w)"
    then have fd: "fd \<in> set (fw_open w)" by (simp add: w)
    have "fd = fd_get a w \<or> fd \<in> set (fw_released w) \<or> (\<exists>b. owns w b fd \<and> a \<noteq> b)" using d(6)[OF fd] owns_valid by blast
    with d(5)[OF fd] show "0 \<le> fd \<and> (fd \<in> set (fw_released ?w) \<or> (\<exists>b. owns ?w b fd))" by (auto simp: o w)
  qed (use d(1,2,7) d(3)[OF a(1)] in \<open>auto simp: o w\<close>)
next
  case False
  with fd_drop_inv[OF assms False, of "Some (-1)"] show ?thesis by (simp add: fd_release_def fd_valid_def)
qed

lemma fd_step_inv:
  assumes "fd_inv w" and "fd_legal x w"
  shows "fd_inv (fd_step x w)"
proof (cases x)
  case (Assign a b)
  with fd_pass_inv[OF fd_reset_inv[OF assms(1)] fd_reset_invalid[OF assms(1)], of a b] assms show ?thesis
    by (simp add: fd_assign_def Let_def)
next
  case (Move a b)
  have "\<not> fd_valid a w" "a \<noteq> b" using assms(2) Move by (auto simp: fd_valid_def fd_get_def live_def split: option.splits)
  with fd_pass_inv[OF assms(1), of a b] Move show ?thesis by (simp add: fd_move_def)
next
  case (Default a)
  have "\<not> fd_valid a w" using assms(2) Default by (auto simp: fd_valid_def fd_get_def live_def split: option.splits)
  with fd_drop_inv[OF assms(1), of a "Some (-1)"] Default show ?thesis by (simp add: fd_default_def)
next
  case (Destroy a)
  with fd_drop_inv[OF fd_reset_inv[OF assms(1)] fd_reset_invalid[OF assms(1)], of None] show ?thesis
    by (simp add: fd_destroy_def Let_def)
next
  case (OpenInto a fd)
  with fd_open_inv[OF assms(1), of a fd] assms(2) show ?thesis by simp
qed (use fd_reset_inv[OF assms(1)] fd_release_inv[OF assms(1)] in simp_all)

lemma fd_run_inv: "fd_run xs w = Some w' \<Longrightarrow> fd_inv w \<Longrightarrow> fd_inv w'"
  by (induction xs arbitrary: w) (auto split: if_splits dest: fd_step_inv)

lemma no_descriptors_inv: "fd_inv no_descriptors"
  by (simp add: no_descriptors_def fd_inv_def owns_def)

text \<open>
  C26. Whatever a program does with \<open>FileDescriptor\<close> objects within the rules of the language
  (constructing, moving, also onto itself, resetting, releasing, destroying), no descriptor is
  closed twice, no two objects own the same one, and the open descriptors are exactly those owned
  by an object and those released to the caller.
\<close>

theorem descriptors_closed_once:
  assumes "fd_run xs no_descriptors = Some w"
  shows "fw_badCloses w = [] \<and>
    (\<forall>a b. fd_valid a w \<and> fd_get b w = fd_get a w \<longrightarrow> b = a) \<and>
    set (fw_open w) = {fd_get a w | a. fd_valid a w} \<union> set (fw_released w) \<and>
    (\<forall>a. fd_valid a w \<longrightarrow> fd_get a w \<notin> set (fw_released w))"
proof -
  note d = fd_invD[OF fd_run_inv[OF assms no_descriptors_inv]]
  have "b = a" if "fd_valid a w" "fd_get b w = fd_get a w" for a b
    using d(2)[of b "fd_get b w" a] that valid_owns[of b w] valid_owns[of a w] by (simp add: fd_valid_def)
  moreover have "set (fw_open w) = {fd_get a w | a. fd_valid a w} \<union> set (fw_released w)"
    using d(3,6,7) owns_valid by (auto simp: valid_owns) blast
  moreover have "fd_get a w \<notin> set (fw_released w)" if "fd_valid a w" for a using that d(4) by (simp add: valid_owns)
  ultimately show ?thesis using d(1) by blast
qed

theorem descriptors_closed_once_witness:
  "\<exists>w. fd_run [OpenInto 0 3, Assign 0 0, OpenInto 1 4, Assign 0 1, Move 2 0, Destroy 0, Destroy 1, OpenInto 0 3, Release 0, Destroy 0] no_descriptors = Some w \<and>
     fw_badCloses w = [] \<and> set (fw_open w) = {fd_get a w | a. fd_valid a w} \<union> {3}"
proof -
  let ?xs = "[OpenInto 0 3, Assign 0 0, OpenInto 1 4, Assign 0 1, Move 2 0, Destroy 0, Destroy 1, OpenInto 0 3, Release 0, Destroy 0]"
  obtain w where w: "fd_run ?xs no_descriptors = Some w" "fw_released w = [3]"
    by (simp add: no_descriptors_def live_def fd_get_def fd_construct_def sys_open_def fd_assign_def fd_reset_def sys_close_def
        fd_move_def fd_destroy_def fd_release_def Let_def)
  from descriptors_closed_once[OF w(1)] w show ?thesis by (intro exI[of _ w]) simp
qed


subsection \<open>No descriptor is lost on an error path\<close>

text \<open>The new descriptor belongs to the object at \<open>a\<close>, and nothing else has changed.\<close>

definition gains :: "nat \<Rightarrow> int \<Rightarrow> fd_world \<Rightarrow> fd_world \<Rightarrow> bool" where
  "gains a fd w w' \<longleftrightarrow> fd_inv w' \<and> 0 \<le> fd \<and> w' = w\<lparr>fw_open := fd # fw_open w, fw_objs := (fw_objs w)(a \<mapsto> fd)\<rparr>"

lemma gains_open:
  assumes "fd_inv w" and "\<not> live a w" and "0 \<le> fd" and "fd \<notin> set (fw_open w)"
  shows "gains a fd w (w\<lparr>fw_open := fd # fw_open w, fw_objs := (fw_objs w)(a \<mapsto> fd)\<rparr>)"
  using fd_open_inv[OF assms(1,2), of fd] assms(3,4) by (simp add: gains_def fd_construct_def sys_open_def)

lemmas fd_defs = fd_get_def fd_construct_def sys_open_def fd_assign_def fd_reset_def sys_close_def fd_move_def
  fd_destroy_def fd_default_def Let_def

lemma newListeningSocket_outcome:
  assumes "fd_inv w" and "\<not> live a w" and "\<not> live t w" and "a \<noteq> t" and "li_socket io \<notin> set (fw_open w)"
  shows "case newListeningSocket io port backlog a t w of (Inl e, w') \<Rightarrow> w' = w | (Inr u, w') \<Rightarrow> gains a (li_socket io) w w'"
proof -
  have n: "(fw_objs w)(a := None) = fw_objs w" "(fw_objs w)(t := None) = fw_objs w"
    using assms(2,3) by (auto simp: live_def)
  have s: "(fw_objs w)(a \<mapsto> v, t := None) = (fw_objs w)(a \<mapsto> v)" "(fw_objs w)(t := None, a := None) = fw_objs w" for v
    using n assms(4) fun_upd_twist[of a t "fw_objs w" "Some v" None] by simp_all
  show ?thesis
    using assms(4,5) n s gains_open[OF assms(1,2), of "li_socket io"]
    by (simp add: newListeningSocket_def fd_defs fun_upd_twist[of t a])
qed

lemma connectTo_outcome:
  assumes "fd_inv w" and "\<not> live a w" and "\<not> live t w" and "a \<noteq> t" and "ct_socket io \<notin> set (fw_open w)"
  shows "connectTo io a t w = fd_default a w \<or> gains a (ct_socket io) w (connectTo io a t w)"
proof -
  have n: "(fw_objs w)(t := None) = fw_objs w" using assms(3) by (auto simp: live_def)
  have s: "(fw_objs w)(a \<mapsto> v, t := None) = (fw_objs w)(a \<mapsto> v)" for v
    using n assms(4) fun_upd_twist[of a t "fw_objs w" "Some v" None] by simp
  show ?thesis
    using assms(4,5) n s gains_open[OF assms(1,2), of "ct_socket io"]
    by (simp add: connectTo_def fd_defs fun_upd_twist[of t a])
qed

text \<open>
  The constructor of a listening socket, the accepting of a client and an outgoing connection
  lose no descriptor on any path: after an exception everything is as before, an invalid result
  owns nothing, and otherwise exactly one descriptor is new, owned by the result.
\<close>

theorem sockets_leak_nothing:
  assumes "fd_inv w" and "\<not> live a w" and "\<not> live t w" and "a \<noteq> t"
    and "li_socket io \<notin> set (fw_open w)" and "ct_socket ct \<notin> set (fw_open w)" and "0 \<le> client" and "client \<notin> set (fw_open w)"
  shows "(case newListeningSocket io port backlog a t w of (Inl e, w') \<Rightarrow> w' = w | (Inr u, w') \<Rightarrow> gains a (li_socket io) w w') \<and>
    (connectTo ct a t w = fd_default a w \<or> gains a (ct_socket ct) w (connectTo ct a t w)) \<and>
    (case sock_accept (Inl err) a w of (Inl e, w') \<Rightarrow> w' = w | (Inr u, w') \<Rightarrow> w' = fd_default a w) \<and>
    (case sock_accept (Inr client) a w of (Inl e, w') \<Rightarrow> False | (Inr u, w') \<Rightarrow> gains a client w w')"
  using newListeningSocket_outcome[OF assms(1-5)] connectTo_outcome[OF assms(1-4,6)] gains_open[OF assms(1,2,7,8)] assms(7)
  by (simp add: sock_accept_def fd_construct_def sys_open_def)

theorem sockets_leak_nothing_witness:
  "let io = \<lparr>li_socket = 3, li_reuse = True, li_bind = (\<lambda>p. p \<noteq> 6380), li_listen = (\<lambda>n. True), li_strerror = ''Address already in use''\<rparr> in
   newListeningSocket io 6380 128 0 1 no_descriptors = (Inl (SyscallError ''bind failed: Address already in use''), no_descriptors) \<and>
   gains 0 3 no_descriptors (snd (newListeningSocket io 6390 128 0 1 no_descriptors)) \<and>
   gains 0 4 no_descriptors (snd (sock_accept (Inr 4) 0 no_descriptors))"
proof -
  let ?io = "\<lparr>li_socket = 3, li_reuse = True, li_bind = (\<lambda>p. p \<noteq> 6380), li_listen = (\<lambda>n. True), li_strerror = ''Address already in use''\<rparr>"
  let ?ct = "\<lparr>ct_socket = 5, ct_address = True, ct_connect = False\<rparr>"
  have f: "\<not> live a no_descriptors" "fd \<notin> set (fw_open no_descriptors)" for a fd by (simp_all add: live_def no_descriptors_def)
  note t = sockets_leak_nothing[OF no_descriptors_inv f(1) f(1) _ f(2) f(2) _ f(2), of 0 1 4]
  have "fst (newListeningSocket ?io 6380 128 0 1 no_descriptors) = Inl (SyscallError ''bind failed: Address already in use'')"
    "fst (newListeningSocket ?io 6390 128 0 1 no_descriptors) = Inr ()"
    "fst (sock_accept (Inr 4) 0 no_descriptors) = Inr ()"
    by (simp_all add: newListeningSocket_def syscallError_def fd_defs sock_accept_def)
  with t[of ?io 6380 128 ?ct EINTR] t[of ?io 6390 128 ?ct EINTR] show ?thesis
    by (auto simp: split_beta prod_eq_iff split: sum.splits)
qed

end
