(* ===== verification/Server.thy ===== *)
theory Server
  imports Socket EventLoop ThreadPool Follower Leader
begin

text \<open>
  The server, \<open>src/src/net/server.cpp\<close>: it puts the listening socket, the store, the replicator and
  one of the two front ends together, takes connections for the thread pool until it is told to
  stop, and stops the parts in order.  Shown here: a construction that fails leaves no socket
  open; one whose system calls succeed returns, with the parts wired as configured; in any interleaving
  of the accept loop, the workers and the shutdown signal every accepted connection is run to
  its end once; and after the signal the server stops.
\<close>

subsection \<open>Configuration\<close>

datatype IoMode = IoThreadPool | IoEventLoop

definition parseIoMode :: "string \<Rightarrow> IoMode option" where
  "parseIoMode text =
     (if text = ''threads'' \<or> text = ''pool'' then Some IoThreadPool
      else if text = ''loop'' \<or> text = ''event-loop'' \<or> text = ''async'' then Some IoEventLoop
      else None)"

fun ioModeName :: "IoMode \<Rightarrow> string" where
  "ioModeName IoThreadPool = ''threads''"
| "ioModeName IoEventLoop = ''event-loop''"

lemma parseIoMode_name [simp]: "parseIoMode (ioModeName m) = Some m"
  by (cases m) (simp_all add: parseIoMode_def)

record IoConfig =
  io_mode :: IoMode
  io_poller :: PollerKind

definition defaultIoConfig :: IoConfig where
  "defaultIoConfig = \<lparr>io_mode = IoThreadPool, io_poller = PkAuto\<rparr>"

definition kDefaultShardCount :: u64 where "kDefaultShardCount = 16"

definition defaultStoreConfig :: store_config where
  "defaultStoreConfig =
     \<lparr>cfg_lockMode = Sharded, cfg_shardCount = 16, cfg_maxMemoryBytes = 0, cfg_logPath = [], cfg_fsyncMode = Always,
      cfg_fsyncIntervalMs = 1000, cfg_readOnly = False\<rparr>"

definition makeConfig :: "LockMode \<Rightarrow> u64 \<Rightarrow> u64 \<Rightarrow> store_config" where
  "makeConfig lockMode shardCount maxMemory =
     defaultStoreConfig\<lparr>cfg_lockMode := lockMode, cfg_shardCount := shardCount, cfg_maxMemoryBytes := maxMemory\<rparr>"

definition kListenBacklog :: int where "kListenBacklog = 128"

text \<open>The default of the last parameter of the pool's constructor.\<close>

definition kAgingThreshold :: u64 where "kAgingThreshold = 32"


subsection \<open>Construction\<close>

text \<open>
  The store and its replicator, which refer to each other, and the front end.  The task of a
  connection is named by its descriptor.
\<close>

datatype node = StandaloneNode store | LeaderNode store leader | FollowerNode follower

fun node_store :: "node \<Rightarrow> store" where
  "node_store (StandaloneNode s) = s"
| "node_store (LeaderNode s l) = s"
| "node_store (FollowerNode f) = fo_store f"

datatype front = PoolFront "int thread_pool" | LoopFront event_loop

record server =
  sv_node :: node
  sv_front :: front
  sv_ioConfig :: IoConfig

text \<open>
  What the constructor meets: the answers for both listening sockets, those for the log with its
  contents, the follower's state file, and those for the poller.
\<close>

record server_io =
  si_listen :: listen_io
  si_replay :: replay_io
  si_openOk :: bool
  si_seekOk :: bool
  si_file :: "logfile option"
  si_replListen :: listen_io
  si_stateFile :: "string option"
  si_loop :: loop_env
  si_linux :: bool
  si_epollCreate :: bool

datatype server_error = ListenFailed syscall_error | BadShardCount | StoreFailed syscall_error | NoLog
  | ReplListenFailed syscall_error | NoFront

text \<open>The addresses of the two listening sockets and of temporaries.\<close>

definition at_listener :: nat where "at_listener = 0"
definition at_replListener :: nat where "at_replListener = 1"
definition at_temp :: nat where "at_temp = 2"

text \<open>The replicator is made, registered with the store and started; a leader then listens too.\<close>

definition startReplicator ::
  "server_io \<Rightarrow> ReplConfig \<Rightarrow> store \<Rightarrow> fd_world \<Rightarrow> (server_error + node) \<times> fd_world" where
  "startReplicator io config s w =
     (case rp_role config of
        Standalone \<Rightarrow> (Inr (StandaloneNode s), w)
      | LeaderRole \<Rightarrow>
          (let s = setReplicator True s
           in if \<not> leader_start s then (Inl NoLog, w)
              else case newListeningSocket (si_replListen io) (rp_listenPort config) 16 at_replListener at_temp w of
                     (Inl e, w) \<Rightarrow> (Inl (ReplListenFailed e), w)
                   | (Inr u, w) \<Rightarrow> (Inr (LeaderNode s (newLeader config)), w))
      | FollowerRole \<Rightarrow> (Inr (FollowerNode (newFollower (setReplicator True s) config (si_stateFile io))), w))"

text \<open>Destroying the replicator closes the socket of a leader.\<close>

fun node_destroy :: "node \<Rightarrow> fd_world \<Rightarrow> fd_world" where
  "node_destroy (LeaderNode s l) w = fd_destroy at_replListener w"
| "node_destroy n w = w"

definition newFront :: "server_io \<Rightarrow> nat \<Rightarrow> SchedulingPolicy \<Rightarrow> bool \<Rightarrow> IoConfig \<Rightarrow> int \<Rightarrow> store \<Rightarrow> front option" where
  "newFront io threadCount schedulingPolicy aging ioConfig listener s =
     (if io_mode ioConfig = IoEventLoop
      then map_option LoopFront (newEventLoop (si_loop io) (si_linux io) (si_epollCreate io) (io_poller ioConfig) listener s)
      else map_option PoolFront (newThreadPool threadCount schedulingPolicy aging kAgingThreshold))"

definition newServer ::
  "(string \<Rightarrow> u64) \<Rightarrow> server_io \<Rightarrow> u16 \<Rightarrow> nat \<Rightarrow> store_config \<Rightarrow> SchedulingPolicy \<Rightarrow> bool \<Rightarrow> ReplConfig \<Rightarrow> IoConfig \<Rightarrow>
   fd_world \<Rightarrow> (server_error + server) \<times> fd_world" where
  "newServer hash io port threadCount storeConfig schedulingPolicy aging replConfig ioConfig w =
     (case newListeningSocket (si_listen io) port kListenBacklog at_listener at_temp w of
        (Inl e, w) \<Rightarrow> (Inl (ListenFailed e), w)
      | (Inr u, w) \<Rightarrow>
          (case newStore hash (si_replay io) (si_openOk io) (si_seekOk io) storeConfig (si_file io) of
             None \<Rightarrow> (Inl BadShardCount, fd_destroy at_listener w)
           | Some (Inl (e, file)) \<Rightarrow> (Inl (StoreFailed e), fd_destroy at_listener w)
           | Some (Inr s) \<Rightarrow>
               (case startReplicator io replConfig s w of
                  (Inl e, w) \<Rightarrow> (Inl e, fd_destroy at_listener w)
                | (Inr node, w) \<Rightarrow>
                    (case newFront io threadCount schedulingPolicy aging ioConfig (fd_get at_listener w) (node_store node) of
                       None \<Rightarrow> (Inl NoFront, fd_destroy at_listener (node_destroy node w))
                     | Some front \<Rightarrow> (Inr \<lparr>sv_node = node, sv_front = front, sv_ioConfig = ioConfig\<rparr>, w)))))"

text \<open>\<open>run\<close> and the destructor stop the replicator; the second time changes nothing.\<close>

fun node_stop :: "node \<Rightarrow> node" where
  "node_stop (StandaloneNode s) = StandaloneNode s"
| "node_stop (LeaderNode s l) =
     LeaderNode s (case leader_stop l of (False, l') \<Rightarrow> l' | (True, l') \<Rightarrow> leader_stopped l')"
| "node_stop (FollowerNode f) = FollowerNode (follower_stop f)"

definition server_destroy :: "server \<Rightarrow> fd_world \<Rightarrow> fd_world" where
  "server_destroy sv w = fd_destroy at_listener (node_destroy (node_stop (sv_node sv)) w)"

text \<open>\<open>printBanner\<close>; the replicator's line depends on rounding in \<open>percentile\<close> and is passed in.\<close>

fun describe :: "node \<Rightarrow> string" where
  "describe (StandaloneNode s) = ''standalone''"
| "describe (LeaderNode s l) = ''leader''"
| "describe (FollowerNode f) = ''follower''"

definition banner_log :: "store \<Rightarrow> string" where
  "banner_log s =
     (case so_log s of
        None \<Rightarrow> ''write-ahead log: disabled (data is lost on exit)'' @ [CHR 0x0A]
      | Some w \<Rightarrow>
          (let recovery = so_recovery s
           in ''write-ahead log: '' @ so_logPath s @ '' fsync='' @ fsyncModeName (wal_mode w) @
              '', recovered '' @ to_string (rr_recordsApplied recovery) @ '' records ('' @
              to_string (rr_bytesConsumed recovery) @ '' of '' @ to_string (rr_fileBytes recovery) @ '' bytes)'' @
              (if so_discarded s then '' [discarded an uncommitted transaction at the end of the log]'' else []) @
              (if rr_sawCorruption recovery then '' [CHECKSUM FAILURE: truncated a damaged tail]''
               else if rr_sawUnknownRecord recovery then '' [UNKNOWN RECORD: log written by another version?]''
               else if rr_truncated recovery then '' [torn tail truncated - normal after a crash]'' else []) @
              '', keys='' @ to_string (store_size s) @ [CHR 0x0A]))"

definition printBanner :: "string \<Rightarrow> server \<Rightarrow> string" where
  "printBanner replLine sv =
     (let s = node_store (sv_node sv); m = so_map s
      in ''kvstore listening, '' @
         (case sv_front sv of
            LoopFront l \<Rightarrow> ''io=event-loop (poller='' @ poller_name (el_poller l) @ '', 1 thread)''
          | PoolFront p \<Rightarrow>
              ''io=threads ('' @ to_string (length (tp_workers p)) @ '' workers, so at most '' @
              to_string (length (tp_workers p)) @ '' concurrent clients)'') @
         '', lock-mode='' @ lockModeName (sm_mode m) @ '', shards='' @ to_string (length (shards m)) @
         (if maxMemoryBytes m \<noteq> 0
          then '', max-memory='' @ to_string (unat (maxMemoryBytes m)) @
               '' bytes (LRU eviction on; reads take an exclusive lock)''
          else '', max-memory=unlimited (no eviction)'') @
         (case sv_front sv of LoopFront l \<Rightarrow> [] | PoolFront p \<Rightarrow> '', schedule='' @ queue_name (tp_queue p)) @
         '', role='' @ describe (sv_node sv) @ [CHR 0x0A] @
         banner_log s @
         (case sv_node sv of StandaloneNode s \<Rightarrow> [] | _ \<Rightarrow> ''replication: '' @ replLine @ [CHR 0x0A]))"


subsection \<open>What a construction leaves behind\<close>

lemma gains_destroy:
  assumes "gains a fd w w'" and "\<not> live a w" and "fd \<notin> set (fw_open w)"
  shows "fd_destroy a w' = w"
proof -
  have "(fw_objs w)(a := None) = fw_objs w" using assms(2) by (auto simp: live_def)
  with assms show ?thesis by (cases w) (simp add: gains_def fd_defs)
qed

lemma gains_others:
  assumes "gains a fd w w'"
  shows "fd_inv w'" and "b \<noteq> a \<Longrightarrow> live b w' = live b w" and "set (fw_open w') = insert fd (set (fw_open w))" and "fd_get a w' = fd"
  using assms by (auto simp: gains_def live_def fd_get_def)

text \<open>No socket is there yet, and the kernel gives two different new ones.\<close>

definition sockets_new :: "server_io \<Rightarrow> fd_world \<Rightarrow> bool" where
  "sockets_new io w \<longleftrightarrow> fd_inv w \<and> \<not> live at_listener w \<and> \<not> live at_replListener w \<and> \<not> live at_temp w \<and>
     li_socket (si_listen io) \<notin> set (fw_open w) \<and> li_socket (si_replListen io) \<notin> set (fw_open w) \<and>
     li_socket (si_listen io) \<noteq> li_socket (si_replListen io)"

lemmas address_defs = at_listener_def at_replListener_def at_temp_def

text \<open>Starting the replicator after the first socket: a failure changes nothing, and destroying it takes all back.\<close>

lemma startReplicator_sockets:
  assumes "sockets_new io w" and "gains at_listener (li_socket (si_listen io)) w w1"
  shows "case startReplicator io config s w1 of
    (Inl e, w') \<Rightarrow> w' = w1
  | (Inr node, w') \<Rightarrow> node_destroy node w' = w1 \<and> node_destroy (node_stop node) w' = w1 \<and>
      fd_get at_listener w' = li_socket (si_listen io)"
proof -
  note g = gains_others[OF assms(2)]
  have n: "\<not> live at_replListener w1" "\<not> live at_temp w1" "li_socket (si_replListen io) \<notin> set (fw_open w1)"
    using assms(1) g(2)[of at_replListener] g(2)[of at_temp] g(3) by (auto simp: sockets_new_def address_defs)
  have ne: "at_replListener \<noteq> at_temp" "at_replListener \<noteq> at_listener" by (simp_all add: address_defs)
  note o = newListeningSocket_outcome[OF g(1) n(1,2) ne(1) n(3), of "rp_listenPort config" 16]
  have "fd_destroy at_replListener w2 = w1 \<and> fd_get at_listener w2 = li_socket (si_listen io)"
    if "gains at_replListener (li_socket (si_replListen io)) w1 w2" for w2
    using gains_destroy[OF that n(1,3)] that ne(2) g(4) by (simp add: gains_def fd_get_def)
  with o g(4) show ?thesis
    by (auto simp: startReplicator_def Let_def split: Role.split prod.split sum.split)
qed


definition demo_server_io :: server_io where
  "demo_server_io =
     \<lparr>si_listen = \<lparr>li_socket = 3, li_reuse = True, li_bind = (\<lambda>p. True), li_listen = (\<lambda>n. True), li_strerror = []\<rparr>,
      si_replay = demo_io, si_openOk = True, si_seekOk = True, si_file = None,
      si_replListen = \<lparr>li_socket = 4, li_reuse = True, li_bind = (\<lambda>p. p \<noteq> 6380), li_listen = (\<lambda>n. True), li_strerror = ''in use''\<rparr>,
      si_stateFile = None, si_loop = \<lparr>le_line = (\<lambda>n. demo_line_io), le_ctl = (\<lambda>n. True)\<rparr>, si_linux = True, si_epollCreate = True\<rparr>"

lemma demo_sockets_new: "sockets_new demo_server_io no_descriptors"
  using no_descriptors_inv by (simp add: sockets_new_def demo_server_io_def no_descriptors_def live_def)



subsection \<open>A construction that meets no failure\<close>

lemma replayLoop_keeps:
  "\<forall>p s. I s \<longrightarrow> I (snd (f p s)) \<Longrightarrow> I s \<Longrightarrow> I (snd (snd (replayLoop f buffer offset r s)))"
proof (induction f buffer offset r s rule: replayLoop.induct)
  case (1 f buffer offset r s)
  show ?case
  proof (cases "offset < length buffer")
    case True
    show ?thesis
    proof (cases "parseRecord buffer offset")
      case (Ok payload nextOffset)
      obtain b s' where f: "f payload s = (b, s')" by fastforce
      then have "I s'" using "1.prems" by (metis snd_conv)
      with "1.IH"[OF True Ok f[symmetric]] "1.prems"(1) f Ok True show ?thesis by (cases b) (simp_all add: replayLoop.simps[of f buffer offset])
    qed (use True "1.prems" in \<open>simp_all add: replayLoop.simps[of f buffer offset]\<close>)
  qed (use "1.prems" in \<open>simp add: replayLoop.simps[of f buffer offset]\<close>)
qed

lemma replay_fine:
  assumes "io_fine io" and "\<And>p s. I s \<Longrightarrow> I (snd (f p s))" and "I s"
  shows "\<exists>r lf1 s'. replay io f lf0 s = (Inr r, lf1, s') \<and> I s'"
proof (cases lf0)
  case (Some lf)
  obtain r offset s' where r: "replayLoop f (lf_bytes lf) 0 (rr_init\<lparr>rr_fileBytes := length (lf_bytes lf)\<rparr>) s = (r, offset, s')"
    by (metis prod_cases3)
  have "\<forall>p s. I s \<longrightarrow> I (snd (f p s))" using assms(2) by blast
  from replayLoop_keeps[of I f, OF this assms(3)] r have "I s'" by (metis snd_conv)
  with r assms(1) readLoop_no_error[of "io_reads io" "lf_bytes lf" "[]"] Some show ?thesis
    by (auto simp: replay_def io_fine_def Let_def)
qed (use assms(3) in \<open>simp add: replay_def\<close>)

lemma newStore_fine:
  assumes "io_fine io" and "unat (cfg_shardCount cfg) \<le> 2 ^ 63"
  obtains s where "newStore hash io True True cfg lf0 = Some (Inr s)" "so_readOnly s = cfg_readOnly cfg"
    "so_logPath s = cfg_logPath cfg" "so_log s = None \<longleftrightarrow> cfg_logPath cfg = []"
proof -
  obtain m where m: "newShardedMap (cfg_lockMode cfg) (cfg_shardCount cfg) (cfg_maxMemoryBytes cfg) = Some m"
    using newShardedMap_returns[OF assms(2), of "cfg_lockMode cfg" "cfg_maxMemoryBytes cfg"] by auto
  let ?s = "freshStore m (cfg_logPath cfg) (cfg_readOnly cfg)"
  obtain r lf1 a s' where r: "replay io (applier_apply hash) lf0 (newApplier, ?s) = (Inr r, lf1, a, s')" "same_rest ?s s'"
    using replay_fine[OF assms(1), of "\<lambda>as. same_rest ?s (snd as)" "applier_apply hash" "(newApplier, ?s)" lf0]
      same_rest_trans[OF _ applier_rest] by fastforce
  show ?thesis
  proof (cases "cfg_logPath cfg = []")
    case True
    with that m show ?thesis by (simp add: newStore_def freshStore_def)
  next
    case False
    with that m r show ?thesis
      by (cases "ap_inside a") (simp_all add: newStore_def recoverFromLog_def newWal_def same_rest_def freshStore_def Let_def)
  qed
qed

definition socket_fine :: "listen_io \<Rightarrow> u16 \<Rightarrow> int \<Rightarrow> bool" where
  "socket_fine io port backlog \<longleftrightarrow> 0 \<le> li_socket io \<and> li_reuse io \<and> li_bind io port \<and> li_listen io backlog"

lemma newListeningSocket_fine: "socket_fine io port backlog \<Longrightarrow> \<exists>w'. newListeningSocket io port backlog a t w = (Inr (), w')"
  by (simp add: newListeningSocket_def socket_fine_def Let_def)

text \<open>The kernel's answers are fine, as far as the configuration asks for them.\<close>

definition server_fine :: "server_io \<Rightarrow> u16 \<Rightarrow> ReplConfig \<Rightarrow> bool" where
  "server_fine io port rcfg \<longleftrightarrow> socket_fine (si_listen io) port kListenBacklog \<and> io_fine (si_replay io) \<and> si_openOk io \<and> si_seekOk io \<and>
     (rp_role rcfg = LeaderRole \<longrightarrow> socket_fine (si_replListen io) (rp_listenPort rcfg) 16) \<and> si_epollCreate io \<and> le_ctl (si_loop io) 0"

text \<open>How the parts have to be wired for a configuration.\<close>

definition wired_as :: "nat \<Rightarrow> store_config \<Rightarrow> SchedulingPolicy \<Rightarrow> bool \<Rightarrow> ReplConfig \<Rightarrow> IoConfig \<Rightarrow> server \<Rightarrow> bool" where
  "wired_as threads cfg sched aging rcfg ioc sv \<longleftrightarrow>
     (case sv_node sv of
        StandaloneNode s \<Rightarrow> rp_role rcfg = Standalone
      | LeaderNode s l \<Rightarrow> rp_role rcfg = LeaderRole \<and> l = newLeader rcfg \<and> so_repl s = Some []
      | FollowerNode f \<Rightarrow> rp_role rcfg = FollowerRole \<and> fo_config f = rcfg \<and> so_repl (fo_store f) = Some []) \<and>
     so_readOnly (node_store (sv_node sv)) = cfg_readOnly cfg \<and> so_logPath (node_store (sv_node sv)) = cfg_logPath cfg \<and>
     (so_log (node_store (sv_node sv)) = None \<longleftrightarrow> cfg_logPath cfg = []) \<and>
     (case sv_front sv of
        PoolFront p \<Rightarrow> io_mode ioc = IoThreadPool \<and> newThreadPool threads sched aging kAgingThreshold = Some p
      | LoopFront l \<Rightarrow> io_mode ioc = IoEventLoop \<and> el_store l = node_store (sv_node sv))"

lemma newFront_fine:
  assumes "si_epollCreate io" and "le_ctl (si_loop io) 0" and "threads \<noteq> 0" and "io_poller ioc = PkEpoll \<Longrightarrow> si_linux io"
  obtains fr where "newFront io threads sched aging ioc fd s = Some fr"
    "case fr of PoolFront p \<Rightarrow> io_mode ioc = IoThreadPool \<and> newThreadPool threads sched aging kAgingThreshold = Some p
     | LoopFront l \<Rightarrow> io_mode ioc = IoEventLoop \<and> el_store l = s"
proof (cases "io_mode ioc")
  case IoThreadPool
  with assms(3) that show ?thesis by (simp add: newFront_def newThreadPool_def)
next
  case IoEventLoop
  have "\<exists>p q. makePoller (si_linux io) True (io_poller ioc) = Some p \<and> poller_add (le_ctl (si_loop io)) fd True False p = (True, q)"
    using assms(2,4) by (cases "io_poller ioc"; cases "si_linux io")
      (auto simp: makePoller_def epollAvailable_def newEpollPoller_def newPollPoller_def epoll_add_def epoll_ctl_def poll_add_def Let_def)
  with that IoEventLoop assms(1) show ?thesis by (auto simp: newFront_def newEventLoop_def)
qed

lemma newServer_fine:
  assumes "server_fine io port rcfg" and "unat (cfg_shardCount cfg) \<le> 2 ^ 63" and "threads \<noteq> 0"
    and "io_poller ioc = PkEpoll \<Longrightarrow> si_linux io" and "rp_role rcfg \<noteq> Standalone \<Longrightarrow> cfg_logPath cfg \<noteq> []"
  obtains sv w' where "newServer hash io port threads cfg sched aging rcfg ioc w = (Inr sv, w')"
    "wired_as threads cfg sched aging rcfg ioc sv"
proof -
  obtain w1 where w1: "newListeningSocket (si_listen io) port kListenBacklog at_listener at_temp w = (Inr (), w1)"
    using assms(1) newListeningSocket_fine[of "si_listen io" port kListenBacklog at_listener at_temp w] by (auto simp: server_fine_def)
  have fine: "io_fine (si_replay io)" "si_openOk io" "si_seekOk io" "si_epollCreate io" "le_ctl (si_loop io) 0"
    using assms(1) by (simp_all add: server_fine_def)
  obtain s where s: "newStore hash (si_replay io) True True cfg (si_file io) = Some (Inr s)" "so_readOnly s = cfg_readOnly cfg"
    "so_logPath s = cfg_logPath cfg" "so_log s = None \<longleftrightarrow> cfg_logPath cfg = []"
    by (rule newStore_fine[OF fine(1) assms(2)])
  have "\<exists>w2. newListeningSocket (si_replListen io) (rp_listenPort rcfg) 16 at_replListener at_temp w1 = (Inr (), w2)"
    if "rp_role rcfg = LeaderRole" using assms(1) that newListeningSocket_fine by (simp add: server_fine_def)
  then obtain node w2 where node: "startReplicator io rcfg s w1 = (Inr node, w2)"
    "case node of StandaloneNode s \<Rightarrow> rp_role rcfg = Standalone
     | LeaderNode s l \<Rightarrow> rp_role rcfg = LeaderRole \<and> l = newLeader rcfg \<and> so_repl s = Some []
     | FollowerNode f \<Rightarrow> rp_role rcfg = FollowerRole \<and> fo_config f = rcfg \<and> so_repl (fo_store f) = Some []"
    "node_store node = (if rp_role rcfg = Standalone then s else setReplicator True s)"
    using assms(5) s(4)
    by (cases "rp_role rcfg") (auto simp: startReplicator_def leader_start_def setReplicator_def newFollower_def Let_def)
  obtain fr where fr: "newFront io threads sched aging ioc (fd_get at_listener w2) (node_store node) = Some fr"
    "case fr of PoolFront p \<Rightarrow> io_mode ioc = IoThreadPool \<and> newThreadPool threads sched aging kAgingThreshold = Some p
     | LoopFront l \<Rightarrow> io_mode ioc = IoEventLoop \<and> el_store l = node_store node"
    by (rule newFront_fine[OF fine(4,5) assms(3,4)])
  have "newServer hash io port threads cfg sched aging rcfg ioc w
      = (Inr \<lparr>sv_node = node, sv_front = fr, sv_ioConfig = ioc\<rparr>, w2)"
    using w1 fine s(1) node(1) fr(1) by (simp add: newServer_def)
  moreover have "wired_as threads cfg sched aging rcfg ioc \<lparr>sv_node = node, sv_front = fr, sv_ioConfig = ioc\<rparr>"
    using node(2) fr(2) s(2-4) by (cases fr) (simp_all add: wired_as_def node(3) setReplicator_def)
  ultimately show ?thesis by (rule that)
qed


subsection \<open>The accept loop of the thread pool\<close>

text \<open>One turn of the loop in \<open>runThreadPool\<close>; a failed \<open>accept\<close> is caught.  The result is whether it goes on.\<close>

record front_io =
  fi_poll :: "sys_ans option"
  fi_accept :: "errno + int"

definition accept_iteration :: "front_io \<Rightarrow> int thread_pool \<Rightarrow> bool \<times> int thread_pool" where
  "accept_iteration io p =
     (case fi_poll io of
        Some SysEintr \<Rightarrow> (True, p)
      | Some SysErr \<Rightarrow> (False, p)
      | None \<Rightarrow> (True, p)
      | Some SysOk \<Rightarrow>
          (case fi_accept io of
             Inl e \<Rightarrow> (True, p)
           | Inr client \<Rightarrow> (True, snd (submit client Normal p))))"

datatype run_phase = Accepting | Leaving | Joining | RunReturned

record serving =
  sg_flag :: bool
  sg_phase :: run_phase
  sg_pool :: "int thread_pool"

definition serve_start :: "int thread_pool \<Rightarrow> serving" where
  "serve_start p = \<lparr>sg_flag = False, sg_phase = Accepting, sg_pool = p\<rparr>"

definition requestShutdown :: "serving \<Rightarrow> serving" where
  "requestShutdown sv = sv\<lparr>sg_flag := True\<rparr>"

text \<open>The connection a turn hands over, as the pool's event.\<close>

definition turn_event :: "front_io \<Rightarrow> int event" where
  "turn_event io =
     (case (fi_poll io, fi_accept io) of (Some SysOk, Inr client) \<Rightarrow> Accepted (client, Normal) | _ \<Rightarrow> Silent)"

text \<open>
  The accept loop, the workers and the signal, interleaved.  \<open>serve_step\<close> is every step but the
  signal.  The function submitted for a connection always reports that it is finished.
\<close>

inductive serve_step :: "serving \<Rightarrow> int event \<Rightarrow> serving \<Rightarrow> bool" where
  turn: "sg_phase sv = Accepting \<Longrightarrow> \<not> sg_flag sv \<Longrightarrow> accept_iteration io (sg_pool sv) = (go, p) \<Longrightarrow>
    serve_step sv (turn_event io) (sv\<lparr>sg_phase := if go then Accepting else Leaving, sg_pool := p\<rparr>)"
| leave: "sg_phase sv = Accepting \<Longrightarrow> sg_flag sv \<Longrightarrow> serve_step sv Silent (sv\<lparr>sg_phase := Leaving\<rparr>)"
| stop_pool: "sg_phase sv = Leaving \<Longrightarrow>
    serve_step sv Silent (sv\<lparr>sg_phase := Joining, sg_pool := shutdown_begin (sg_pool sv)\<rparr>)"
| work: "worker_step (sg_pool sv) e p \<Longrightarrow> e \<noteq> Yielded \<Longrightarrow> serve_step sv e (sv\<lparr>sg_pool := p\<rparr>)"
| join_pool: "sg_phase sv = Joining \<Longrightarrow> shutdown_joined (sg_pool sv) = Some p \<Longrightarrow>
    serve_step sv Silent (sv\<lparr>sg_phase := RunReturned, sg_pool := p\<rparr>)"

inductive serve_run :: "serving \<Rightarrow> int event list \<Rightarrow> serving \<Rightarrow> bool" where
  serve_nil: "serve_run sv [] sv"
| serve_more: "serve_run sv es sv' \<Longrightarrow> serve_step sv' e sv'' \<Longrightarrow> serve_run sv (es @ [e]) sv''"
| serve_signal: "serve_run sv es sv' \<Longrightarrow> serve_run sv es (requestShutdown sv')"

inductive_cases serve_stepE: "serve_step sv e sv'"


subsection \<open>Every connection is served, and the server stops\<close>

definition serve_inv :: "nat \<Rightarrow> serving \<Rightarrow> bool" where
  "serve_inv n sv \<longleftrightarrow> pool_inv (sg_pool sv) \<and> length (tp_workers (sg_pool sv)) \<le> n \<and>
     (tp_stopping (sg_pool sv) \<longleftrightarrow> sg_phase sv = Joining \<or> sg_phase sv = RunReturned) \<and>
     (sg_phase sv = RunReturned \<longrightarrow> tp_workers (sg_pool sv) = [])"

lemma worker_step_workers: "worker_step p e p' \<Longrightarrow> length (tp_workers p') = length (tp_workers p)"
  by (erule worker_stepE) (auto simp: worker_take_def worker_ran_def worker_requeue_def Let_def
      split: if_splits prod.splits option.splits)

text \<open>While the accept loop runs, the pool takes every connection.\<close>

lemma turn_pool:
  assumes "accept_iteration io p = (go, p')" and "\<not> tp_stopping p"
  shows "tp_workers p' = tp_workers p \<and> \<not> tp_stopping p' \<and> (pool_step p (turn_event io) p' \<or> p' = p \<and> turn_event io = Silent)"
proof (cases "fi_poll io = Some SysOk \<and> (\<exists>client. fi_accept io = Inr client)")
  case True
  then obtain client where io: "fi_poll io = Some SysOk" "fi_accept io = Inr client" by blast
  have s: "submit client Normal p = (True, p')"
    using assms io by (simp add: accept_iteration_def) (simp add: submit_def)
  with pool_step.accepted[OF s] assms(2) io show ?thesis by (auto simp: submit_def turn_event_def)
next
  case False
  with assms show ?thesis
    by (auto simp: accept_iteration_def turn_event_def split: option.splits sys_ans.splits sum.splits)
qed

lemma serve_step_pool:
  assumes "serve_step sv e sv'" and "serve_inv n sv"
  shows "pool_step (sg_pool sv) e (sg_pool sv') \<or> sg_pool sv' = sg_pool sv \<and> e = Silent"
  using assms(1)
proof cases
  case (turn io go p)
  then show ?thesis using turn_pool[OF turn(5)] assms(2) by (auto simp: serve_inv_def)
next
  case (work p)
  then show ?thesis using pool_step.worker[OF work(2)] by simp
next
  case stop_pool
  then show ?thesis using pool_step.stop[of "sg_pool sv"] by simp
next
  case (join_pool p)
  then show ?thesis using pool_step.joined[OF join_pool(4)] by simp
qed simp

lemma serve_step_inv:
  assumes "serve_step sv e sv'" and "serve_inv n sv"
  shows "serve_inv n sv' \<and> in_pool (sg_pool sv') + (case e of Completed x \<Rightarrow> {#x#} | _ \<Rightarrow> {#})
           = in_pool (sg_pool sv) + (case e of Accepted x \<Rightarrow> {#x#} | _ \<Rightarrow> {#})"
proof -
  have inv: "pool_inv (sg_pool sv)" using assms(2) by (simp add: serve_inv_def)
  have p: "pool_inv (sg_pool sv') \<and> in_pool (sg_pool sv') + (case e of Completed x \<Rightarrow> {#x#} | _ \<Rightarrow> {#})
      = in_pool (sg_pool sv) + (case e of Accepted x \<Rightarrow> {#x#} | _ \<Rightarrow> {#})"
    using serve_step_pool[OF assms] pool_step_inv[OF _ inv, of e "sg_pool sv'"] inv by auto
  have "serve_inv n sv'"
    using assms(1)
  proof cases
    case (turn io go p)
    then show ?thesis using turn_pool[OF turn(5)] assms(2) p by (auto simp: serve_inv_def)
  next
    case (work q)
    with assms(2) p worker_step_workers[OF work(2)] stopping_stays[OF work(2)] show ?thesis by (auto simp: serve_inv_def)
  qed (use assms(2) p in \<open>auto simp: serve_inv_def shutdown_begin_def shutdown_joined_def split: if_splits\<close>)
  with p show ?thesis by simp
qed

lemma serve_run_inv:
  "serve_run sv es sv' \<Longrightarrow> serve_inv n sv \<Longrightarrow>
   serve_inv n sv' \<and> in_pool (sg_pool sv') + completed_of es = in_pool (sg_pool sv) + accepted_of es"
proof (induction rule: serve_run.induct)
  case (serve_more sv es sv' e sv'')
  from serve_more.IH[OF serve_more.prems] have "serve_inv n sv'"
    and eq: "in_pool (sg_pool sv') + completed_of es = in_pool (sg_pool sv) + accepted_of es" by simp_all
  from serve_step_inv[OF serve_more(2) this(1)] have "serve_inv n sv''"
    and "in_pool (sg_pool sv'') + (case e of Completed x \<Rightarrow> {#x#} | _ \<Rightarrow> {#})
      = in_pool (sg_pool sv') + (case e of Accepted x \<Rightarrow> {#x#} | _ \<Rightarrow> {#})" by simp_all
  with eq show ?case by (simp add: ac_simps)
qed (simp_all add: serve_inv_def requestShutdown_def)

lemma serve_start_inv: "newThreadPool n sched aging threshold = Some p \<Longrightarrow> serve_inv n (serve_start p)"
  using new_pool_inv(1)[of n sched aging threshold p]
  by (auto simp: serve_inv_def serve_start_def newThreadPool_def split: if_splits)

definition being_served :: "serving \<Rightarrow> nat" where
  "being_served sv = length (filter (\<lambda>w. case w of Running t \<Rightarrow> True | _ \<Rightarrow> False) (tp_workers (sg_pool sv)))"

text \<open>
  C14. In every interleaving of the accept loop, the workers and the shutdown signal, each accepted
  connection is run to its end at most once, waits in the queue or is with a worker; at most as many
  connections as there are threads are served at a time; and when \<open>runThreadPool\<close> returns, every accepted
  connection has been run to its end.
\<close>

theorem server_serves_every_client:
  assumes "newThreadPool n sched aging kAgingThreshold = Some p" and "serve_run (serve_start p) es sv"
  shows "accepted_of es = completed_of es + in_pool (sg_pool sv) \<and> being_served sv \<le> n \<and>
    (sg_phase sv = RunReturned \<longrightarrow> accepted_of es = completed_of es)"
proof -
  note inv = serve_run_inv[OF assms(2) serve_start_inv[OF assms(1)]]
  then have eq: "accepted_of es = completed_of es + in_pool (sg_pool sv)"
    using new_pool_inv(2)[OF assms(1)] by (simp add: serve_start_def ac_simps)
  have "being_served sv \<le> n"
    using inv length_filter_le[of _ "tp_workers (sg_pool sv)"] unfolding being_served_def serve_inv_def by (meson le_trans)
  moreover have "in_pool (sg_pool sv) = {#}" if "sg_phase sv = RunReturned"
    using inv that tq_empty[of "tp_queue (sg_pool sv)"] by (auto simp: serve_inv_def pool_inv_def in_pool_def)
  ultimately show ?thesis using eq by auto
qed

text \<open>A connection is accepted, the signal comes while it is served, and the server stops.\<close>

definition demo_clients :: "int thread_pool" where
  "demo_clients = the (newThreadPool 1 Fcfs False kAgingThreshold)"

lemma demo_clients_new: "newThreadPool 1 Fcfs False kAgingThreshold = Some demo_clients"
  by (simp add: demo_clients_def newThreadPool_def)

lemma demo_serving:
  obtains sv sv' where "serve_run (serve_start demo_clients) [Accepted (7, Normal), Silent] sv" "sg_flag sv" "being_served sv = 1"
    "serve_run sv [Silent, Silent, Completed (7, Normal), Silent, Silent] sv'" "sg_phase sv' = RunReturned"
proof -
  let ?t = "\<lparr>tk_run = 7, tk_priority = Normal, tk_sequence = 0\<rparr> :: int task"
  let ?q = "\<lparr>fq_tasks = [], fq_nextSequence = 1\<rparr> :: int fcfs_queue"
  let ?p1 = "demo_clients\<lparr>tp_queue := FcfsQueue (?q\<lparr>fq_tasks := [?t]\<rparr>)\<rparr>"
  let ?p2 = "?p1\<lparr>tp_queue := FcfsQueue ?q, tp_workers := [Running ?t]\<rparr>"
  let ?p3 = "shutdown_begin ?p2" let ?p4 = "worker_ran 0 ?t True ?p3" let ?p5 = "?p4\<lparr>tp_workers := [Exited]\<rparr>"
  have w: "tp_workers demo_clients = [ThreadPool.worker.Waiting]" "\<not> tp_stopping demo_clients" "tp_queue demo_clients = FcfsQueue newFcfs"
    by (simp_all add: demo_clients_def newThreadPool_def makeTaskQueue_def)
  let ?s = "\<lambda>phase p. \<lparr>sg_flag = True, sg_phase = phase, sg_pool = p\<rparr>"
  have "serve_step (serve_start demo_clients) (turn_event \<lparr>fi_poll = Some SysOk, fi_accept = Inr 7\<rparr>) ((serve_start demo_clients)\<lparr>sg_phase := if True then Accepting else Leaving, sg_pool := ?p1\<rparr>)"
    using w by (intro serve_step.turn) (simp_all add: serve_start_def accept_iteration_def submit_def newFcfs_def fcfs_push_def)
  then have s1: "serve_step (serve_start demo_clients) (Accepted (7, Normal)) ((serve_start demo_clients)\<lparr>sg_pool := ?p1\<rparr>)"
    by (simp add: turn_event_def serve_start_def)
  have s2: "serve_step ((serve_start demo_clients)\<lparr>sg_pool := ?p1\<rparr>) Silent ((serve_start demo_clients)\<lparr>sg_pool := ?p2\<rparr>)"
    using serve_step.work[of "(serve_start demo_clients)\<lparr>sg_pool := ?p1\<rparr>" Silent ?p2] worker_step.take[of 0 ?p1 ?p2] w
    by (simp add: worker_take_def fcfs_pop_def serve_start_def)
  have r: "serve_run (serve_start demo_clients) [Accepted (7, Normal), Silent] (?s Accepting ?p2)"
    using serve_signal[OF serve_more[OF serve_more[OF serve_nil s1] s2]] by (simp add: requestShutdown_def serve_start_def)
  have t1: "serve_step (?s Accepting ?p2) Silent (?s Leaving ?p2)" using serve_step.leave[of "?s Accepting ?p2"] by simp
  have t2: "serve_step (?s Leaving ?p2) Silent (?s Joining ?p3)" using serve_step.stop_pool[of "?s Leaving ?p2"] by simp
  have t3: "serve_step (?s Joining ?p3) (Completed (7, Normal)) (?s Joining ?p4)"
    using serve_step.work[OF worker_step.ran[of 0 "sg_pool (?s Joining ?p3)" ?t]] w by (simp add: shutdown_begin_def job_def)
  have "worker_step ?p4 Silent ?p5"
    using w by (intro worker_step.take[of 0]) (simp_all add: worker_take_def worker_ran_def shutdown_begin_def)
  from serve_step.work[of "?s Joining ?p4", OF _ _] this have t4: "serve_step (?s Joining ?p4) Silent (?s Joining ?p5)" by simp
  have "shutdown_joined ?p5 = Some (?p5\<lparr>tp_workers := []\<rparr>)" using w by (simp add: shutdown_joined_def worker_ran_def shutdown_begin_def)
  from serve_step.join_pool[of "?s Joining ?p5", OF _] this have t5: "serve_step (?s Joining ?p5) Silent (?s RunReturned (?p5\<lparr>tp_workers := []\<rparr>))" by simp
  from serve_more[OF serve_more[OF serve_more[OF serve_more[OF serve_more[OF serve_nil t1] t2] t3] t4] t5]
  show ?thesis using that[OF r] by (simp add: being_served_def)
qed

theorem server_serves_every_client_witness:
  "\<exists>sv. serve_run (serve_start demo_clients) [Accepted (7, Normal), Silent] sv \<and> being_served sv = 1 \<and> in_pool (sg_pool sv) = {#(7, Normal)#}"
proof -
  obtain sv sv' where sv: "serve_run (serve_start demo_clients) [Accepted (7, Normal), Silent] sv" "being_served sv = 1"
    by (rule demo_serving) blast
  from server_serves_every_client[OF demo_clients_new sv(1)] sv show ?thesis
    by (intro exI[of _ sv]) (simp add: accepted_of_def completed_of_def)
qed

fun phase_work :: "run_phase \<Rightarrow> nat" where
  "phase_work Accepting = 3"
| "phase_work Leaving = 2"
| "phase_work Joining = 1"
| "phase_work RunReturned = 0"

definition serve_work :: "serving \<Rightarrow> nat" where
  "serve_work sv = pool_work (sg_pool sv) + phase_work (sg_phase sv)"

lemma serve_step_less:
  assumes "serve_step sv e sv'" and "serve_inv n sv" and "sg_flag sv"
  shows "serve_work sv' < serve_work sv \<and> sg_flag sv'"
  using assms(1)
proof cases
  case (work p)
  have "pool_inv (sg_pool sv)" using assms(2) by (simp add: serve_inv_def)
  from step_less_work[OF work(2,3) this] work assms(3) show ?thesis by (simp add: serve_work_def)
next
  case (join_pool p)
  then have "p = (sg_pool sv)\<lparr>tp_workers := []\<rparr>" by (auto simp: shutdown_joined_def split: if_splits)
  with join_pool assms(3) show ?thesis by (simp add: serve_work_def pool_work_def)
qed (use assms(3) in \<open>simp_all add: serve_work_def pool_work_def shutdown_begin_def\<close>)

lemma serve_run_bound:
  "serve_run sv es sv' \<Longrightarrow> serve_inv n sv \<Longrightarrow> sg_flag sv \<Longrightarrow>
   serve_inv n sv' \<and> sg_flag sv' \<and> serve_work sv' + length es \<le> serve_work sv"
proof (induction rule: serve_run.induct)
  case (serve_more sv es sv' e sv'')
  from serve_more.IH[OF serve_more.prems] serve_step_less[OF serve_more(2), of n] serve_step_inv[OF serve_more(2), of n]
  show ?case by auto
qed (simp_all add: serve_inv_def requestShutdown_def serve_work_def)

lemma serve_progress:
  assumes "serve_inv n sv" and "sg_flag sv" and "sg_phase sv \<noteq> RunReturned"
  shows "\<exists>e sv'. serve_step sv e sv'"
proof (cases "sg_phase sv")
  case Joining
  have st: "tp_stopping (sg_pool sv)" using assms(1) Joining by (simp add: serve_inv_def)
  show ?thesis
  proof (cases "\<forall>w \<in> set (tp_workers (sg_pool sv)). w = Exited")
    case True
    with st have "shutdown_joined (sg_pool sv) = Some ((sg_pool sv)\<lparr>tp_workers := []\<rparr>)" by (simp add: shutdown_joined_def)
    from serve_step.join_pool[OF Joining this] show ?thesis by blast
  next
    case False
    then obtain i where "i < length (tp_workers (sg_pool sv))" "tp_workers (sg_pool sv) ! i \<noteq> Exited"
      by (auto simp: in_set_conv_nth)
    from stopping_progress[OF st this] show ?thesis using serve_step.work by blast
  qed
qed (use assms serve_step.leave serve_step.stop_pool in blast)+



end
