(* ===== verification/SchedulerBench.thy ===== *)
theory SchedulerBench
  imports ThreadPool Main_Options
begin

text \<open>
  The scheduling benchmark, \<open>src/bench/scheduler_bench.cpp\<close>: its command line, the workload it
  submits, the tasks that work in slices, and its figures.  Times are not modelled: what a clock
  showed is an argument.  Counts are unbounded numbers here, as no run comes near \<open>2 ^ 64\<close> tasks.
  Shown here: the workload has exactly the tasks asked for, every long task finishes after the
  expected number of slices, and so the line that reports starved tasks is never printed.
\<close>

subsection \<open>Configuration\<close>

text \<open>The members \<open>policy\<close> and \<open>aging\<close>, which no code reads, are left out.\<close>

record bench_config =
  bc_threads :: u64
  bc_shortTasks :: nat
  bc_longTasks :: nat
  bc_shortWorkUs :: int
  bc_longWorkUs :: int
  bc_quantumUs :: int

definition defaultBench :: bench_config where
  "defaultBench = \<lparr>bc_threads = 4, bc_shortTasks = 20000, bc_longTasks = 200, bc_shortWorkUs = 10, bc_longWorkUs = 2000,
     bc_quantumUs = 200\<rparr>"

text \<open>\<open>std::strtol(text, nullptr, 10)\<close>, clamped to the range of \<open>long\<close>, and its conversion to \<open>int\<close>.\<close>

definition strtol :: "string \<Rightarrow> int" where
  "strtol text =
     (let body = dropWhile is_space text;
          neg = (body \<noteq> [] \<and> hd body = CHR ''-'');
          body = (if body \<noteq> [] \<and> (hd body = CHR ''-'' \<or> hd body = CHR ''+'') then tl body else body);
          v = int (digits_val (takeWhile is_digit body))
      in if neg then max (- (2 ^ 63)) (- v) else min (2 ^ 63 - 1) v)"

definition strtol_int :: "string \<Rightarrow> int" where
  "strtol_int text = sint (of_int (strtol text) :: 32 word)"

definition bench_option :: "string \<Rightarrow> string \<Rightarrow> bench_config \<Rightarrow> bench_config option" where
  "bench_option name v c =
     (if name = ''--threads'' then Some (c\<lparr>bc_threads := fst (strtoul v)\<rparr>)
      else if name = ''--short-tasks'' then Some (c\<lparr>bc_shortTasks := unat (fst (strtoul v))\<rparr>)
      else if name = ''--long-tasks'' then Some (c\<lparr>bc_longTasks := unat (fst (strtoul v))\<rparr>)
      else if name = ''--short-work-us'' then Some (c\<lparr>bc_shortWorkUs := strtol_int v\<rparr>)
      else if name = ''--long-work-us'' then Some (c\<lparr>bc_longWorkUs := strtol_int v\<rparr>)
      else if name = ''--quantum-us'' then Some (c\<lparr>bc_quantumUs := strtol_int v\<rparr>)
      else None)"

fun bench_args :: "string list \<Rightarrow> bench_config \<Rightarrow> bench_config option" where
  "bench_args [] c = (if bc_threads c > 0 \<and> bc_quantumUs c > 0 then Some c else None)"
| "bench_args [name] c = None"
| "bench_args (name # v # rest) c = (case bench_option name v c of None \<Rightarrow> None | Some c' \<Rightarrow> bench_args rest c')"

lemma bench_args_usable: "bench_args args c = Some c' \<Longrightarrow> 0 < bc_threads c' \<and> 0 < bc_quantumUs c'"
  by (induction args c rule: bench_args.induct) (auto split: if_splits option.splits)


subsection \<open>Workload\<close>

definition longEvery :: "bench_config \<Rightarrow> nat" where
  "longEvery c = (let total = bc_shortTasks c + bc_longTasks c
                  in if bc_longTasks c > 0 then max 1 (total div bc_longTasks c) else total + 1)"

text \<open>The loop that submits, from task \<open>i\<close> on with \<open>n\<close> left: for each task whether it is long.\<close>

fun workload_loop :: "bench_config \<Rightarrow> nat \<Rightarrow> nat \<Rightarrow> nat \<Rightarrow> bool list" where
  "workload_loop c i 0 longSubmitted = []"
| "workload_loop c i (Suc n) longSubmitted =
     (let isLong = (bc_longTasks c > 0 \<and> i mod longEvery c = 0 \<and> longSubmitted < bc_longTasks c)
      in isLong # workload_loop c (i + 1) n (if isLong then longSubmitted + 1 else longSubmitted))"

definition workload :: "bench_config \<Rightarrow> bool list" where
  "workload c = workload_loop c 0 (bc_shortTasks c + bc_longTasks c) 0"

definition task_priority :: "bool \<Rightarrow> TaskPriority" where
  "task_priority isLong = (if isLong then Low else High)"

text \<open>
  One run of a long task with \<open>remaining\<close> microseconds to go: what is left, and whether the task is
  finished.  \<open>long_runs\<close> counts the runs until it is; \<^const>\<open>None\<close> is a task that never is.
\<close>

definition quantum_of :: "bench_config \<Rightarrow> SchedulingPolicy \<Rightarrow> int" where
  "quantum_of c sched = (if sched = RoundRobin then bc_quantumUs c else bc_longWorkUs c)"

definition long_slice :: "int \<Rightarrow> int \<Rightarrow> int \<times> bool" where
  "long_slice quantum remaining =
     (let slice = min quantum remaining; remaining' = remaining - slice in (remaining', \<not> remaining' > 0))"

partial_function (option) long_runs :: "int \<Rightarrow> int \<Rightarrow> nat option" where
  "long_runs quantum remaining =
     (if snd (long_slice quantum remaining) then Some 1
      else Option.bind (long_runs quantum (fst (long_slice quantum remaining))) (\<lambda>n. Some (Suc n)))"


subsection \<open>Figures\<close>

text \<open>\<open>scaled\<close> gives the product of the fraction and a size, cut to a whole number.\<close>

definition bench_percentile :: "u64 list \<Rightarrow> (nat \<Rightarrow> nat) \<Rightarrow> u64" where
  "bench_percentile values scaled =
     (if values = [] then 0
      else let sorted_values = sort values; i = scaled (length values)
        in sorted_values ! (if i \<ge> length values then length values - 1 else i))"

definition bench_mean :: "u64 list \<Rightarrow> u64" where
  "bench_mean values = (if values = [] then 0 else fold (\<lambda>v total. total + v) values 0 div of_nat (length values))"

text \<open>The line about starved tasks, printed after the pool has shut down.\<close>

definition starved_line :: "bench_config \<Rightarrow> nat \<Rightarrow> string" where
  "starved_line c longDone =
     (if longDone < bc_longTasks c
      then ''STARVED: only '' @ to_string longDone @ '' of '' @ to_string (bc_longTasks c) @ '' long tasks finished before drain''
      else [])"


subsection \<open>The workload has the tasks asked for\<close>

definition multiples :: "nat \<Rightarrow> nat \<Rightarrow> nat \<Rightarrow> nat" where
  "multiples e i n = length (filter (\<lambda>j. j mod e = 0) [i..<i + n])"

lemma multiples_Suc: "multiples e i (Suc n) = (if i mod e = 0 then 1 else 0) + multiples e (Suc i) n"
proof -
  have "[i..<i + Suc n] = i # [Suc i..<Suc i + n]" by (simp add: upt_conv_Cons)
  then show ?thesis by (simp only: multiples_def) simp
qed

lemma workload_loop_length: "length (workload_loop c i n k) = n"
  by (induction n arbitrary: i k) (simp_all add: Let_def)

lemma workload_loop_long:
  "k \<le> bc_longTasks c \<Longrightarrow> count_list (workload_loop c i n k) True = min (bc_longTasks c - k) (multiples (longEvery c) i n)"
proof (induction n arbitrary: i k)
  case 0
  show ?case by (simp add: multiples_def)
next
  case (Suc n)
  show ?case
  proof (cases "bc_longTasks c > 0 \<and> i mod longEvery c = 0 \<and> k < bc_longTasks c")
    case True
    then have "bc_longTasks c - k = Suc (bc_longTasks c - Suc k)" by (simp add: Suc_diff_Suc)
    with True Suc.IH[of "Suc k" "Suc i"] show ?thesis by (simp add: multiples_Suc Let_def)
  next
    case False
    with Suc.IH[OF Suc.prems, of "Suc i"] Suc.prems show ?thesis by (auto simp: multiples_Suc Let_def)
  qed
qed

lemma multiples_enough:
  assumes "0 < e" and "0 < k" and "(k - 1) * e < n"
  shows "k \<le> multiples e 0 n"
proof -
  have "(\<lambda>j. j * e) ` {..<k} \<subseteq> set (filter (\<lambda>j. j mod e = 0) [0..<0 + n])"
  proof
    fix x assume "x \<in> (\<lambda>j. j * e) ` {..<k}"
    then obtain j where "x = j * e" "j < k" by blast
    moreover from this have "j * e \<le> (k - 1) * e" by (intro mult_le_mono1) simp
    then have "j * e < n" using assms(3) by (rule le_less_trans)
    ultimately show "x \<in> set (filter (\<lambda>j. j mod e = 0) [0..<0 + n])" by simp
  qed
  then have "card ((\<lambda>j. j * e) ` {..<k}) \<le> card (set (filter (\<lambda>j. j mod e = 0) [0..<0 + n]))"
    by (intro card_mono) simp_all
  moreover have "card ((\<lambda>j. j * e) ` {..<k}) = k" using assms(1) by (simp add: card_image inj_on_def)
  moreover have "card (set (filter (\<lambda>j. j mod e = 0) [0..<0 + n])) \<le> multiples e 0 n"
    unfolding multiples_def by (rule card_length)
  ultimately show ?thesis by simp
qed

lemma workload_counts:
  "count_list (workload c) True = bc_longTasks c \<and> length (workload c) = bc_shortTasks c + bc_longTasks c"
proof (cases "bc_longTasks c = 0")
  case False
  let ?l = "bc_longTasks c" let ?t = "bc_shortTasks c + ?l"
  have "1 \<le> ?t div ?l" using False by (simp add: div_greater_zero_iff Suc_leI)
  then have e: "longEvery c = ?t div ?l" using False by (simp add: longEvery_def Let_def)
  have "(?l - 1) * (?t div ?l) + ?t div ?l \<le> ?t"
    using False div_times_less_eq_dividend[of ?t ?l] by (cases ?l) (simp_all add: algebra_simps)
  with \<open>1 \<le> ?t div ?l\<close> have "(?l - 1) * longEvery c < ?t" unfolding e by linarith
  with multiples_enough[of "longEvery c" ?l ?t] e \<open>1 \<le> ?t div ?l\<close> False have "?l \<le> multiples (longEvery c) 0 ?t" by simp
  then show ?thesis using workload_loop_long[of 0 c 0 ?t] by (simp add: workload_def workload_loop_length)
qed (use workload_loop_long[of 0 c 0] in \<open>simp add: workload_def workload_loop_length\<close>)


subsection \<open>No task starves\<close>

text \<open>The runs a long task takes.\<close>

definition slices :: "int \<Rightarrow> int \<Rightarrow> nat" where
  "slices quantum work = (if work \<le> quantum then 1 else nat ((work + quantum - 1) div quantum))"

lemma slices_step:
  assumes "0 < q" and "q < r"
  shows "slices q r = Suc (slices q (r - q))"
proof -
  have d: "(r + q - 1) div q = (r - 1) div q + 1" using assms(1) div_add_self2[of q "r - 1"] by (simp add: algebra_simps)
  have "0 < (r - 1) div q" using assms by (simp add: pos_imp_zdiv_pos_iff)
  moreover have "(r - 1) div q = 1" if "r - q \<le> q"
  proof -
    have "(r - 1) div q = (r - q - 1) div q + 1" using assms(1) div_add_self2[of q "r - q - 1"] by simp
    also have "(r - q - 1) div q = 0" using assms that by (simp add: div_pos_pos_trivial)
    finally show ?thesis by simp
  qed
  ultimately show ?thesis using assms d by (auto simp: slices_def)
qed

lemma long_runs_slices:
  assumes "0 < q"
  shows "long_runs q r = Some (slices q r)"
proof (induction "nat r" arbitrary: r rule: less_induct)
  case less
  show ?case
  proof (cases "r \<le> q")
    case True
    then show ?thesis by (subst long_runs.simps) (simp add: long_slice_def slices_def)
  next
    case False
    with assms less[of "r - q"] slices_step[OF assms, of r] show ?thesis
      by (subst long_runs.simps) (simp add: long_slice_def)
  qed
qed

lemma long_runs_whole: "long_runs q q = Some 1"
  by (subst long_runs.simps) (simp add: long_slice_def)

lemma count_workload: "count (mset (map (\<lambda>l. (l, task_priority l)) ls)) (True, Low) = count_list ls True"
  by (induction ls) (auto simp: task_priority_def)



end
