(* ===== verification/Spec2Isabelle.thy ===== *)
theory Spec2Isabelle
  imports Durability MapSpec Session ThreadPool LoopProperties ReplLimits Clients SchedulerBench
begin

text \<open>
  A verification of a key-value store server: a sharded in-memory map with an optional memory
  budget, made durable by a write-ahead log, with transactions, served over TCP by a thread pool or
  an event loop, and replicated from a leader to followers.  The definitions follow the C++ sources
  function by function and keep their names where Isabelle allows it.

  \<^bold>\<open>The parts and how they interact.\<close>  \<open>main\<close> turns the command line into a configuration
  and builds a \<open>Server\<close>.  The server opens the listening socket, builds the \<open>Store\<close> (which replays
  its log into the map), starts a replicator, and serves clients either with one pool task per
  connection or in one event loop.  Either way the bytes of a client are cut into lines, each line
  goes through the parser into the client's \<open>Session\<close>, which reads and writes the store directly or
  through its open \<open>Transaction\<close>.  A write is appended to the log as a framed, checksummed record
  first and applied to the map second; the compactor rewrites the log from the map.  A leader ships
  the bytes of its log to its followers, which append them to their own log, apply whole
  transactions to their map, and acknowledge the offset reached.

  \<^bold>\<open>Which theory models what.\<close>
  \<^item> \<open>Prelude\<close>: byte strings, machine words, the result type \<open>syscall_error + 'a\<close> of code that throws,
    association lists for \<open>unordered_map\<close>, and the lemmas and collections all parts share.
  \<^item> \<open>LogRecord\<close> (\<open>wal/record.cpp\<close>): \<open>crcTable\<close>, \<open>crc32\<close>, \<open>frame\<close>, \<open>parseRecord\<close>.  The checksum is
    polynomial division, parsing accepts exactly the framed payloads, a burst of damage of up to
    four bytes is detected.
  \<^item> \<open>Commands\<close> (\<open>protocol/command.cpp\<close>, \<open>commands.cpp\<close>, \<open>store/mutation.h\<close>): payloads of SET, DEL and
    the transaction markers; decoding inverts encoding and accepts nothing else.
  \<^item> \<open>Eviction\<close> (\<open>store/eviction_policy.h\<close>, \<open>lru_policy.cpp\<close>): the policy interface is the locale
    \<open>eviction_policy\<close>, the LRU list with its index interprets it.
  \<^item> \<open>ShardedMap\<close>, \<open>MapInvariant\<close>, \<open>MapRefinement\<close>, \<open>MapSpec\<close> (\<open>store/sharded_map.cpp\<close>): the shards
    with their tables and policies, every operation, the invariant, the interface \<open>kv_map\<close> the
    store relies on, and the refinement of a partial map (of a bounded cache, with a budget).
  \<^item> \<open>Wal\<close> (\<open>wal/wal.cpp\<close>) and \<open>Compactor\<close> (\<open>wal/compactor.cpp\<close>): a log file is its bytes and how many
    of them are on disk; appending, syncing, replay, truncation, and the rewriting of a log with every
    intermediate state of the two files a crash can leave.
  \<^item> \<open>Store\<close> (\<open>store/store.cpp\<close>, \<open>record_applier.cpp\<close>), \<open>Recovery\<close>, \<open>Durability\<close>: the record \<open>store\<close> has
    the members of the class; a step relation over the client operations carries the invariant
    that the log spells out the map, from which survival of acknowledged writes follows.
  \<^item> \<open>Transaction\<close> (\<open>txn/transaction.cpp\<close>), \<open>Parser\<close> (\<open>protocol/parser.cpp\<close>), \<open>Session\<close>
    (\<open>protocol/session.cpp\<close>): buffered writes, the command language, and the dispatcher; a session
    refines an abstract protocol over a partial map and one buffer.
  \<^item> \<open>Clients\<close> and the end of this theory: any number of sessions on one store, and from the replies they
    saw through the log, a crash and a recovery to the replies they get afterwards.
  \<^item> \<open>TaskQueue\<close> (\<open>pool/task_queue.cpp\<close> and the queue headers) and \<open>ThreadPool\<close>
    (\<open>pool/thread_pool.cpp\<close>): three queues behind the locale \<open>task_store\<close>; each critical section of
    the pool is a function, and threads are a step relation that interleaves them freely.
  \<^item> \<open>Socket\<close> (\<open>net/socket.cpp\<close>), \<open>Connection\<close> (\<open>net/connection.cpp\<close>), \<open>Poller\<close> (\<open>net/poller.cpp\<close>),
    \<open>EventLoop\<close>, \<open>LoopInvariant\<close>, \<open>LoopProperties\<close> (\<open>net/event_loop.cpp\<close>), \<open>Server\<close>
    (\<open>net/server.cpp\<close>): descriptor ownership over an explicit store of objects, line handling, the
    two pollers behind the locale \<open>readiness_set\<close>, every turn of the event loop, and the
    construction, accept loop and shutdown of the server.
  \<^item> \<open>Replicator\<close>, \<open>Leader\<close>, \<open>Follower\<close> (\<open>repl/\<close>): the three classes; \<open>Replica\<close>, \<open>ReplicaLink\<close>,
    \<open>Replication\<close>, \<open>ReplProperties\<close>, \<open>ReplLimits\<close>: a leader and its followers with the bytes between
    them as one transition system, its invariant, what it guarantees, and where that ends.
  \<^item> \<open>Main_Options\<close> (\<open>main.cpp\<close>): number parsing, the option loop, the checks, the start.
  \<^item> \<open>SchedulerBench\<close> (\<open>bench/scheduler_bench.cpp\<close>): the workload run through the modelled pool.

  \<^bold>\<open>How effects are modelled.\<close>  State is passed explicitly.  Each answer of the kernel (a short
  write, an error, the bytes of a read, the readiness of a descriptor, a clock value) is an argument
  of the operation that asks for it, a list where a loop asks repeatedly; the theorems quantify over
  all of them.  Exceptions are values of a sum type, and the state at the throw is returned with
  them.  The hash function \<open>std::hash\<close> is an arbitrary function \<open>hash\<close>.  The operations of the map and
  of the store are atomic steps, which is what their locks provide; the pool, the server and
  replication are interleavings of critical sections.

  \<^bold>\<open>Bounds and fuel.\<close>  Integers that can wrap are words of their width; counts that
  only grow by one per event are natural numbers.  No loop
  uses fuel.  Loops over input end by a measure given in a termination proof; loops that ask the
  kernel end with the list of its answers, so that a theorem about all lists covers every finite
  run.  The two loops that could run forever on some arguments, \<open>roundLoop\<close> of \<open>ShardedMap\<close> and
  \<open>long_runs\<close> of \<open>SchedulerBench\<close>, are partial functions in the option monad, and that they return is
  proved.

  \<^bold>\<open>Where the code falls short.\<close>  Several properties prove a behaviour the code does not mean to
  have: writes lost after recovering a log that ends inside a transaction
  (\<open>open_transaction_swallows_writes\<close>) or after an append that failed part-way
  (\<open>torn_append_loses_next_write\<close>), starvation of the middle priority (\<open>aging_starves_normal\<close>), an
  acknowledgement of the wrong log after a compaction (\<open>sync_ack_after_compaction\<close>), a resumed
  follower that differs from its leader (\<open>resume_trusts_token\<close>), a transaction split by a restart
  (\<open>restart_splits_transaction\<close>), a link dropped for its acknowledgements
  (\<open>pipelined_acks_drop_link\<close>), and input buffered without bound after QUIT (\<open>quit_input_unbounded\<close>).
  The guarantees of durability and replication carry hypotheses that exclude these situations.

  \<^bold>\<open>Not modelled.\<close>  Text that is only printed (usage, notes, warnings, log lines, the tables of the
  benchmark); thread creation, condition-variable wake-ups and wake-up pipes, for which the step
  relations let a waiting thread go on whenever its condition holds; memory capacity of buffers; the
  real time a call takes; the floating-point rounding of the benchmark's percentiles, whose rank is
  an argument.  The load generator \<open>bench/benchmark.cpp\<close> is a measuring client driven by clocks, random
  distributions and floating point; the scripts beside it and the tests only call what is
  modelled here.
\<close>


section \<open>The server as its clients see it\<close>


text \<open>One client has a transaction open while another sets a key.\<close>

definition demo_events :: "client_event list" where
  "demo_events = [Line 1 ''begin'' (Inr (reply_ok, False)), Line 0 ''SET a 1'' (Inr (reply_ok, False))]"

lemma demo_clients:
  "\<exists>s0 ss s w. newStore demo_hash demo_io True True demo_cfg None = Some (Inr s0) \<and>
     clients_run demo_hash (\<lambda>_. newSession, s0) demo_events (ss, s) \<and> so_log s = Some w"
proof -
  obtain s0 where s0: "newStore demo_hash demo_io True True demo_cfg None = Some (Inr s0)" "so_readOnly s0 = False"
    by (rule newStore_fine[OF demo_fine(2), of demo_cfg demo_hash None]) (simp_all add: demo_cfg_def)
  let ?t = "fst (newTransaction s0)" and ?s1 = "snd (newTransaction s0)"
  let ?io = "demo_line_io\<lparr>li_writes := [WOk 3, WEintr]\<rparr>"
  let ?ss = "(\<lambda>_. newSession)((1::nat) := newSession\<lparr>se_txn := Some ?t\<rparr>)"
  have "handleLine demo_hash ?io ''begin'' newSession s0 = (Inr (reply_ok, False), newSession\<lparr>se_txn := Some ?t\<rparr>, ?s1)"
    by (simp add: handleLine_def parse_demo newSession_def split_beta Let_def)
  from c_line[where ss = "\<lambda>_. newSession" and i = 1, OF this]
  have l1: "clients_step demo_hash (\<lambda>_. newSession, s0) (Line 1 ''begin'' (Inr (reply_ok, False))) (?ss, ?s1)"
    by (simp add: kMaxLineLength_def failed_def)
  note r1 = cr_snoc[OF cr_nil l1]
  obtain h where "logged demo_hash (cfg_fsyncMode demo_cfg) ?s1 h"
    using clients_acked[OF demo_fine(1) s0(1) r1] by blast
  then obtain s where s: "store_set demo_hash [WOk 3, WEintr] True ''a'' ''1'' ?s1 = (Inr (), s)"
    unfolding logged_def using store_set_succeeds by blast
  have "handleLine demo_hash ?io ''SET a 1'' (?ss 0) ?s1 = (Inr (reply_ok, False), newSession, s)"
    using s s0(2) by (simp add: handleLine_def parse_demo newSession_def demo_line_io_def)
  from c_line[where ss = ?ss and i = 0, OF this]
  have "clients_step demo_hash (?ss, ?s1) (Line 0 ''SET a 1'' (Inr (reply_ok, False))) (?ss(0 := newSession), s)"
    by (simp add: kMaxLineLength_def failed_def)
  from cr_snoc[OF r1 this] have r2: "clients_run demo_hash (\<lambda>_. newSession, s0) demo_events (?ss(0 := newSession), s)"
    by (simp add: demo_events_def)
  then obtain h' where "logged demo_hash (cfg_fsyncMode demo_cfg) s h'"
    using clients_acked[OF demo_fine(1) s0(1)] by blast
  then obtain w where "so_log s = Some w" by (auto simp: logged_def mirrors_def)
  with s0(1) r2 show ?thesis by blast
qed


end
